(* ===== verification/Web_Prelude.thy ===== *)
theory Web_Prelude
  imports Main "HOL-Library.Word" "HOL-Library.Multiset"
begin

unbundle bit_operations_syntax

text \<open>
  Shared types, lemma collections and generic facts of the development. Bytes and the
  fixed-width integers of the C++ sources are words of their own width; \<open>size_t\<close> is a
  64-bit word wherever its wrap-around can be observed and a natural number where the
  code keeps it far below \<open>2 ^ 64\<close>.

  The locale \<open>wire_codec\<close> is the contract every fixed-size wire format of the HTTP/2
  frame layer meets: an encoder, a decoder that reads a known number of bytes, and the
  set of values that survive the trip.
\<close>

type_synonym byte = "8 word"
type_synonym u16 = "16 word"
type_synonym u32 = "32 word"
type_synonym u64 = "64 word"

named_theorems wire_simps \<open>bytes of encoded machine integers\<close>
named_theorems codec_defs \<open>definitions of the encoders and decoders\<close>
named_theorems session_defs \<open>definitions of the session operations\<close>

section \<open>Big-endian integers\<close>

text \<open>
  \<open>byte_of k v\<close> is the byte \<open>static_cast<uint8_t>(v >> (8 * k))\<close>; \<open>be16\<close>,
  \<open>be24\<close> and \<open>be32\<close> are the shift-and-or expressions the decoders are written with.
\<close>

definition byte_of :: "nat \<Rightarrow> 'a::len word \<Rightarrow> byte" where
  "byte_of k v = ucast (drop_bit (8 * k) v)"

definition be16 :: "byte \<Rightarrow> byte \<Rightarrow> u16" where
  "be16 a b = push_bit 8 (ucast a) OR ucast b"

definition be24 :: "byte \<Rightarrow> byte \<Rightarrow> byte \<Rightarrow> u32" where
  "be24 a b c = push_bit 16 (ucast a) OR push_bit 8 (ucast b) OR ucast c"

definition be32 :: "byte \<Rightarrow> byte \<Rightarrow> byte \<Rightarrow> byte \<Rightarrow> u32" where
  "be32 a b c d =
     push_bit 24 (ucast a) OR push_bit 16 (ucast b) OR push_bit 8 (ucast c) OR ucast d"

lemma byte_of_bit: "bit (byte_of k v) n \<longleftrightarrow> n < 8 \<and> bit v (8 * k + n)"
  by (auto simp: byte_of_def bit_simps)

lemma be16_bit:
  "bit (be16 a b) n \<longleftrightarrow> (if n < 8 then bit b n else n < 16 \<and> bit a (n - 8))"
  using bit_imp_le_length [of a "n - 8"] bit_imp_le_length [of b n]
  by (auto simp: be16_def bit_simps)

lemma be24_bit:
  "bit (be24 a b c) n \<longleftrightarrow>
     (if n < 8 then bit c n else if n < 16 then bit b (n - 8) else n < 24 \<and> bit a (n - 16))"
  using bit_imp_le_length [of a "n - 16"] bit_imp_le_length [of b "n - 8"]
    bit_imp_le_length [of c n]
  by (auto simp: be24_def bit_simps)

lemma be32_bit:
  "bit (be32 a b c d) n \<longleftrightarrow>
     (if n < 8 then bit d n else if n < 16 then bit c (n - 8)
      else if n < 24 then bit b (n - 16) else n < 32 \<and> bit a (n - 24))"
  using bit_imp_le_length [of a "n - 24"] bit_imp_le_length [of b "n - 16"]
    bit_imp_le_length [of c "n - 8"] bit_imp_le_length [of d n]
  by (auto simp: be32_def bit_simps)

lemmas be_bits = byte_of_bit be16_bit be24_bit be32_bit

lemma be16_bytes [wire_simps]: "be16 (byte_of 1 v) (byte_of 0 v) = v"
  by (rule bit_word_eqI) (auto simp: be_bits)

lemma be32_bytes [wire_simps]:
  "be32 (byte_of 3 v) (byte_of 2 v) (byte_of 1 v) (byte_of 0 v) = v"
  by (rule bit_word_eqI) (auto simp: be_bits)

lemma bytes_be32 [wire_simps]:
  "byte_of 3 (be32 a b c d) = a" "byte_of 2 (be32 a b c d) = b"
  "byte_of 1 (be32 a b c d) = c" "byte_of 0 (be32 a b c d) = d"
  by (rule bit_word_eqI; auto simp: be_bits)+

lemma bytes_be16 [wire_simps]: "byte_of 1 (be16 a b) = a" "byte_of 0 (be16 a b) = b"
  by (rule bit_word_eqI; auto simp: be_bits)+

text \<open>A 24-bit value survives three bytes, a 31-bit value survives a cleared top bit.\<close>

lemma bit_small:
  fixes v :: "'a::len word"
  assumes "bit v n" and "unat v < 2 ^ k"
  shows "n < k"
proof (rule ccontr)
  assume "\<not> n < k"
  then have "k \<le> n"
    by simp
  then have "drop_bit n (unat v) = 0"
    using order_less_le_trans [OF assms(2) power_increasing [of k n 2]]
    by (simp add: drop_bit_eq_div)
  then have "\<not> bit (unat v) n"
    by (simp add: bit_iff_odd_drop_bit)
  with assms(1) show False
    by (simp add: bit_unsigned_iff)
qed

lemma be24_bytes [wire_simps]:
  fixes v :: u32
  assumes "unat v < 2 ^ 24"
  shows "be24 (byte_of 2 v) (byte_of 1 v) (byte_of 0 v) = v"
proof (rule bit_word_eqI)
  fix n
  show "bit (be24 (byte_of 2 v) (byte_of 1 v) (byte_of 0 v)) n = bit v n"
    using bit_small [OF _ assms, of n] by (auto simp: be_bits)
qed

lemma bytes_be24 [wire_simps]:
  "byte_of 2 (be24 a b c) = a" "byte_of 1 (be24 a b c) = b" "byte_of 0 (be24 a b c) = c"
  by (rule bit_word_eqI; auto simp: be_bits)+

lemma bit_7f: "bit (0x7f :: byte) n \<longleftrightarrow> n < 7"
proof -
  have "bit (mask 7 :: byte) n \<longleftrightarrow> n < 7"
    by (auto simp: bit_mask_iff)
  then show ?thesis
    by (simp add: mask_eq_exp_minus_1)
qed

lemma be31_bytes [wire_simps]:
  fixes v :: u32
  assumes "unat v < 2 ^ 31"
  shows "be32 (byte_of 3 v AND 0x7f) (byte_of 2 v) (byte_of 1 v) (byte_of 0 v) = v"
proof (rule bit_word_eqI)
  fix n
  show "bit (be32 (byte_of 3 v AND 0x7f) (byte_of 2 v) (byte_of 1 v) (byte_of 0 v)) n = bit v n"
    using bit_small [OF _ assms, of n] bit_7f [of "n - 24"] by (auto simp: be_bits bit_and_iff)
qed

lemma byte_of_or: "byte_of k (a OR b) = byte_of k a OR byte_of k b"
  by (rule bit_word_eqI) (auto simp: be_bits bit_or_iff)

text \<open>The simplifier writes the byte index \<open>1\<close> as \<open>Suc 0\<close>.\<close>

lemmas [wire_simps] =
  be16_bytes [unfolded One_nat_def] be24_bytes [unfolded One_nat_def]
  be31_bytes [unfolded One_nat_def] be32_bytes [unfolded One_nat_def]
  bytes_be16 [unfolded One_nat_def] bytes_be24 [unfolded One_nat_def]
  bytes_be32 [unfolded One_nat_def]

lemma and_7f_again [simp]: "(b AND 0x7f) AND 0x7f = (b AND 0x7f :: byte)"
  by (simp add: and.assoc)

lemma be24_bound: "unat (be24 a b c) < 2 ^ 24"
proof -
  have "take_bit 24 (be24 a b c) = be24 a b c"
    by (rule bit_word_eqI) (auto simp: bit_take_bit_iff be24_bit split: if_splits)
  then have "unat (take_bit 24 (be24 a b c)) = unat (be24 a b c)"
    by simp
  then show ?thesis
    by (metis take_bit_nat_less_exp unsigned_take_bit_eq)
qed

lemma be31_bound: "unat (be32 (a AND 0x7f) b c d) < 2 ^ 31"
proof -
  have "take_bit 31 (be32 (a AND 0x7f) b c d) = be32 (a AND 0x7f) b c d"
  proof (rule bit_word_eqI)
    fix n
    show "bit (take_bit 31 (be32 (a AND 0x7f) b c d)) n = bit (be32 (a AND 0x7f) b c d) n"
      using bit_7f [of "n - 24"]
      by (auto simp: bit_take_bit_iff be32_bit bit_and_iff split: if_splits)
  qed
  then show ?thesis
    by (metis take_bit_nat_less_exp unsigned_take_bit_eq)
qed

lemma unat_eqD: "unat (b :: 'a::len word) = n \<Longrightarrow> b = of_nat n"
  by auto

lemma unat_ucast_up:
  "unat (ucast (b :: byte) :: u64) = unat b" "unat (ucast (w :: u32) :: u64) = unat w"
  "unat (ucast (b :: byte) :: u32) = unat b"
  by (simp_all add: unsigned_ucast_eq take_bit_nat_eq_self_iff
        less_le_trans [OF unsigned_less])

lemma unat_of_nat_u64 [simp]: "n < 2 ^ 64 \<Longrightarrow> unat (of_nat n :: u64) = n"
  by (simp add: unsigned_of_nat take_bit_nat_eq_self_iff)

lemma unat_of_nat_u32: "n < 2 ^ 32 \<Longrightarrow> unat (of_nat n :: u32) = n"
  by (simp add: unsigned_of_nat take_bit_nat_eq_self_iff)

lemma unat_add_of_nat: "unat (w :: u32) + n < 2 ^ 32 \<Longrightarrow> unat (w + of_nat n) = unat w + n"
  by (simp add: unat_word_ariths unat_of_nat_u32)

lemma unat_byte_lt: "unat (b :: byte) < 256"
proof -
  have "unat b < 2 ^ LENGTH(8)"
    by (rule unsigned_less)
  then show ?thesis
    by simp
qed

lemma unat_u32_lt: "unat (w :: u32) < 2 ^ 32"
proof -
  have "unat w < 2 ^ LENGTH(32)"
    by (rule unsigned_less)
  then show ?thesis
    by simp
qed

lemma unat_suc_below: "(a :: 'a::len word) < b \<Longrightarrow> unat (a + 1) = Suc (unat a)"
proof -
  assume "a < b"
  then have "Suc (unat a) \<le> unat b"
    by (simp add: word_less_nat_alt)
  also have "unat b < 2 ^ LENGTH('a)"
    by (rule unsigned_less)
  finally have "Suc (unat a) < 2 ^ LENGTH('a)" .
  then show ?thesis
    by (simp add: unat_word_ariths)
qed

lemma unat_pred: "0 < (a :: 'a::len word) \<Longrightarrow> unat (a - 1) = unat a - 1"
  by (cases "a = 0") (auto simp: unat_minus_one)

lemma sint_eq_unat_small: "unat (w :: u32) < 2 ^ 31 \<Longrightarrow> sint w = int (unat w)"
proof -
  assume small: "unat w < 2 ^ 31"
  have "int (unat w) < int (2 ^ 31)"
    using small by (simp only: of_nat_less_iff)
  then have "uint w < 2 ^ 31"
    by (simp add: of_nat_unat)
  moreover have "\<not> bit w 31"
    using bit_small [OF _ small, of 31] by auto
  ultimately show ?thesis
    by (simp add: sint_uint signed_take_bit_eq_if_positive bit_uint_iff take_bit_int_eq_self_iff)
qed

section \<open>Lists\<close>

lemma list_of_length_Suc: "length xs = Suc n \<longleftrightarrow> (\<exists>y ys. xs = y # ys \<and> length ys = n)"
  by (cases xs) auto

lemma take_append_exact [simp]: "length xs = n \<Longrightarrow> take n (xs @ ys) = xs"
  by simp

lemma drop_append_exact [simp]: "length xs = n \<Longrightarrow> drop n (xs @ ys) = ys"
  by simp

section \<open>Fixed-size wire formats\<close>

fun decode_many :: "(byte list \<Rightarrow> 'a option) \<Rightarrow> nat \<Rightarrow> nat \<Rightarrow> byte list \<Rightarrow> 'a list option" where
  "decode_many dec w 0 bs = Some []"
| "decode_many dec w (Suc n) bs =
     (case dec bs of None \<Rightarrow> None
      | Some x \<Rightarrow> map_option ((#) x) (decode_many dec w n (drop w bs)))"

locale wire_codec =
  fixes enc :: "'a \<Rightarrow> byte list"
    and dec :: "byte list \<Rightarrow> 'a option"
    and width :: nat
    and valid :: "'a \<Rightarrow> bool"
  assumes enc_width: "valid x \<Longrightarrow> length (enc x) = width"
    and dec_local: "width \<le> length bs \<Longrightarrow> dec bs = dec (take width bs)"
    and dec_short: "length bs < width \<Longrightarrow> dec bs = None"
    and dec_enc: "valid x \<Longrightarrow> dec (enc x) = Some x"
begin

lemma dec_enc_append: "valid x \<Longrightarrow> dec (enc x @ rest) = Some x"
  using dec_local [of "enc x @ rest"] by (simp add: enc_width dec_enc)

lemma enc_inj: "valid x \<Longrightarrow> valid y \<Longrightarrow> enc x = enc y \<Longrightarrow> x = y"
  using dec_enc by (metis option.inject)

lemma enc_prefix_free:
  assumes "valid x" and "valid y" and "enc x @ r = enc y @ r'"
  shows "x = y \<and> r = r'"
proof -
  from assms have "enc x = enc y" and "r = r'"
    by (auto simp: append_eq_append_conv enc_width)
  with assms(1,2) show ?thesis
    using enc_inj by blast
qed

lemma decode_many_enc:
  "list_all valid xs \<Longrightarrow> decode_many dec width (length xs) (concat (map enc xs) @ rest) = Some xs"
proof (induction xs)
  case Nil
  then show ?case by simp
next
  case (Cons x xs)
  then show ?case
    by (simp add: dec_enc_append enc_width)
qed

end

section \<open>Characters\<close>

text \<open>\<^verbatim>\<open>std::tolower\<close> in the default locale.\<close>

definition tolower :: "char \<Rightarrow> char" where
  "tolower c =
     (let n = of_char c :: nat in if 65 \<le> n \<and> n \<le> 90 then char_of (n + 32) else c)"

section \<open>Refinement of fallible operations\<close>

text \<open>
  \<open>op_refinement\<close> is the contract between a component's state and its specification: on states
  that satisfy the invariant every valid operation succeeds, keeps the invariant and does to
  the abstraction what the specification says. Its lemma extends this to sequences.
\<close>

primrec run_ops :: "('a \<Rightarrow> 's \<Rightarrow> 's option) \<Rightarrow> 'a list \<Rightarrow> 's \<Rightarrow> 's option" where
  "run_ops f [] s = Some s"
| "run_ops f (a # as) s = Option.bind (f a s) (run_ops f as)"

locale op_refinement =
  fixes step :: "'a \<Rightarrow> 's \<Rightarrow> 's option"
    and spec :: "'a \<Rightarrow> 't \<Rightarrow> 't"
    and abs :: "'s \<Rightarrow> 't"
    and invar :: "'s \<Rightarrow> bool"
    and valid :: "'a \<Rightarrow> bool"
  assumes step_refines:
    "invar s \<Longrightarrow> valid a \<Longrightarrow> \<exists>s'. step a s = Some s' \<and> invar s' \<and> abs s' = spec a (abs s)"
begin

lemma run_refines:
  assumes "invar s" and "list_all valid as"
  shows "\<exists>s'. run_ops step as s = Some s' \<and> invar s' \<and> abs s' = fold spec as (abs s)"
  using assms
proof (induction as arbitrary: s)
  case (Cons a as)
  then obtain s1 where "step a s = Some s1" "invar s1" "abs s1 = spec a (abs s)"
    using step_refines [of s a] by auto
  then show ?case
    using Cons.IH [of s1] Cons.prems(2) by simp
qed simp

end

end
