(* ===== verification/Region.thy ===== *)
theory Region
  imports Web_Prelude
begin

text \<open>
  The worker's memory pool and the per-session bump allocator
  (\<^verbatim>\<open>net/region_pool.hpp\<close>, \<^verbatim>\<open>net/region_pool.cpp\<close>, \<^verbatim>\<open>net/session_region.hpp\<close>,
  \<^verbatim>\<open>net/session_region.cpp\<close>). Addresses are offsets from the pool's base, \<^verbatim>\<open>size_t\<close> values
  are natural numbers with the wrap-around at \<open>2 ^ 64\<close> written out, and the mapped memory
  is part of the pool's state, so that a view is the text found at its address. The pool is
  the one a worker successfully mapped.

  The pool invariant counts, for every byte of the mapping, how many slots cover it; every
  operation keeps that count at most one over the free list and all regions lent out.
\<close>

section \<open>Memory\<close>

definition wrap64 :: "nat \<Rightarrow> nat" where
  "wrap64 n = n mod 2 ^ 64"

definition wrap32 :: "nat \<Rightarrow> nat" where
  "wrap32 n = n mod 2 ^ 32"

lemma wrap64_small [simp]: "n < 2 ^ 64 \<Longrightarrow> wrap64 n = n"
  by (simp add: wrap64_def)

lemma wrap32_small [simp]: "n < 2 ^ 32 \<Longrightarrow> wrap32 n = n"
  by (simp add: wrap32_def)

type_synonym mem = "nat \<Rightarrow> char"

definition mem_write :: "nat \<Rightarrow> string \<Rightarrow> mem \<Rightarrow> mem" where
  "mem_write a s m = (\<lambda>i. if a \<le> i \<and> i < a + length s then s ! (i - a) else m i)"

definition mem_read :: "mem \<Rightarrow> nat \<Rightarrow> nat \<Rightarrow> string" where
  "mem_read m a n = map m [a ..< a + n]"

lemma length_mem_read [simp]: "length (mem_read m a n) = n"
  by (simp add: mem_read_def)

lemma nth_mem_read: "i < n \<Longrightarrow> mem_read m a n ! i = m (a + i)"
  by (simp add: mem_read_def)

lemma mem_read_eqI: "(\<And>i. i < n \<Longrightarrow> m (a + i) = m' (b + i)) \<Longrightarrow> mem_read m a n = mem_read m' b n"
  by (rule nth_equalityI) (simp_all add: nth_mem_read)

lemma mem_read_write_same [simp]: "n = length s \<Longrightarrow> mem_read (mem_write a s m) a n = s"
  by (rule nth_equalityI) (simp_all add: nth_mem_read mem_write_def)

lemma mem_write_other: "i < a \<or> a + length s \<le> i \<Longrightarrow> mem_write a s m i = m i"
  by (auto simp: mem_write_def)

lemma mem_read_write_other:
  "b + n \<le> a \<or> a + length s \<le> b \<Longrightarrow> mem_read (mem_write a s m) b n = mem_read m b n"
  by (auto intro!: mem_read_eqI mem_write_other)

section \<open>RegionPool\<close>

definition kPoolSize :: nat where "kPoolSize = 256 * 1024 * 1024"
definition kMinRegion :: nat where "kMinRegion = 4096"

type_synonym FreeSlot = "nat \<times> nat"

record RegionPool =
  pool_mem :: mem
  bump_offset :: nat
  free_slots :: "FreeSlot list"

definition new_region_pool :: RegionPool where
  "new_region_pool = \<lparr> pool_mem = (\<lambda>_. CHR 0x00), bump_offset = 0, free_slots = [] \<rparr>"

definition region_need :: "nat \<Rightarrow> nat" where
  "region_need min_size =
     (let need = (wrap64 (min_size + kMinRegion - 1) div kMinRegion) * kMinRegion
      in if need < kMinRegion then kMinRegion else need)"

text \<open>
  First fit: the chosen slot and the list without it. \<open>bump_offset\<close> is not wrapped: one call
  advances it by at most \<open>kPoolSize\<close> (\<open>Acquire_bump\<close> below), so it takes more than
  \<open>2 ^ 35\<close> failed calls to reach \<open>2 ^ 64\<close>.
\<close>

fun first_fit :: "nat \<Rightarrow> FreeSlot list \<Rightarrow> (FreeSlot \<times> FreeSlot list) option" where
  "first_fit need [] = None"
| "first_fit need (slot # slots) =
     (if need \<le> snd slot then Some (slot, slots)
      else map_option (\<lambda>(r, rest). (r, slot # rest)) (first_fit need slots))"

definition Acquire :: "nat \<Rightarrow> RegionPool \<Rightarrow> (nat \<times> nat) \<times> RegionPool" where
  "Acquire min_size p =
     (let need = region_need min_size
      in case first_fit need (free_slots p) of
           Some (slot, rest) \<Rightarrow> (slot, p\<lparr> free_slots := rest \<rparr>)
         | None \<Rightarrow>
             let off = bump_offset p; p' = p\<lparr> bump_offset := off + need \<rparr>
             in if kPoolSize < bump_offset p' then ((0, 0), p') else ((off, need), p'))"

text \<open>
  The merge loop of \<open>Coalesce\<close>, in place over the sorted array with a write index
  \<open>wi\<close> and a read index \<open>ri\<close>; the final \<open>take\<close> is the \<^verbatim>\<open>resize\<close>.
\<close>

function merge_loop :: "nat \<Rightarrow> nat \<Rightarrow> FreeSlot list \<Rightarrow> FreeSlot list" where
  "merge_loop ri wi fs =
     (if ri < length fs
      then (let prev = fs ! wi; cur = fs ! ri
            in if wrap64 (fst prev + snd prev) = fst cur
               then merge_loop (Suc ri) wi (fs[wi := (fst prev, wrap64 (snd prev + snd cur))])
               else merge_loop (Suc ri) (Suc wi) (if Suc wi \<noteq> ri then fs[Suc wi := cur] else fs))
      else take (Suc wi) fs)"
  by pat_completeness auto
termination
  by (relation "measure (\<lambda>(ri, wi, fs). length fs - ri)") auto

declare merge_loop.simps [simp del]

definition Coalesce :: "RegionPool \<Rightarrow> RegionPool" where
  "Coalesce p =
     (if length (free_slots p) < 2 then p
      else p\<lparr> free_slots := merge_loop 1 0 (sort_key fst (free_slots p)) \<rparr>)"

definition Release :: "nat \<Rightarrow> nat \<Rightarrow> RegionPool \<Rightarrow> RegionPool" where
  "Release off sz p =
     (if sz = 0 then p else Coalesce (p\<lparr> free_slots := free_slots p @ [(off, sz)] \<rparr>))"

section \<open>SessionRegion\<close>

definition kInitSize :: nat where "kInitSize = 65536"
definition kAlign :: nat where "kAlign = 8"

record RegionOff =
  ro_off :: nat
  ro_len :: nat

definition no_off :: RegionOff where
  "no_off = \<lparr> ro_off = 0, ro_len = 0 \<rparr>"

definition IsValid :: "RegionOff \<Rightarrow> bool" where
  "IsValid r \<longleftrightarrow> 0 < ro_len r"

text \<open>\<open>sr_attached\<close> says that \<^verbatim>\<open>pool_\<close> is not null; a worker has a single pool.\<close>

record SessionRegion =
  sr_attached :: bool
  sr_offset :: nat
  sr_cap :: nat
  sr_used :: nat
  sr_structured :: bool

type_synonym region_state = "RegionPool \<times> SessionRegion"

definition new_session_region :: SessionRegion where
  "new_session_region = \<lparr> sr_attached = False, sr_offset = 0, sr_cap = 0, sr_used = 0,
     sr_structured = False \<rparr>"

definition destroy_region :: "region_state \<Rightarrow> RegionPool" where
  "destroy_region st =
     (case st of (p, r) \<Rightarrow>
        if sr_attached r \<and> sr_offset r \<noteq> 0 then Release (sr_offset r) (sr_cap r) p else p)"

definition InitRegion :: "bool \<Rightarrow> region_state \<Rightarrow> region_state" where
  "InitRegion has_pool st =
     (case st of (p, r) \<Rightarrow>
        if sr_attached r = has_pool \<and> sr_offset r \<noteq> 0 then (p, r\<lparr> sr_used := 0 \<rparr>)
        else
          let p1 = (if sr_attached r \<and> sr_offset r \<noteq> 0
                    then Release (sr_offset r) (sr_cap r) p else p);
              r1 = r\<lparr> sr_attached := has_pool \<rparr>
          in if \<not> has_pool then (p1, r1)
             else let ((off, cap), p2) = Acquire kInitSize p1
                  in (p2, r1\<lparr> sr_offset := off, sr_cap := cap, sr_used := 0 \<rparr>))"

definition ResetRegion :: "SessionRegion \<Rightarrow> SessionRegion" where
  "ResetRegion r = r\<lparr> sr_used := 0, sr_structured := False \<rparr>"

definition RegionData :: "SessionRegion \<Rightarrow> nat" where
  "RegionData r = sr_offset r"

definition Migrate :: "region_state \<Rightarrow> region_state" where
  "Migrate st =
     (case st of (p, r) \<Rightarrow>
        if \<not> sr_attached r then (p, r)
        else
          let new_cap = wrap64 (sr_cap r * 2);
              new_cap = (if kPoolSize < new_cap then kPoolSize else new_cap);
              ((new_off, new_cap_actual), p1) = Acquire new_cap p
          in if new_off = 0 then (p1, r)
             else
               let p2 = (if 0 < sr_used r
                         then p1\<lparr> pool_mem := mem_write new_off
                                    (mem_read (pool_mem p1) (sr_offset r) (sr_used r)) (pool_mem p1) \<rparr>
                         else p1);
                   p3 = Release (sr_offset r) (sr_cap r) p2
               in (p3, r\<lparr> sr_offset := new_off, sr_cap := new_cap_actual \<rparr>))"

text \<open>\<open>None\<close> is the null pointer; otherwise the address of the allocated bytes.\<close>

definition align8 :: "nat \<Rightarrow> nat" where
  "align8 n = wrap64 (n + kAlign - 1) div kAlign * kAlign"

definition Alloc :: "nat \<Rightarrow> region_state \<Rightarrow> nat option \<times> region_state" where
  "Alloc n st =
     (if n = 0 then (None, st)
      else
        let n = align8 n;
            (p, r) = (if sr_cap (snd st) < wrap64 (sr_used (snd st) + n) then Migrate st else st)
        in if sr_cap r < wrap64 (sr_used r + n) then (None, (p, r))
           else (Some (RegionData r + sr_used r), (p, r\<lparr> sr_used := wrap64 (sr_used r + n) \<rparr>)))"

text \<open>A \<^verbatim>\<open>string_view\<close> into the pool: address and length; \<open>None\<close> is the empty view.\<close>

definition Dup :: "string \<Rightarrow> region_state \<Rightarrow> (nat \<times> nat) option \<times> region_state" where
  "Dup s st =
     (if s = [] then (None, st)
      else case Alloc (length s) st of
             (None, st') \<Rightarrow> (None, st')
           | (Some a, (p, r)) \<Rightarrow>
               (Some (a, length s), (p\<lparr> pool_mem := mem_write a s (pool_mem p) \<rparr>, r)))"

definition DupOff :: "string \<Rightarrow> region_state \<Rightarrow> RegionOff \<times> region_state" where
  "DupOff s st =
     (case Dup s st of
        (None, st') \<Rightarrow> (no_off, st')
      | (Some (a, n), st') \<Rightarrow>
          (\<lparr> ro_off = wrap32 (a - RegionData (snd st')), ro_len = wrap32 n \<rparr>, st'))"

definition ToView :: "region_state \<Rightarrow> RegionOff \<Rightarrow> string" where
  "ToView st ro =
     (case st of (p, r) \<Rightarrow> mem_read (pool_mem p) (RegionData r + ro_off ro) (ro_len ro))"

definition WriteRegion :: "string \<Rightarrow> region_state \<Rightarrow> region_state" where
  "WriteRegion s st =
     (if s = [] then st
      else
        let n = length s;
            (p, r) = (if sr_cap (snd st) < wrap64 (sr_used (snd st) + n) then Migrate st else st)
        in if sr_cap r < wrap64 (sr_used r + n) then (p, r)
           else (p\<lparr> pool_mem := mem_write (RegionData r + sr_used r) s (pool_mem p) \<rparr>,
                 r\<lparr> sr_used := wrap64 (sr_used r + n) \<rparr>))"

definition WriteCRLF :: "region_state \<Rightarrow> region_state" where
  "WriteCRLF st = WriteRegion [CHR 0x0D, CHR 0x0A] st"

text \<open>
  \<open>WriteUint\<close> fills its buffer from the end with the decimal digits of \<open>n\<close>; the digits
  of a 64-bit number and the terminating zero fit into its 24 bytes.
\<close>

fun uint_digits :: "nat \<Rightarrow> string \<Rightarrow> string" where
  "uint_digits n acc =
     (if n = 0 then acc else uint_digits (n div 10) (char_of (48 + n mod 10) # acc))"

declare uint_digits.simps [simp del]

definition uint_text :: "nat \<Rightarrow> string" where
  "uint_text n = (if n = 0 then ''0'' else uint_digits n [])"

definition WriteUint :: "nat \<Rightarrow> region_state \<Rightarrow> region_state" where
  "WriteUint n st = WriteRegion (uint_text n) st"

definition IsActiveRegion :: "SessionRegion \<Rightarrow> bool" where
  "IsActiveRegion r \<longleftrightarrow> sr_attached r \<and> sr_offset r \<noteq> 0"

definition SetStructuredMode :: "bool \<Rightarrow> SessionRegion \<Rightarrow> SessionRegion" where
  "SetStructuredMode v r = r\<lparr> sr_structured := v \<rparr>"

section \<open>Slots cover each byte once\<close>

definition covers :: "nat \<Rightarrow> FreeSlot \<Rightarrow> bool" where
  "covers x slot \<longleftrightarrow> fst slot \<le> x \<and> x < fst slot + snd slot"

definition cover :: "nat \<Rightarrow> FreeSlot list \<Rightarrow> nat" where
  "cover x slots = length (filter (covers x) slots)"

lemma cover_simps [simp]:
  "cover x [] = 0"
  "cover x (slot # slots) = (if covers x slot then Suc (cover x slots) else cover x slots)"
  "cover x (xs @ ys) = cover x xs + cover x ys"
  by (simp_all add: cover_def)

lemma cover_mset: "mset xs = mset ys \<Longrightarrow> cover x xs = cover x ys"
  unfolding cover_def by (metis mset_filter size_mset)

lemma covers_pos: "slot \<in> set slots \<Longrightarrow> covers x slot \<Longrightarrow> 0 < cover x slots"
  by (auto simp: cover_def length_greater_0_conv filter_empty_conv)

lemma cover_posD: "0 < cover x slots \<Longrightarrow> \<exists>slot \<in> set slots. covers x slot"
  by (auto simp: cover_def filter_empty_conv)

text \<open>The reference for the merge loop.\<close>

fun merge_adjacent :: "FreeSlot \<Rightarrow> FreeSlot list \<Rightarrow> FreeSlot list" where
  "merge_adjacent prev [] = [prev]"
| "merge_adjacent prev (cur # slots) =
     (if wrap64 (fst prev + snd prev) = fst cur
      then merge_adjacent (fst prev, wrap64 (snd prev + snd cur)) slots
      else prev # merge_adjacent cur slots)"

lemma merge_loop_adjacent:
  "wi < ri \<Longrightarrow> ri \<le> length fs \<Longrightarrow>
     merge_loop ri wi fs = take wi fs @ merge_adjacent (fs ! wi) (drop ri fs)"
proof (induction ri wi fs rule: merge_loop.induct)
  case (1 ri wi fs)
  show ?case
  proof (cases "ri < length fs")
    case False
    then show ?thesis
      using "1.prems" by (subst merge_loop.simps) (simp add: take_Suc_conv_app_nth)
  next
    case True
    let ?prev = "fs ! wi" and ?cur = "fs ! ri"
    have d: "drop ri fs = ?cur # drop (Suc ri) fs"
      using True by (simp add: Cons_nth_drop_Suc)
    show ?thesis
    proof (cases "wrap64 (fst ?prev + snd ?prev) = fst ?cur")
      case eq: True
      then show ?thesis
        using "1.IH"(1) [OF True refl refl eq] "1.prems" True
        by (simp add: merge_loop.simps [of ri wi] Let_def d)
    next
      case neq: False
      then show ?thesis
        using "1.IH"(2) [OF True refl refl neq] "1.prems" True
        by (cases "Suc wi = ri")
          (auto simp: merge_loop.simps [of ri wi] Let_def d take_Suc_conv_app_nth)
    qed
  qed
qed

definition in_pool :: "FreeSlot \<Rightarrow> bool" where
  "in_pool slot \<longleftrightarrow> fst slot + snd slot \<le> kPoolSize"

lemma in_pool_wrap:
  "in_pool slot \<Longrightarrow> wrap64 (fst slot + snd slot) = fst slot + snd slot"
  by (simp add: in_pool_def kPoolSize_def)

lemma in_pool_merge:
  assumes "in_pool prev" and "in_pool cur" and "wrap64 (fst prev + snd prev) = fst cur"
  shows "in_pool (fst prev, wrap64 (snd prev + snd cur))"
    and "wrap64 (snd prev + snd cur) = snd prev + snd cur"
    and "covers x (fst prev, snd prev + snd cur) \<longleftrightarrow> covers x prev \<or> covers x cur"
    and "\<not> (covers x prev \<and> covers x cur)"
  using assms by (auto simp: in_pool_wrap, auto simp: in_pool_def kPoolSize_def covers_def)

lemma merge_adjacent_cover:
  "in_pool prev \<Longrightarrow> list_all in_pool slots \<Longrightarrow>
     cover x (merge_adjacent prev slots) = cover x (prev # slots)
     \<and> list_all in_pool (merge_adjacent prev slots)"
proof (induction prev slots rule: merge_adjacent.induct)
  case (2 prev cur slots)
  show ?case
  proof (cases "wrap64 (fst prev + snd prev) = fst cur")
    case True
    then show ?thesis
      using "2.IH"(1) [OF True] "2.prems" in_pool_merge [OF _ _ True] by auto
  next
    case False
    then show ?thesis
      using "2.IH"(2) [OF False] "2.prems" by auto
  qed
qed simp

lemma merge_adjacent_sorted:
  assumes "list_all in_pool (prev # slots)"
    and "sorted_wrt (\<lambda>a b. fst a + snd a \<le> fst b) (prev # slots)"
    and "\<forall>slot \<in> set (prev # slots). 0 < snd slot"
  shows "sorted_wrt (\<lambda>a b. fst a + snd a < fst b) (merge_adjacent prev slots)
    \<and> (\<forall>slot \<in> set (merge_adjacent prev slots). fst prev \<le> fst slot \<and> 0 < snd slot)"
  using assms
proof (induction prev slots rule: merge_adjacent.induct)
  case (2 prev cur slots)
  show ?case
  proof (cases "wrap64 (fst prev + snd prev) = fst cur")
    case True
    note merged = in_pool_merge [OF _ _ True]
    have "in_pool prev" "in_pool cur"
      using "2.prems" by simp_all
    then have eq: "fst prev + snd prev = fst cur"
      and sz: "wrap64 (snd prev + snd cur) = snd prev + snd cur"
      using True merged(2) by (simp_all add: in_pool_wrap)
    have sum: "fst prev + (snd prev + snd cur) = fst cur + snd cur"
      using eq by linarith
    have "sorted_wrt (\<lambda>a b. fst a + snd a \<le> fst b) ((fst prev, snd prev + snd cur) # slots)"
      using "2.prems"(2) by (simp add: sum)
    with "2.prems" show ?thesis
      using "2.IH"(1) [OF True] merged(1) True sz by simp
  next
    case False
    then have gap: "fst prev + snd prev < fst cur"
      using "2.prems" by (auto simp: in_pool_wrap)
    have IH: "sorted_wrt (\<lambda>a b. fst a + snd a < fst b) (merge_adjacent cur slots)"
      "\<forall>slot \<in> set (merge_adjacent cur slots). fst cur \<le> fst slot \<and> 0 < snd slot"
      using "2.IH"(2) [OF False] "2.prems" by simp_all
    then have "\<forall>slot \<in> set (merge_adjacent cur slots). fst prev + snd prev < fst slot"
      using gap by (auto intro: less_le_trans)
    then show ?thesis
      using IH "2.prems"(3) False by (auto intro: order_less_imp_le le_less_trans [OF le_add1])
  qed
qed simp

section \<open>The pool invariant\<close>

text \<open>
  \<open>lent\<close> lists the regions handed out and not returned. Free slots and lent regions lie in the
  part of the mapping that was carved off so far, and no byte belongs to two of them.
\<close>

definition pool_inv :: "RegionPool \<Rightarrow> FreeSlot list \<Rightarrow> bool" where
  "pool_inv p lent \<longleftrightarrow>
     (\<forall>slot \<in> set (free_slots p @ lent). in_pool slot \<and> fst slot + snd slot \<le> bump_offset p)
     \<and> (\<forall>slot \<in> set (free_slots p). 0 < snd slot)
     \<and> (\<forall>x. cover x (free_slots p @ lent) \<le> 1)"

lemma pool_inv_new: "pool_inv new_region_pool []"
  by (simp add: pool_inv_def new_region_pool_def)

lemma pool_inv_lent_mset: "pool_inv p lent \<Longrightarrow> mset lent' = mset lent \<Longrightarrow> pool_inv p lent'"
  using cover_mset [of lent' lent] mset_eq_setD [of lent' lent]
  by (simp add: pool_inv_def)

lemma pool_inv_drop: "pool_inv p (slot # lent) \<Longrightarrow> pool_inv p lent"
proof -
  assume inv: "pool_inv p (slot # lent)"
  have "cover x (free_slots p @ lent) \<le> cover x (free_slots p @ slot # lent)" for x
    by simp
  then have "cover x (free_slots p @ lent) \<le> 1" for x
    using inv unfolding pool_inv_def by (meson order_trans)
  with inv show ?thesis
    by (simp add: pool_inv_def)
qed

lemma pool_inv_bump:
  "pool_inv p lent \<Longrightarrow> bump_offset p \<le> b \<Longrightarrow> pool_inv (p\<lparr> bump_offset := b \<rparr>) lent"
  unfolding pool_inv_def by simp (meson order_trans)

lemma pool_inv_add:
  assumes "pool_inv p lent" and "in_pool slot" and "fst slot + snd slot \<le> bump_offset p"
    and "\<And>x. covers x slot \<Longrightarrow> cover x (free_slots p @ lent) = 0"
  shows "pool_inv p (slot # lent)"
  using assms by (simp add: pool_inv_def)

lemma pool_inv_mem [simp]: "pool_inv (p\<lparr> pool_mem := m \<rparr>) lent = pool_inv p lent"
  by (simp add: pool_inv_def)

lemma first_fit_Some:
  "first_fit need slots = Some (slot, rest) \<Longrightarrow>
     need \<le> snd slot \<and> mset slots = mset (slot # rest)"
  by (induction slots arbitrary: rest) (auto split: if_splits)

lemma first_fit_None: "first_fit need slots = None \<longleftrightarrow> (\<forall>slot \<in> set slots. snd slot < need)"
  by (induction slots) auto

lemma region_need_bounds:
  assumes "min_size \<le> kPoolSize"
  shows "min_size \<le> region_need min_size" "0 < region_need min_size" "region_need min_size \<le> kPoolSize"
proof -
  let ?n = "(min_size + 4096 - 1) div 4096 * 4096"
  have "wrap64 (min_size + 4096 - 1) = min_size + 4096 - 1"
    using assms by (simp add: kPoolSize_def)
  then have need: "region_need min_size = max 4096 ?n"
    unfolding region_need_def Let_def kMinRegion_def by (simp only: max_def not_less split: if_split) linarith
  have "min_size \<le> ?n"
    using div_mult_mod_eq [of "min_size + 4096 - 1" 4096]
      mod_less_divisor [of 4096 "min_size + 4096 - 1"] by linarith
  then show "min_size \<le> region_need min_size"
    unfolding need by (rule max.coboundedI2)
  show "0 < region_need min_size"
    unfolding need by linarith
  have "(min_size + 4096 - 1) div 4096 \<le> (kPoolSize + 4096 - 1) div 4096"
    using assms by (intro div_le_mono) simp
  moreover have "(kPoolSize + 4096 - 1) div 4096 = 65536"
    by (simp add: kPoolSize_def)
  ultimately have "?n \<le> 65536 * 4096"
    by (intro mult_le_mono1) (simp only:)
  then show "region_need min_size \<le> kPoolSize"
    unfolding need kPoolSize_def by linarith
qed

lemma Acquire_spec:
  assumes inv: "pool_inv p lent" and small: "min_size \<le> kPoolSize"
    and acq: "Acquire min_size p = ((off, cap), p')"
  shows "pool_mem p' = pool_mem p"
    and "cap = 0 \<Longrightarrow> off = 0 \<and> pool_inv p' lent"
    and "cap \<noteq> 0 \<Longrightarrow> min_size \<le> cap \<and> pool_inv p' ((off, cap) # lent)"
    and "bump_offset p' \<le> bump_offset p + kPoolSize"
proof -
  let ?need = "region_need min_size"
  note need = region_need_bounds [OF small]
  show "pool_mem p' = pool_mem p"
    using acq by (auto simp: Acquire_def Let_def split: option.splits if_splits)
  show "bump_offset p' \<le> bump_offset p + kPoolSize"
    using acq need by (auto simp: Acquire_def Let_def split: option.splits if_splits)
  have "(cap = 0 \<longrightarrow> off = 0 \<and> pool_inv p' lent)
    \<and> (cap \<noteq> 0 \<longrightarrow> min_size \<le> cap \<and> pool_inv p' ((off, cap) # lent))"
  proof (cases "first_fit ?need (free_slots p)")
    case (Some hit)
    then obtain slot rest where hit: "first_fit ?need (free_slots p) = Some (slot, rest)"
      by (cases hit) auto
    note ff = first_fit_Some [OF hit]
    have res: "slot = (off, cap)" "p' = p\<lparr> free_slots := rest \<rparr>"
      using acq hit by (auto simp: Acquire_def Let_def)
    have "set (free_slots p) = insert (off, cap) (set rest)"
      using ff res(1) by (metis mset_eq_setD list.simps(15))
    moreover have "cover x (free_slots p) = cover x ((off, cap) # rest)" for x
      using ff res(1) cover_mset by blast
    ultimately have "pool_inv p' ((off, cap) # lent)"
      using inv res(2) by (auto simp: pool_inv_def split: if_splits)
    then show ?thesis
      using ff res need by auto
  next
    case None
    have uncovered: "cover x (free_slots p @ lent) = 0" if "bump_offset p \<le> x" for x
    proof (rule ccontr)
      assume "cover x (free_slots p @ lent) \<noteq> 0"
      then obtain slot where "slot \<in> set (free_slots p @ lent)" "covers x slot"
        using cover_posD [of x "free_slots p @ lent"] by auto
      moreover from this(1) have "fst slot + snd slot \<le> bump_offset p"
        using inv unfolding pool_inv_def by blast
      ultimately show False
        using that by (simp add: covers_def)
    qed
    show ?thesis
    proof (cases "kPoolSize < bump_offset p + ?need")
      case True
      then show ?thesis
        using acq None inv by (auto simp: Acquire_def Let_def intro!: pool_inv_bump)
    next
      case False
      then have res: "off = bump_offset p" "cap = ?need" "p' = p\<lparr> bump_offset := off + ?need \<rparr>"
        using acq None by (auto simp: Acquire_def Let_def)
      have "pool_inv p' ((off, cap) # lent)"
      proof (rule pool_inv_add)
        show "pool_inv p' lent"
          using inv res by (simp add: pool_inv_bump)
        show "in_pool (off, cap)" "fst (off, cap) + snd (off, cap) \<le> bump_offset p'"
          using res False by (simp_all add: in_pool_def)
        fix x
        assume "covers x (off, cap)"
        then show "cover x (free_slots p' @ lent) = 0"
          using uncovered [of x] res by (simp add: covers_def)
      qed
      then show ?thesis
        using res need by simp
    qed
  qed
  then show "cap = 0 \<Longrightarrow> off = 0 \<and> pool_inv p' lent"
    and "cap \<noteq> 0 \<Longrightarrow> min_size \<le> cap \<and> pool_inv p' ((off, cap) # lent)"
    by blast+
qed

lemma Acquire_bump:
  "min_size \<le> kPoolSize \<Longrightarrow> bump_offset (snd (Acquire min_size p)) \<le> bump_offset p + kPoolSize"
  using region_need_bounds(3) [of min_size]
  by (auto simp: Acquire_def Let_def split: option.splits)

lemma disjoint_sorted:
  "sorted_wrt (\<lambda>a b. fst a \<le> fst b) gs \<Longrightarrow> \<forall>slot \<in> set gs. 0 < snd slot \<Longrightarrow>
     \<forall>x. cover x gs \<le> 1 \<Longrightarrow> sorted_wrt (\<lambda>a b. fst a + snd a \<le> fst b) gs"
proof (induction gs)
  case (Cons a gs)
  have "cover x gs \<le> 1" for x
    using spec [OF Cons.prems(3), of x] by (simp split: if_splits)
  moreover have "fst a + snd a \<le> fst b" if b: "b \<in> set gs" for b
  proof (rule ccontr)
    assume "\<not> fst a + snd a \<le> fst b"
    then have "covers (fst b) a" "covers (fst b) b"
      using Cons.prems(1,2) b by (auto simp: covers_def)
    then show False
      using covers_pos [OF b, of "fst b"] spec [OF Cons.prems(3), of "fst b"] by simp
  qed
  ultimately show ?case
    using Cons by simp
qed simp

lemma sort_key_disjoint_sorted:
  assumes "\<forall>slot \<in> set fs. 0 < snd slot" and "\<forall>x. cover x fs \<le> 1"
  shows "sorted_wrt (\<lambda>a b. fst a + snd a \<le> fst b) (sort_key fst fs)"
proof -
  let ?gs = "sort_key fst fs"
  have "sorted_wrt (\<lambda>a b. fst a \<le> fst b) ?gs"
    using sorted_sort_key [of fst fs] by (simp add: sorted_wrt_map)
  moreover have "\<forall>slot \<in> set ?gs. 0 < snd slot" and "\<forall>x. cover x ?gs \<le> 1"
    using assms cover_mset [of ?gs fs] by auto
  ultimately show ?thesis
    by (rule disjoint_sorted)
qed

lemma Coalesce_fields [simp]:
  "pool_mem (Coalesce p) = pool_mem p" "bump_offset (Coalesce p) = bump_offset p"
  by (simp_all add: Coalesce_def)

lemma merge_loop_sorted:
  assumes "2 \<le> length fs"
  shows "merge_loop 1 0 fs = merge_adjacent (hd fs) (tl fs)"
  using assms merge_loop_adjacent [of 0 1 fs] by (cases fs) auto

lemma Coalesce_free:
  assumes all: "list_all in_pool (free_slots p)" and pos: "\<forall>slot \<in> set (free_slots p). 0 < snd slot"
    and once: "\<forall>x. cover x (free_slots p) \<le> 1"
  shows "cover x (free_slots (Coalesce p)) = cover x (free_slots p)"
    and "list_all in_pool (free_slots (Coalesce p))"
    and "\<forall>slot \<in> set (free_slots (Coalesce p)). 0 < snd slot"
    and "sorted_wrt (\<lambda>a b. fst a + snd a < fst b) (free_slots (Coalesce p))"
proof -
  let ?fs = "free_slots p" and ?gs = "sort_key fst (free_slots p)"
  have "cover x (free_slots (Coalesce p)) = cover x (free_slots p)
    \<and> list_all in_pool (free_slots (Coalesce p))
    \<and> (\<forall>slot \<in> set (free_slots (Coalesce p)). 0 < snd slot)
    \<and> sorted_wrt (\<lambda>a b. fst a + snd a < fst b) (free_slots (Coalesce p))"
  proof (cases "length ?fs < 2")
    case True
    then have "?fs = [] \<or> (\<exists>s. ?fs = [s])"
      by (cases ?fs; cases "tl ?fs") auto
    then show ?thesis
      using assms by (auto simp: Coalesce_def)
  next
    case False
    then have "length ?gs \<noteq> 0"
      by (simp only: length_sort)
    then obtain a gs where gs: "?gs = a # gs"
      by (cases ?gs) auto
    have in_gs: "list_all in_pool ?gs" "\<forall>slot \<in> set ?gs. 0 < snd slot"
      using all pos by (auto simp: list_all_iff)
    have res: "free_slots (Coalesce p) = merge_adjacent a gs"
      using False merge_loop_sorted [of ?gs] length_sort [of fst ?fs] gs
      by (simp add: Coalesce_def not_less)
    have "cover x ?gs = cover x ?fs"
      by (rule cover_mset) simp
    moreover have "sorted_wrt (\<lambda>a b. fst a + snd a \<le> fst b) ?gs"
      using pos once by (rule sort_key_disjoint_sorted)
    ultimately show ?thesis
      using merge_adjacent_cover [of a gs x] merge_adjacent_sorted [of a gs] in_gs res
      unfolding gs by auto
  qed
  then show "cover x (free_slots (Coalesce p)) = cover x (free_slots p)"
    and "list_all in_pool (free_slots (Coalesce p))"
    and "\<forall>slot \<in> set (free_slots (Coalesce p)). 0 < snd slot"
    and "sorted_wrt (\<lambda>a b. fst a + snd a < fst b) (free_slots (Coalesce p))"
    by blast+
qed

lemma cover_end_bound:
  assumes "slot \<in> set slots" and "0 < snd slot"
    and "\<And>x. cover x slots = cover x slots'" and "\<forall>s \<in> set slots'. fst s + snd s \<le> b"
  shows "fst slot + snd slot \<le> b"
proof -
  let ?x = "fst slot + snd slot - 1"
  have "covers ?x slot"
    using assms(2) by (auto simp: covers_def)
  then have "0 < cover ?x slots'"
    using covers_pos [OF assms(1), of ?x] assms(3) by metis
  then obtain s where "s \<in> set slots'" "covers ?x s"
    using cover_posD by blast
  then show ?thesis
    using assms(2,4) by (fastforce simp: covers_def)
qed

lemma pool_inv_free:
  assumes "pool_inv p lent"
  shows "list_all in_pool (free_slots p)" and "\<forall>slot \<in> set (free_slots p). 0 < snd slot"
    and "\<forall>x. cover x (free_slots p) \<le> 1"
proof -
  have "cover x (free_slots p) \<le> cover x (free_slots p @ lent)" for x
    by simp
  then show "\<forall>x. cover x (free_slots p) \<le> 1"
    using assms unfolding pool_inv_def by (meson order_trans)
qed (use assms in \<open>simp_all add: pool_inv_def list_all_iff\<close>)

lemma Coalesce_inv: "pool_inv p lent \<Longrightarrow> pool_inv (Coalesce p) lent"
proof -
  assume inv: "pool_inv p lent"
  have ends: "\<forall>slot \<in> set (free_slots p). fst slot + snd slot \<le> bump_offset p"
    using inv by (simp add: pool_inv_def)
  note free = Coalesce_free [OF pool_inv_free [OF inv]]
  have "fst slot + snd slot \<le> bump_offset p" if "slot \<in> set (free_slots (Coalesce p))" for slot
    using cover_end_bound [OF that _ free(1) ends] bspec [OF free(3) that] by simp
  then show ?thesis
    using inv free by (auto simp: pool_inv_def list_all_iff)
qed

lemma Release_mem [simp]: "pool_mem (Release off sz p) = pool_mem p"
  by (simp add: Release_def)

lemma Release_spec:
  assumes "pool_inv p ((off, sz) # lent)"
  shows "pool_inv (Release off sz p) lent"
proof (cases "sz = 0")
  case True
  then show ?thesis
    using pool_inv_drop [OF assms] by (simp add: Release_def)
next
  case False
  have "pool_inv (p\<lparr> free_slots := free_slots p @ [(off, sz)] \<rparr>) lent"
    using assms False by (auto simp: pool_inv_def split: if_splits)
  then show ?thesis
    using False Coalesce_inv by (simp add: Release_def)
qed

section \<open>A session and its neighbours\<close>

text \<open>
  \<open>others\<close> are the regions of the worker's other sessions. \<open>region_keeps\<close> says what an
  operation of one session may do: bytes of other sessions are untouched and the bytes the
  session has already stored are found at the same offset from its region's start.
\<close>

definition region_inv :: "FreeSlot list \<Rightarrow> region_state \<Rightarrow> bool" where
  "region_inv others st \<longleftrightarrow>
     (case st of (p, r) \<Rightarrow>
        sr_attached r \<and> sr_used r \<le> sr_cap r
        \<and> pool_inv p ((sr_offset r, sr_cap r) # others))"

definition region_keeps :: "FreeSlot list \<Rightarrow> region_state \<Rightarrow> region_state \<Rightarrow> bool" where
  "region_keeps others st st' \<longleftrightarrow>
     (case (st, st') of ((p, r), (p', r')) \<Rightarrow>
        sr_used r \<le> sr_used r'
        \<and> (\<forall>i < sr_used r. pool_mem p' (sr_offset r' + i) = pool_mem p (sr_offset r + i))
        \<and> (\<forall>x. 0 < cover x others \<longrightarrow> pool_mem p' x = pool_mem p x))"

lemma region_keeps_refl: "region_keeps others st st"
  by (cases st) (simp add: region_keeps_def)

lemma region_keeps_trans:
  "region_keeps others s1 s2 \<Longrightarrow> region_keeps others s2 s3 \<Longrightarrow> region_keeps others s1 s3"
  by (cases s1; cases s2; cases s3) (auto simp: region_keeps_def)

lemma own_not_others:
  assumes "region_inv others (p, r)" and "sr_offset r \<le> x" and "x < sr_offset r + sr_cap r"
  shows "cover x others = 0"
proof -
  have "cover x (free_slots p @ (sr_offset r, sr_cap r) # others) \<le> 1"
    using assms(1) by (auto simp: region_inv_def pool_inv_def)
  then show ?thesis
    using assms(2,3) by (simp add: covers_def)
qed

lemma Migrate_spec:
  assumes inv: "region_inv others st"
  shows "region_inv others (Migrate st)" and "region_keeps others st (Migrate st)"
    and "sr_used (snd (Migrate st)) = sr_used (snd st)"
proof -
  obtain p r where st: "st = (p, r)"
    by (cases st)
  define want where "want = (let c = wrap64 (sr_cap r * 2) in if kPoolSize < c then kPoolSize else c)"
  obtain off cap p1 where acq: "Acquire want p = ((off, cap), p1)"
    by (metis prod.exhaust)
  have pinv: "pool_inv p ((sr_offset r, sr_cap r) # others)" and used: "sr_used r \<le> sr_cap r"
    and att: "sr_attached r" and capb: "sr_cap r \<le> kPoolSize"
    using inv st by (auto simp: region_inv_def pool_inv_def in_pool_def)
  have want: "want \<le> kPoolSize" "sr_cap r \<le> want"
    using capb by (auto simp: want_def Let_def kPoolSize_def)
  note spec = Acquire_spec [OF pinv want(1) acq]
  define p2 where "p2 = (if 0 < sr_used r then p1\<lparr> pool_mem := mem_write off
      (mem_read (pool_mem p1) (sr_offset r) (sr_used r)) (pool_mem p1) \<rparr> else p1)"
  have eq: "Migrate st = (if off = 0 then (p1, r)
      else (Release (sr_offset r) (sr_cap r) p2, r\<lparr> sr_offset := off, sr_cap := cap \<rparr>))"
    using att acq by (simp add: Migrate_def st want_def p2_def Let_def)
  show "sr_used (snd (Migrate st)) = sr_used (snd st)"
    unfolding eq by (simp add: st)
  have "region_inv others (Migrate st) \<and> region_keeps others st (Migrate st)"
  proof (cases "off = 0")
    case True
    have "pool_inv p1 ((sr_offset r, sr_cap r) # others)"
      using spec pool_inv_drop by (cases "cap = 0") blast+
    then show ?thesis
      using True eq spec(1) att used st by (simp add: region_inv_def region_keeps_def)
  next
    case False
    then have big: "want \<le> cap" and p1inv: "pool_inv p1 ((off, cap) # (sr_offset r, sr_cap r) # others)"
      using spec by auto
    have "pool_inv p2 ((sr_offset r, sr_cap r) # (off, cap) # others)"
      using pool_inv_lent_mset [OF p1inv] by (simp add: p2_def)
    then have "pool_inv (Release (sr_offset r) (sr_cap r) p2) ((off, cap) # others)"
      by (rule Release_spec)
    then have new: "region_inv others (Migrate st)"
      using False eq att used want big by (simp add: region_inv_def)
    have other: "pool_mem p2 x = pool_mem p x" if "0 < cover x others" for x
    proof -
      have "\<not> (off \<le> x \<and> x < off + sr_used r)"
        using own_not_others [of others "fst (Migrate st)" "snd (Migrate st)" x] new that False eq
          used want big by auto
      then show ?thesis
        using spec(1) by (auto simp: p2_def mem_write_def)
    qed
    have "pool_mem p2 (off + i) = pool_mem p (sr_offset r + i)" if "i < sr_used r" for i
      using that spec(1) by (auto simp: p2_def mem_write_def nth_mem_read)
    then show ?thesis
      using new other False eq by (simp add: region_keeps_def st)
  qed
  then show "region_inv others (Migrate st)" and "region_keeps others st (Migrate st)"
    by blast+
qed

lemma align8_spec:
  assumes "n < 2 ^ 63"
  shows "n \<le> align8 n" "align8 n < n + 8"
proof -
  have "wrap64 (n + 8 - 1) = n + 8 - 1"
    using assms by simp
  then have "align8 n = (n + 8 - 1) div 8 * 8"
    unfolding align8_def kAlign_def by simp
  then show "n \<le> align8 n" "align8 n < n + 8"
    using div_mult_mod_eq [of "n + 8 - 1" 8] mod_less_divisor [of 8 "n + 8 - 1"] by linarith+
qed

lemma region_inv_bounds:
  "region_inv others (p, r) \<Longrightarrow> sr_offset r + sr_cap r \<le> kPoolSize \<and> sr_used r \<le> sr_cap r"
  by (auto simp: region_inv_def pool_inv_def in_pool_def)

lemma Alloc_spec:
  assumes inv: "region_inv others st" and n: "0 < n" "n < 2 ^ 63"
    and alloc: "Alloc n st = (a, st')"
  shows "region_inv others st'" and "region_keeps others st st'"
    and "a = None \<Longrightarrow> sr_used (snd st') = sr_used (snd st)"
    and "a = Some addr \<Longrightarrow> addr = sr_offset (snd st') + sr_used (snd st)
           \<and> sr_used (snd st') = sr_used (snd st) + align8 n"
proof -
  define st1 where
    "st1 = (if sr_cap (snd st) < wrap64 (sr_used (snd st) + align8 n) then Migrate st else st)"
  obtain p r where st1: "st1 = (p, r)"
    by (cases st1)
  have inv1: "region_inv others (p, r)" and keeps1: "region_keeps others st (p, r)"
    and used1: "sr_used r = sr_used (snd st)"
    using Migrate_spec [OF inv] inv region_keeps_refl st1
    unfolding st1_def by (auto split: if_splits)
  note al = align8_spec [OF n(2)]
  have nowrap: "wrap64 (sr_used r + align8 n) = sr_used r + align8 n"
    using region_inv_bounds [OF inv1] al n(2) by (intro wrap64_small) (simp add: kPoolSize_def)
  have res: "(a, st') = (if sr_cap r < sr_used r + align8 n then (None, (p, r))
     else (Some (sr_offset r + sr_used r), (p, r\<lparr> sr_used := sr_used r + align8 n \<rparr>)))"
    using alloc n(1) st1
    by (simp add: Alloc_def Let_def st1_def [symmetric] RegionData_def nowrap split: if_splits)
  show "region_inv others st'"
    using res inv1 by (auto simp: region_inv_def split: if_splits)
  show "region_keeps others st st'"
    using res keeps1 by (cases st) (auto simp: region_keeps_def split: if_splits)
  show "a = None \<Longrightarrow> sr_used (snd st') = sr_used (snd st)"
    using res used1 by (auto split: if_splits)
  show "a = Some addr \<Longrightarrow> addr = sr_offset (snd st') + sr_used (snd st)
           \<and> sr_used (snd st') = sr_used (snd st) + align8 n"
    using res used1 by (auto split: if_splits)
qed

lemma region_store_spec:
  assumes inv: "region_inv others (p, r)" and keeps: "region_keeps others st (p, r)"
    and low: "sr_used (snd st) \<le> i" and high: "i + length s \<le> sr_cap r"
  shows "region_inv others (p\<lparr> pool_mem := mem_write (sr_offset r + i) s (pool_mem p) \<rparr>, r)"
    and "region_keeps others st (p\<lparr> pool_mem := mem_write (sr_offset r + i) s (pool_mem p) \<rparr>, r)"
proof -
  show "region_inv others (p\<lparr> pool_mem := mem_write (sr_offset r + i) s (pool_mem p) \<rparr>, r)"
    using inv by (simp add: region_inv_def)
  have "mem_write (sr_offset r + i) s (pool_mem p) x = pool_mem p x" if "0 < cover x others" for x
    using own_not_others [OF inv, of x] that high by (auto simp: mem_write_def)
  then show "region_keeps others st (p\<lparr> pool_mem := mem_write (sr_offset r + i) s (pool_mem p) \<rparr>, r)"
    using keeps low by (cases st) (auto simp: region_keeps_def mem_write_def)
qed

lemma Dup_spec:
  assumes inv: "region_inv others st" and len: "length s < 2 ^ 63"
    and dup: "Dup s st = (v, st')"
  shows "region_inv others st'" and "region_keeps others st st'"
    and "v = Some (a, n) \<Longrightarrow> n = length s \<and> mem_read (pool_mem (fst st')) a n = s
           \<and> sr_offset (snd st') + sr_used (snd st) = a
           \<and> sr_used (snd st) + n \<le> sr_used (snd st')"
proof -
  have "region_inv others st' \<and> region_keeps others st st'
    \<and> (v = Some (a, n) \<longrightarrow> n = length s \<and> mem_read (pool_mem (fst st')) a n = s
           \<and> sr_offset (snd st') + sr_used (snd st) = a
           \<and> sr_used (snd st) + n \<le> sr_used (snd st'))"
  proof (cases "s = []")
    case True
    then show ?thesis
      using dup inv region_keeps_refl by (auto simp: Dup_def)
  next
    case False
    obtain b st1 where alloc: "Alloc (length s) st = (b, st1)"
      by (cases "Alloc (length s) st")
    obtain p r where st1: "st1 = (p, r)"
      by (cases st1)
    note spec = Alloc_spec [OF inv _ len alloc]
    show ?thesis
    proof (cases b)
      case None
      then show ?thesis
        using dup False alloc st1 spec by (auto simp: Dup_def)
    next
      case (Some addr)
      have at: "addr = sr_offset r + sr_used (snd st)"
        and used: "sr_used r = sr_used (snd st) + align8 (length s)"
        using spec(4) [OF _ Some] False st1 by auto
      have "sr_used (snd st) + length s \<le> sr_cap r"
        using region_inv_bounds [of others p r] spec(1) st1 used align8_spec(1) [OF len] False by auto
      then show ?thesis
        using region_store_spec [of others p r st "sr_used (snd st)" s] spec(1,2) dup False alloc
          st1 Some at used align8_spec(1) [OF len]
        by (auto simp: Dup_def)
    qed
  qed
  then show "region_inv others st'" and "region_keeps others st st'"
    and "v = Some (a, n) \<Longrightarrow> n = length s \<and> mem_read (pool_mem (fst st')) a n = s
           \<and> sr_offset (snd st') + sr_used (snd st) = a
           \<and> sr_used (snd st) + n \<le> sr_used (snd st')"
    by blast+
qed

lemma WriteRegion_spec:
  assumes inv: "region_inv others st" and len: "length s < 2 ^ 63"
  shows "region_inv others (WriteRegion s st)" and "region_keeps others st (WriteRegion s st)"
    and "sr_used (snd (WriteRegion s st)) = sr_used (snd st)
      \<or> sr_used (snd (WriteRegion s st)) = sr_used (snd st) + length s
        \<and> mem_read (pool_mem (fst (WriteRegion s st)))
            (sr_offset (snd (WriteRegion s st)) + sr_used (snd st)) (length s) = s"
proof -
  define st1 where
    "st1 = (if sr_cap (snd st) < wrap64 (sr_used (snd st) + length s) then Migrate st else st)"
  obtain p r where st1: "st1 = (p, r)"
    by (cases st1)
  have inv1: "region_inv others (p, r)" and keeps1: "region_keeps others st (p, r)"
    and used1: "sr_used r = sr_used (snd st)"
    using Migrate_spec [OF inv] inv region_keeps_refl st1
    unfolding st1_def by (auto split: if_splits)
  have nowrap: "wrap64 (sr_used r + length s) = sr_used r + length s"
    using region_inv_bounds [OF inv1] len by (intro wrap64_small) (simp add: kPoolSize_def)
  define m where "m = mem_write (sr_offset r + sr_used r) s (pool_mem p)"
  have res: "WriteRegion s st = (if s = [] then st
     else if sr_cap r < sr_used r + length s then (p, r)
     else (p\<lparr> pool_mem := m \<rparr>, r\<lparr> sr_used := sr_used r + length s \<rparr>))"
    using st1 by (simp add: WriteRegion_def Let_def st1_def [symmetric] RegionData_def nowrap m_def)
  have store: "region_inv others (p\<lparr> pool_mem := m \<rparr>, r)"
      "region_keeps others st (p\<lparr> pool_mem := m \<rparr>, r)"
    if "sr_used r + length s \<le> sr_cap r"
    using region_store_spec [OF inv1 keeps1, of "sr_used r" s] used1 that by (simp_all add: m_def)
  show "region_inv others (WriteRegion s st)"
    using res inv inv1 store(1) by (auto simp: region_inv_def)
  show "region_keeps others st (WriteRegion s st)"
    using res keeps1 store(2) region_keeps_refl [of others st]
    by (cases st) (auto simp: region_keeps_def)
  show "sr_used (snd (WriteRegion s st)) = sr_used (snd st)
      \<or> sr_used (snd (WriteRegion s st)) = sr_used (snd st) + length s
        \<and> mem_read (pool_mem (fst (WriteRegion s st)))
            (sr_offset (snd (WriteRegion s st)) + sr_used (snd st)) (length s) = s"
    using res used1 by (auto simp: m_def)
qed

section \<open>The string store sessions rely on\<close>

text \<open>
  What the request parsers use of a region: text is copied in and referred to by a reference;
  a reference that was issued keeps denoting the same text, whatever is stored later. A store
  that is out of memory answers with a reference to the empty text.
\<close>

locale string_store =
  fixes inv :: "'s \<Rightarrow> bool"
    and issued :: "'s \<Rightarrow> 'r \<Rightarrow> bool"
    and dup :: "string \<Rightarrow> 's \<Rightarrow> 'r \<times> 's"
    and view :: "'s \<Rightarrow> 'r \<Rightarrow> string"
  assumes dup_inv: "inv s \<Longrightarrow> length x < 2 ^ 63 \<Longrightarrow> dup x s = (r, s') \<Longrightarrow> inv s'"
    and dup_issued: "inv s \<Longrightarrow> length x < 2 ^ 63 \<Longrightarrow> dup x s = (r, s') \<Longrightarrow> issued s' r"
    and dup_view: "inv s \<Longrightarrow> length x < 2 ^ 63 \<Longrightarrow> dup x s = (r, s') \<Longrightarrow>
      view s' r = x \<or> view s' r = []"
    and dup_keeps: "inv s \<Longrightarrow> length x < 2 ^ 63 \<Longrightarrow> dup x s = (r, s') \<Longrightarrow> issued s r0 \<Longrightarrow>
      issued s' r0 \<and> view s' r0 = view s r0"
begin

primrec dup_all :: "string list \<Rightarrow> 's \<Rightarrow> 'r list \<times> 's" where
  "dup_all [] s = ([], s)"
| "dup_all (x # xs) s = (let (r, s1) = dup x s; (rs, s2) = dup_all xs s1 in (r # rs, s2))"

lemma dup_all_spec:
  assumes "inv s" and "\<forall>x \<in> set xs. length x < 2 ^ 63" and "dup_all xs s = (rs, s')"
  shows "inv s' \<and> list_all2 (\<lambda>r x. issued s' r \<and> (view s' r = x \<or> view s' r = [])) rs xs
    \<and> (\<forall>r0. issued s r0 \<longrightarrow> issued s' r0 \<and> view s' r0 = view s r0)"
  using assms
proof (induction xs arbitrary: s rs s')
  case Nil
  then show ?case by simp
next
  case (Cons x xs)
  obtain r s1 where d: "dup x s = (r, s1)"
    by (cases "dup x s")
  obtain rs1 s2 where ds: "dup_all xs s1 = (rs1, s2)"
    by (cases "dup_all xs s1")
  have eq: "rs = r # rs1" "s' = s2"
    using Cons.prems(3) d ds by auto
  have len: "length x < 2 ^ 63"
    using Cons.prems(2) by simp
  note one = dup_inv [OF Cons.prems(1) len d] dup_issued [OF Cons.prems(1) len d]
    dup_view [OF Cons.prems(1) len d] dup_keeps [OF Cons.prems(1) len d]
  have "inv s2 \<and> list_all2 (\<lambda>r x. issued s2 r \<and> (view s2 r = x \<or> view s2 r = [])) rs1 xs
    \<and> (\<forall>r0. issued s1 r0 \<longrightarrow> issued s2 r0 \<and> view s2 r0 = view s1 r0)"
    using Cons.IH [OF one(1) _ ds] Cons.prems(2) by simp
  then show ?case
    using one eq by auto
qed

end

definition issued_off :: "region_state \<Rightarrow> RegionOff \<Rightarrow> bool" where
  "issued_off st ro \<longleftrightarrow> ro_off ro + ro_len ro \<le> sr_used (snd st)"

lemma ToView_keeps:
  assumes "region_keeps others st st'" and "issued_off st ro"
  shows "issued_off st' ro \<and> ToView st' ro = ToView st ro"
  using assms
  by (cases st; cases st')
    (auto simp: region_keeps_def issued_off_def ToView_def RegionData_def add.assoc
       intro!: mem_read_eqI)

lemma DupOff_spec:
  assumes inv: "region_inv others st" and len: "length s < 2 ^ 63"
    and dup: "DupOff s st = (ro, st')"
  shows "region_inv others st'" and "region_keeps others st st'" and "issued_off st' ro"
    and "ToView st' ro = s \<or> ro = no_off"
proof -
  obtain v where d: "Dup s st = (v, st')"
    using dup by (auto simp: DupOff_def split: prod.splits option.splits)
  note spec = Dup_spec [OF inv len d]
  show inv': "region_inv others st'" and "region_keeps others st st'"
    using spec by blast+
  have "issued_off st' ro \<and> (ToView st' ro = s \<or> ro = no_off)"
  proof (cases v)
    case None
    then show ?thesis
      using dup d by (auto simp: DupOff_def no_off_def issued_off_def)
  next
    case (Some an)
    then obtain a n where v: "v = Some (a, n)"
      by (cases an) auto
    obtain p r where st': "st' = (p, r)"
      by (cases st')
    have "sr_used r < 2 ^ 32"
      using region_inv_bounds [of others p r] inv' st' by (simp add: kPoolSize_def)
    then have "ro = \<lparr> ro_off = sr_used (snd st), ro_len = n \<rparr>"
      using dup d v spec(3) [OF v] st' by (auto simp: DupOff_def RegionData_def)
    then show ?thesis
      using spec(3) [OF v] st' by (auto simp: ToView_def RegionData_def issued_off_def)
  qed
  then show "issued_off st' ro" and "ToView st' ro = s \<or> ro = no_off"
    by blast+
qed

lemma ToView_no_off [simp]: "ToView st no_off = []"
  by (cases st) (simp add: ToView_def no_off_def mem_read_def)

interpretation region_store: string_store "region_inv others" issued_off DupOff ToView
proof
  fix s x r s'
  assume a: "region_inv others s" "length x < 2 ^ 63" "DupOff x s = (r, s')"
  note spec = DupOff_spec [OF a]
  show "region_inv others s'" "issued_off s' r" "ToView s' r = x \<or> ToView s' r = []"
    using spec by auto
  show "issued_off s' r0 \<and> ToView s' r0 = ToView s r0" if "issued_off s r0" for r0
    using ToView_keeps [OF spec(2) that] .
qed

section \<open>Decimal text\<close>

definition digits_value :: "string \<Rightarrow> nat" where
  "digits_value s = foldl (\<lambda>v c. v * 10 + (of_char c - 48)) 0 s"

lemma uint_digits_value:
  "foldl (\<lambda>v c. v * 10 + (of_char c - 48)) 0 (uint_digits n acc) =
     foldl (\<lambda>v c. v * 10 + (of_char c - 48)) n acc"
proof (induction n acc rule: uint_digits.induct)
  case (1 n acc)
  show ?case
  proof (cases "n = 0")
    case False
    have "of_char (char_of (48 + n mod 10) :: char) = 48 + n mod 10"
      by (simp add: take_bit_nat_eq_self_iff less_le_trans [of _ 10])
    then show ?thesis
      using "1.IH" [OF False] False by (subst uint_digits.simps) simp
  qed (simp add: uint_digits.simps)
qed

lemma uint_text_value: "digits_value (uint_text n) = n"
  by (simp add: digits_value_def uint_text_def uint_digits_value)

lemma uint_digits_length: "n < 10 ^ k \<Longrightarrow> length (uint_digits n acc) \<le> k + length acc"
proof (induction k arbitrary: n acc)
  case 0
  then show ?case by (simp add: uint_digits.simps)
next
  case (Suc k)
  then have "n div 10 < 10 ^ k"
    by (simp add: div_less_iff_less_mult)
  then have "length (uint_digits (n div 10) (char_of (48 + n mod 10) # acc)) \<le> k + Suc (length acc)"
    using Suc.IH [of "n div 10" "char_of (48 + n mod 10) # acc"] by simp
  then show ?case
    by (subst uint_digits.simps) simp
qed

lemma uint_text_length: "n < 2 ^ 64 \<Longrightarrow> length (uint_text n) \<le> 20"
  using uint_digits_length [of n 20 "[]"] by (simp add: uint_text_def)

section \<open>Properties\<close>

text \<open>
  What the sessions of a worker do to its pool: attach a fresh session, detach one, or store
  text in one. The list holds the sessions' regions with a session's own region first in the
  step that uses it.
\<close>

inductive pool_reach :: "RegionPool \<Rightarrow> SessionRegion list \<Rightarrow> bool" where
  start: "pool_reach new_region_pool []"
| attach: "pool_reach p rs \<Longrightarrow> InitRegion True (p, new_session_region) = (p', r) \<Longrightarrow>
     pool_reach p' (r # rs)"
| detach: "pool_reach p (r # rs) \<Longrightarrow> pool_reach (destroy_region (p, r)) rs"
| store: "pool_reach p (r # rs) \<Longrightarrow> length s < 2 ^ 63 \<Longrightarrow> Dup s (p, r) = (v, (p', r')) \<Longrightarrow>
     pool_reach p' (r' # rs)"
| emit: "pool_reach p (r # rs) \<Longrightarrow> length s < 2 ^ 63 \<Longrightarrow> WriteRegion s (p, r) = (p', r') \<Longrightarrow>
     pool_reach p' (r' # rs)"
| reset: "pool_reach p (r # rs) \<Longrightarrow> pool_reach p (ResetRegion r # rs)"
| switch: "pool_reach p rs \<Longrightarrow> mset rs' = mset rs \<Longrightarrow> pool_reach p rs'"

definition region_slot :: "SessionRegion \<Rightarrow> FreeSlot" where
  "region_slot r = (sr_offset r, sr_cap r)"

lemma pool_reach_inv:
  "pool_reach p rs \<Longrightarrow>
     pool_inv p (map region_slot rs) \<and> (\<forall>r \<in> set rs. sr_attached r \<and> sr_used r \<le> sr_cap r)"
proof (induction rule: pool_reach.induct)
  case start
  then show ?case by (simp add: pool_inv_new)
next
  case (attach p rs p' r)
  obtain off cap where acq: "Acquire kInitSize p = ((off, cap), p')"
    and r: "r = \<lparr> sr_attached = True, sr_offset = off, sr_cap = cap, sr_used = 0, sr_structured = False \<rparr>"
    using attach.hyps by (auto simp: InitRegion_def new_session_region_def Let_def split: prod.splits)
  have "kInitSize \<le> kPoolSize"
    by (simp add: kInitSize_def kPoolSize_def)
  note spec = Acquire_spec [OF conjunct1 [OF attach.IH] this acq]
  have "pool_inv p' ((off, cap) # map region_slot rs)"
  proof (cases "cap = 0")
    case True
    then show ?thesis
      using spec(2) by (auto intro!: pool_inv_add simp: in_pool_def covers_def)
  qed (use spec(3) in blast)
  moreover have "region_slot r = (off, cap)"
    using r by (simp add: region_slot_def)
  ultimately show ?case
    using attach.IH r by simp
next
  case (detach p r rs)
  then have "pool_inv p ((sr_offset r, sr_cap r) # map region_slot rs)"
    by (simp add: region_slot_def [of r])
  then show ?case
    using detach.IH Release_spec pool_inv_drop by (auto simp: destroy_region_def)
next
  case (store p r rs s v p' r')
  then have "region_inv (map region_slot rs) (p, r)"
    by (simp add: region_inv_def region_slot_def [of r])
  from Dup_spec(1) [OF this store.hyps(2,3)] store.IH show ?case
    by (simp add: region_inv_def region_slot_def [of r'])
next
  case (emit p r rs s p' r')
  then have "region_inv (map region_slot rs) (p, r)"
    by (simp add: region_inv_def region_slot_def [of r])
  from WriteRegion_spec(1) [OF this emit.hyps(2)] emit.hyps(3) emit.IH show ?case
    by (simp add: region_inv_def region_slot_def [of r'])
next
  case (reset p r rs)
  then show ?case
    by (simp add: ResetRegion_def region_slot_def [of r] region_slot_def [of "r\<lparr>sr_used := 0, sr_structured := False\<rparr>"])
next
  case (switch p rs rs')
  have "mset (map region_slot rs') = mset (map region_slot rs)"
    using switch.hyps(2) by simp
  moreover have "set rs' = set rs"
    using switch.hyps(2) by (rule mset_eq_setD)
  ultimately show ?case
    using switch.IH pool_inv_lent_mset by metis
qed


text \<open>A worker with two sessions: the second one gets the region at offset \<open>65536\<close>.\<close>

definition two_sessions :: "RegionPool \<times> SessionRegion list" where
  "two_sessions =
     (let (p, r1) = InitRegion True (new_region_pool, new_session_region);
          (p, r2) = InitRegion True (p, new_session_region)
      in (p, [r2, r1]))"

lemma two_sessions_eq:
  "two_sessions =
     (\<lparr> pool_mem = (\<lambda>_. CHR 0x00), bump_offset = 131072, free_slots = [] \<rparr>,
      [\<lparr> sr_attached = True, sr_offset = 65536, sr_cap = 65536, sr_used = 0, sr_structured = False \<rparr>,
       \<lparr> sr_attached = True, sr_offset = 0, sr_cap = 65536, sr_used = 0, sr_structured = False \<rparr>])"
  by (simp add: two_sessions_def InitRegion_def new_region_pool_def new_session_region_def
      Acquire_def region_need_def kInitSize_def kMinRegion_def kPoolSize_def Let_def)

lemma two_sessions_reach: "pool_reach (fst two_sessions) (snd two_sessions)"
  unfolding two_sessions_def
  by (auto intro!: pool_reach.start pool_reach.attach split: prod.splits)


text \<open>Releasing a region leaves a free list in address order whose slots are maximal: no
  two of them touch, and they cover exactly the bytes that were free before or released.\<close>

theorem release_coalesces:
  assumes "pool_reach p (r # rs)" and "sr_offset r \<noteq> 0" and "0 < sr_cap r"
  shows "sorted_wrt (\<lambda>a b. fst a + snd a < fst b) (free_slots (destroy_region (p, r)))
    \<and> cover x (free_slots (destroy_region (p, r))) = cover x (free_slots p @ [region_slot r])"
proof -
  let ?p = "p\<lparr> free_slots := free_slots p @ [region_slot r] \<rparr>"
  have reach: "pool_inv p (region_slot r # map region_slot rs)" "sr_attached r"
    using pool_reach_inv [OF assms(1)] by simp_all
  then have "pool_inv ?p (map region_slot rs)"
    using assms(3) by (auto simp: pool_inv_def region_slot_def split: if_splits)
  from Coalesce_free [OF pool_inv_free [OF this]] show ?thesis
    using assms(2,3) reach(2) by (simp add: destroy_region_def Release_def region_slot_def)
qed

text \<open>Text stored in a session's region is found through its reference however many texts
  are stored after it and however often the region moves to a larger block, and the bytes of
  every other session of the worker stay as they were.\<close>

theorem stored_text_survives:
  assumes "region_inv others st" and "\<forall>s \<in> set (t # ts). length s < 2 ^ 63"
    and "DupOff t st = (ro, st1)" and "region_store.dup_all ts st1 = (ros, st2)" and "ro \<noteq> no_off"
  shows "ToView st2 ro = t"
proof -
  have len: "length t < 2 ^ 63" "\<forall>s \<in> set ts. length s < 2 ^ 63"
    using assms(2) by simp_all
  note spec = DupOff_spec [OF assms(1) len(1) assms(3)]
  from region_store.dup_all_spec [OF spec(1) len(2) assms(4)] spec(3) have "ToView st2 ro = ToView st1 ro"
    by blast
  with spec(4) assms(5) show ?thesis
    by simp
qed

theorem release_coalesces_witness:
  "cover 70000 (free_slots (destroy_region (fst two_sessions, hd (snd two_sessions)))) = 1"
  using release_coalesces [of "fst two_sessions" "hd (snd two_sessions)" "tl (snd two_sessions)" 70000]
    two_sessions_reach
  by (simp add: two_sessions_eq region_slot_def covers_def)

theorem stored_text_survives_witness:
  "\<exists>ro st1 ros st2. DupOff ''GET'' (fst two_sessions, hd (snd two_sessions)) = (ro, st1)
     \<and> region_store.dup_all [''/index'', ''host''] st1 = (ros, st2) \<and> ToView st2 ro = ''GET''"
proof -
  let ?st = "(fst two_sessions, hd (snd two_sessions))"
  obtain ro st1 where d: "DupOff ''GET'' ?st = (ro, st1)"
    by (cases "DupOff ''GET'' ?st")
  obtain ros st2 where ds: "region_store.dup_all [''/index'', ''host''] st1 = (ros, st2)"
    by (cases "region_store.dup_all [''/index'', ''host''] st1")
  have inv: "region_inv (map region_slot (tl (snd two_sessions))) ?st"
    using pool_reach_inv [OF two_sessions_reach] by (simp add: two_sessions_eq region_inv_def region_slot_def)
  have "ro \<noteq> no_off"
    using d by (auto simp: two_sessions_eq DupOff_def Dup_def Alloc_def align8_def kAlign_def
        RegionData_def no_off_def Let_def)
  then have "ToView st2 ro = ''GET''"
    using stored_text_survives [OF inv _ d ds] by simp
  with d ds show ?thesis
    by blast
qed

text \<open>The first session of a worker gets the region at offset \<open>0\<close>, which the code uses as
  its mark for "no region": the session never counts as active and its region is not given back
  when it ends, so that the block is lost for the worker's lifetime.\<close>

theorem first_region_lost:
  "\<not> IsActiveRegion (snd (InitRegion True (new_region_pool, new_session_region)))
   \<and> free_slots (destroy_region (InitRegion True (new_region_pool, new_session_region))) = []
   \<and> bump_offset (destroy_region (InitRegion True (new_region_pool, new_session_region))) = kInitSize"
  by (simp add: InitRegion_def new_region_pool_def new_session_region_def Acquire_def region_need_def
      kInitSize_def kMinRegion_def kPoolSize_def Let_def IsActiveRegion_def destroy_region_def)

text \<open>A request for more than \<open>2 ^ 64 - 8\<close> bytes wraps to an allocation of no bytes:
  \<open>Alloc\<close> answers with a non-null pointer and reserves nothing.\<close>

theorem alloc_wraps:
  assumes "region_inv others st" and "2 ^ 64 - 8 < n" and "n < 2 ^ 64"
  shows "\<exists>a. Alloc n st = (Some a, st)"
proof -
  obtain p r where st: "st = (p, r)"
    by (cases st)
  have "n + kAlign - 1 = (n + 7 - 2 ^ 64) + 2 ^ 64"
    using assms(2) by (simp add: kAlign_def)
  then have "wrap64 (n + kAlign - 1) = n + 7 - 2 ^ 64"
    using assms(3) unfolding wrap64_def by simp
  then have "align8 n = 0"
    using assms(3) by (simp add: align8_def kAlign_def)
  moreover have "wrap64 (sr_used r) = sr_used r"
    using region_inv_bounds [of others p r] assms(1) st
    by (intro wrap64_small) (simp add: kPoolSize_def)
  ultimately show ?thesis
    using assms region_inv_bounds [of others p r] st by (simp add: Alloc_def Let_def)
qed

theorem alloc_wraps_witness:
  "\<exists>a. Alloc (2 ^ 64 - 1) (fst two_sessions, hd (snd two_sessions)) =
     (Some a, (fst two_sessions, hd (snd two_sessions)))"
  by (rule alloc_wraps [of "map region_slot (tl (snd two_sessions))"])
    (use pool_reach_inv [OF two_sessions_reach] in
      \<open>simp_all add: two_sessions_eq region_inv_def region_slot_def\<close>)

end
