(* ===== verification/Stream_Context.thy ===== *)
theory Stream_Context
  imports Region
begin

text \<open>
  The request data of one HTTP/2 stream (\<^verbatim>\<open>http/http2/stream_context.hpp\<close>, \<^verbatim>\<open>.cpp\<close> and the
  \<^verbatim>\<open>Context\<close> interface of \<^verbatim>\<open>http/context.hpp\<close>). Method, path, headers and body are offsets into
  the session's region, so every operation takes and returns the region; the fixed array of 64
  headers with its count is a list of at most 64 entries. The wakeup timer of a WebSocket
  reader is a flag for its presence and one for its cancellation.

  \<open>request\<close> is the abstract request; \<open>request_of\<close> reads it out of the region, and the
  operations are proved to refine the obvious operations on it.
\<close>

section \<open>State and operations\<close>

definition kMaxHeaders :: nat where "kMaxHeaders = 64"
definition kMaxExtraHeaders :: nat where "kMaxExtraHeaders = 8"

record H2StreamContext =
  sc_pool :: bool
  sc_method :: RegionOff
  sc_path :: RegionOff
  sc_body :: RegionOff
  sc_headers :: "(RegionOff \<times> RegionOff) list"
  sc_content_length :: nat
  sc_extra :: "(string \<times> string) list"
  sc_request_id :: string
  ws_extended :: bool
  ws_active :: bool
  ws_closed :: bool
  ws_data_queue :: "string list"
  ws_wakeup :: bool
  ws_cancelled :: bool
  stream_closed :: bool
  file_buf :: string

definition new_stream_context :: H2StreamContext where
  "new_stream_context = \<lparr> sc_pool = False, sc_method = no_off, sc_path = no_off, sc_body = no_off,
     sc_headers = [], sc_content_length = 0, sc_extra = [], sc_request_id = [],
     ws_extended = False, ws_active = False, ws_closed = False, ws_data_queue = [],
     ws_wakeup = False, ws_cancelled = False, stream_closed = False, file_buf = [] \<rparr>"

type_synonym ctx_state = "region_state \<times> H2StreamContext"

definition SetPool :: "bool \<Rightarrow> H2StreamContext \<Rightarrow> H2StreamContext" where
  "SetPool b c = c\<lparr> sc_pool := b \<rparr>"

definition SetMethod :: "string \<Rightarrow> ctx_state \<Rightarrow> ctx_state" where
  "SetMethod m sc =
     (case sc of (st, c) \<Rightarrow>
        if sc_pool c then (let (ro, st') = DupOff m st in (st', c\<lparr> sc_method := ro \<rparr>)) else (st, c))"

definition SetPath :: "string \<Rightarrow> ctx_state \<Rightarrow> ctx_state" where
  "SetPath p sc =
     (case sc of (st, c) \<Rightarrow>
        if sc_pool c then (let (ro, st') = DupOff p st in (st', c\<lparr> sc_path := ro \<rparr>)) else (st, c))"

text \<open>The digits up to the first other character, accumulated in a \<^verbatim>\<open>size_t\<close>.\<close>

fun parse_length :: "nat \<Rightarrow> string \<Rightarrow> nat" where
  "parse_length n [] = n"
| "parse_length n (c # cs) =
     (if of_char c < (48 :: nat) \<or> (57 :: nat) < of_char c then n
      else parse_length (wrap64 (n * 10 + (of_char c - 48))) cs)"

definition AddHeader :: "string \<Rightarrow> string \<Rightarrow> ctx_state \<Rightarrow> ctx_state" where
  "AddHeader name val sc =
     (if name = '':method'' then SetMethod val sc
      else if name = '':path'' then SetPath val sc
      else if name = '':protocol'' \<and> val = ''websocket''
        then (fst sc, (snd sc)\<lparr> ws_extended := True \<rparr>)
      else if name = '':authority'' \<or> name = '':scheme'' then sc
      else if kMaxHeaders \<le> length (sc_headers (snd sc)) then sc
      else if \<not> sc_pool (snd sc) then sc
      else
        let (st, c) = sc;
            (n, st) = DupOff name st;
            (v, st) = DupOff val st;
            c = c\<lparr> sc_headers := sc_headers c @ [(n, v)] \<rparr>
        in (st, if name = ''content-length''
                then c\<lparr> sc_content_length := parse_length 0 val \<rparr> else c))"

definition chars :: "byte list \<Rightarrow> string" where
  "chars bs = map (\<lambda>b. char_of (unat b)) bs"

definition AppendBody :: "byte list \<Rightarrow> ctx_state \<Rightarrow> ctx_state" where
  "AppendBody data sc =
     (case sc of (st, c) \<Rightarrow>
        if data = [] then (st, c)
        else if \<not> sc_pool c then (st, c)
        else case Alloc (length data) st of
               (None, st') \<Rightarrow> (st', c)
             | (Some a, (p, r)) \<Rightarrow>
                 ((p\<lparr> pool_mem := mem_write a (chars data) (pool_mem p) \<rparr>, r),
                  c\<lparr> sc_body := \<lparr> ro_off = wrap32 (a - RegionData r),
                                   ro_len = wrap32 (length data) \<rparr> \<rparr>))"

definition Method :: "ctx_state \<Rightarrow> string" where
  "Method sc = (if sc_pool (snd sc) then ToView (fst sc) (sc_method (snd sc)) else [])"

definition Path :: "ctx_state \<Rightarrow> string" where
  "Path sc = (if sc_pool (snd sc) then ToView (fst sc) (sc_path (snd sc)) else [])"

definition Body :: "ctx_state \<Rightarrow> string" where
  "Body sc = (if sc_pool (snd sc) then ToView (fst sc) (sc_body (snd sc)) else [])"

definition HeaderCount :: "H2StreamContext \<Rightarrow> nat" where
  "HeaderCount c = length (sc_headers c)"

definition HeaderAt :: "int \<Rightarrow> ctx_state \<Rightarrow> string \<times> string" where
  "HeaderAt i sc =
     (if i < 0 \<or> int (HeaderCount (snd sc)) \<le> i then ([], [])
      else if sc_pool (snd sc)
        then (ToView (fst sc) (fst (sc_headers (snd sc) ! nat i)),
              ToView (fst sc) (snd (sc_headers (snd sc) ! nat i)))
        else ([], []))"

fun find_header :: "region_state \<Rightarrow> string \<Rightarrow> (RegionOff \<times> RegionOff) list \<Rightarrow> string" where
  "find_header st key [] = []"
| "find_header st key ((n, v) # hs) =
     (if ToView st n = key then ToView st v else find_header st key hs)"

definition Header :: "string \<Rightarrow> ctx_state \<Rightarrow> string" where
  "Header key sc =
     (if \<not> sc_pool (snd sc) then [] else find_header (fst sc) key (sc_headers (snd sc)))"

text \<open>The response headers middleware injects, and the request identifier.\<close>

definition AddResponseHeader :: "string \<Rightarrow> string \<Rightarrow> H2StreamContext \<Rightarrow> H2StreamContext" where
  "AddResponseHeader key val c =
     (if kMaxExtraHeaders \<le> length (sc_extra c) then c
      else c\<lparr> sc_extra := sc_extra c @ [(key, val)] \<rparr>)"

definition ClearResponseHeaders :: "H2StreamContext \<Rightarrow> H2StreamContext" where
  "ClearResponseHeaders c = c\<lparr> sc_extra := [] \<rparr>"

definition SetRequestId :: "string \<Rightarrow> H2StreamContext \<Rightarrow> H2StreamContext" where
  "SetRequestId rid c = c\<lparr> sc_request_id := rid \<rparr>"

section \<open>The abstract request\<close>

record request =
  rq_method :: string
  rq_path :: string
  rq_body :: string
  rq_headers :: "(string \<times> string) list"
  rq_websocket :: bool

definition request_of :: "ctx_state \<Rightarrow> request" where
  "request_of sc = \<lparr> rq_method = Method sc, rq_path = Path sc, rq_body = Body sc,
     rq_headers = map (\<lambda>(n, v). (ToView (fst sc) n, ToView (fst sc) v)) (sc_headers (snd sc)),
     rq_websocket = ws_extended (snd sc) \<rparr>"

text \<open>What adding a header means for the request.\<close>

definition add_header :: "string \<Rightarrow> string \<Rightarrow> request \<Rightarrow> request" where
  "add_header name val rq =
     (if name = '':method'' then rq\<lparr> rq_method := val \<rparr>
      else if name = '':path'' then rq\<lparr> rq_path := val \<rparr>
      else if name = '':protocol'' \<and> val = ''websocket'' then rq\<lparr> rq_websocket := True \<rparr>
      else if name = '':authority'' \<or> name = '':scheme'' then rq
      else if kMaxHeaders \<le> length (rq_headers rq) then rq
      else rq\<lparr> rq_headers := rq_headers rq @ [(name, val)] \<rparr>)"

definition ctx_offs :: "H2StreamContext \<Rightarrow> RegionOff set" where
  "ctx_offs c =
     {sc_method c, sc_path c, sc_body c} \<union> (\<Union>(n, v) \<in> set (sc_headers c). {n, v})"

definition ctx_inv :: "FreeSlot list \<Rightarrow> ctx_state \<Rightarrow> bool" where
  "ctx_inv others sc \<longleftrightarrow>
     (case sc of (st, c) \<Rightarrow>
        region_inv others st \<and> sc_pool c \<and> length (sc_headers c) \<le> kMaxHeaders
        \<and> (\<forall>ro \<in> ctx_offs c. issued_off st ro))"

lemma no_off_issued [simp]: "issued_off st no_off"
  by (simp add: issued_off_def no_off_def)

lemma ctx_inv_new: "region_inv others st \<Longrightarrow> ctx_inv others (st, SetPool True new_stream_context)"
  by (simp add: ctx_inv_def ctx_offs_def SetPool_def new_stream_context_def)

text \<open>
  Room for \<open>k\<close> more bytes without moving the region: storing text then always succeeds.
\<close>

definition room :: "nat \<Rightarrow> region_state \<Rightarrow> bool" where
  "room k st \<longleftrightarrow> sr_used (snd st) + k \<le> sr_cap (snd st)"

lemma DupOff_room:
  assumes inv: "region_inv others st" and len: "length s < 2 ^ 63"
    and room: "room (align8 (length s) + k) st" and dup: "DupOff s st = (ro, st')"
  shows "ToView st' ro = s" and "room k st'"
proof -
  obtain p r where st: "st = (p, r)"
    by (cases st)
  have "ToView st' ro = s \<and> room k st'"
  proof (cases "s = []")
    case True
    then show ?thesis
      using dup room st by (auto simp: DupOff_def Dup_def room_def)
  next
    case False
    note al = align8_spec [OF len] and bounds = region_inv_bounds [OF inv [unfolded st]]
    have nowrap: "wrap64 (sr_used r + align8 (length s)) = sr_used r + align8 (length s)"
      using bounds room st by (intro wrap64_small) (simp add: room_def kPoolSize_def)
    have fits: "sr_used r + align8 (length s) + k \<le> sr_cap r"
      using room st by (simp add: room_def)
    then have "sr_used r < 2 ^ 32" "length s < 2 ^ 32"
      using bounds al by (simp_all add: kPoolSize_def)
    then show ?thesis
      using dup False fits
      by (auto simp: st DupOff_def Dup_def Alloc_def Let_def nowrap RegionData_def ToView_def room_def)
  qed
  then show "ToView st' ro = s" and "room k st'"
    by blast+
qed

section \<open>Refinement\<close>

lemma ctx_dup:
  assumes inv: "ctx_inv others (st, c)" and len: "length s < 2 ^ 63" and dup: "DupOff s st = (ro, st')"
  shows "ctx_inv others (st', c)" and "issued_off st' ro"
    and "r0 \<in> ctx_offs c \<Longrightarrow> ToView st' r0 = ToView st r0"
    and "issued_off st r1 \<Longrightarrow> issued_off st' r1 \<and> ToView st' r1 = ToView st r1"
proof -
  have rinv: "region_inv others st"
    using inv by (simp add: ctx_inv_def)
  note spec = DupOff_spec [OF rinv len dup]
  show keep: "issued_off st r1 \<Longrightarrow> issued_off st' r1 \<and> ToView st' r1 = ToView st r1" for r1
    using ToView_keeps [OF spec(2)] .
  show "ctx_inv others (st', c)"
    using inv spec(1) keep by (auto simp: ctx_inv_def)
  show "issued_off st' ro"
    using spec(3) .
  show "r0 \<in> ctx_offs c \<Longrightarrow> ToView st' r0 = ToView st r0"
    using inv keep by (auto simp: ctx_inv_def)
qed

lemma ctx_inv_fields:
  "ctx_inv others (st, c) \<Longrightarrow> issued_off st ro \<Longrightarrow> ctx_inv others (st, c\<lparr> sc_method := ro \<rparr>)"
  "ctx_inv others (st, c) \<Longrightarrow> issued_off st ro \<Longrightarrow> ctx_inv others (st, c\<lparr> sc_path := ro \<rparr>)"
  "ctx_inv others (st, c) \<Longrightarrow> issued_off st ro \<Longrightarrow> ctx_inv others (st, c\<lparr> sc_body := ro \<rparr>)"
  "ctx_inv others (st, c) \<Longrightarrow> ctx_inv others (st, c\<lparr> ws_extended := b \<rparr>)"
  "ctx_inv others (st, c) \<Longrightarrow> ctx_inv others (st, c\<lparr> sc_content_length := n \<rparr>)"
  by (auto simp: ctx_inv_def ctx_offs_def)

lemma ctx_inv_header:
  "ctx_inv others (st, c) \<Longrightarrow> issued_off st n \<Longrightarrow> issued_off st v \<Longrightarrow>
     length (sc_headers c) < kMaxHeaders \<Longrightarrow>
     ctx_inv others (st, c\<lparr> sc_headers := sc_headers c @ [(n, v)] \<rparr>)"
  by (auto simp: ctx_inv_def ctx_offs_def)

lemma AddHeader_inv:
  assumes inv: "ctx_inv others sc" and len: "length name < 2 ^ 63" "length val < 2 ^ 63"
  shows "ctx_inv others (AddHeader name val sc)"
proof -
  obtain st c where sc: "sc = (st, c)"
    by (cases sc)
  obtain ro st1 where d: "DupOff val st = (ro, st1)"
    by (cases "DupOff val st")
  obtain n st2 where dn: "DupOff name st = (n, st2)"
    by (cases "DupOff name st")
  obtain v st3 where dv: "DupOff val st2 = (v, st3)"
    by (cases "DupOff val st2")
  note one = ctx_dup [OF inv [unfolded sc] len(2) d]
  note two = ctx_dup [OF inv [unfolded sc] len(1) dn]
  note three = ctx_dup [OF two(1) len(2) dv]
  have "ctx_inv others (st3, c\<lparr> sc_headers := sc_headers c @ [(n, v)] \<rparr>)"
    if "length (sc_headers c) < kMaxHeaders"
    using three two(2) that by (intro ctx_inv_header) auto
  then show ?thesis
    using inv one d dn dv
    by (auto simp: AddHeader_def SetMethod_def SetPath_def Let_def sc intro!: ctx_inv_fields)
qed

lemma AddHeader_keeps:
  assumes inv: "ctx_inv others sc" and len: "length name < 2 ^ 63" "length val < 2 ^ 63"
  shows "region_keeps others (fst sc) (fst (AddHeader name val sc))"
proof -
  obtain st c where sc: "sc = (st, c)"
    by (cases sc)
  have rinv: "region_inv others st"
    using inv by (simp add: sc ctx_inv_def)
  obtain ro st1 where d: "DupOff val st = (ro, st1)"
    by (cases "DupOff val st")
  obtain n st2 where dn: "DupOff name st = (n, st2)"
    by (cases "DupOff name st")
  obtain v st3 where dv: "DupOff val st2 = (v, st3)"
    by (cases "DupOff val st2")
  note one = DupOff_spec [OF rinv len(2) d] and two = DupOff_spec [OF rinv len(1) dn]
  note three = DupOff_spec [OF two(1) len(2) dv]
  have "region_keeps others st st3"
    using region_keeps_trans [OF two(2) three(2)] .
  then show ?thesis
    using one(2) region_keeps_refl [of others st]
    by (auto simp: AddHeader_def SetMethod_def SetPath_def sc d dn dv Let_def)
qed

lemma length_chars [simp]: "length (chars bs) = length bs"
  by (simp add: chars_def)

lemma chars_append [simp]: "chars (xs @ ys) = chars xs @ chars ys"
  by (simp add: chars_def)

lemma chars_Nil_iff [simp]: "chars bs = [] \<longleftrightarrow> bs = []"
  by (simp add: chars_def)

lemma AppendBody_dup:
  assumes "sc_pool c" and "data \<noteq> []" and "DupOff (chars data) st = (ro, st')"
  shows "AppendBody data (st, c) =
    (st', if fst (Alloc (length data) st) = None then c else c\<lparr> sc_body := ro \<rparr>)"
  using assms
  by (auto simp: AppendBody_def DupOff_def Dup_def split: prod.splits option.splits)

lemma AppendBody_keeps:
  assumes inv: "ctx_inv others sc" and len: "length data < 2 ^ 63"
  shows "region_keeps others (fst sc) (fst (AppendBody data sc))" and "ctx_inv others (AppendBody data sc)"
proof -
  obtain st c where sc: "sc = (st, c)"
    by (cases sc)
  have rinv: "region_inv others st" and pool: "sc_pool c"
    using inv by (simp_all add: sc ctx_inv_def)
  obtain ro st1 where d: "DupOff (chars data) st = (ro, st1)"
    by (cases "DupOff (chars data) st")
  have len': "length (chars data) < 2 ^ 63"
    using len by (simp add: chars_def)
  note one = DupOff_spec [OF rinv len' d] and two = ctx_dup [OF inv [unfolded sc] len' d]
  have eq: "data = [] \<and> AppendBody data sc = sc
      \<or> AppendBody data sc = (st1, c) \<or> AppendBody data sc = (st1, c\<lparr> sc_body := ro \<rparr>)"
    using AppendBody_dup [OF pool _ d] by (cases "data = []") (auto simp: sc AppendBody_def)
  then show "region_keeps others (fst sc) (fst (AppendBody data sc))"
    using one(2) region_keeps_refl [of others st] by (auto simp: sc)
  show "ctx_inv others (AppendBody data sc)"
    using eq inv two(1,2) ctx_inv_fields(3) by fastforce
qed

lemma request_of_dup:
  assumes "ctx_inv others (st, c)" and "length s < 2 ^ 63" and "DupOff s st = (ro, st')"
  shows "request_of (st', c) = request_of (st, c)"
  using ctx_dup(3) [OF assms] by (auto simp: request_of_def Method_def Path_def Body_def ctx_offs_def)

lemma AddHeader_refines:
  assumes inv: "ctx_inv others sc" and len: "length name < 2 ^ 63" "length val < 2 ^ 63"
    and room: "room (align8 (length name) + align8 (length val)) (fst sc)"
  shows "request_of (AddHeader name val sc) = add_header name val (request_of sc)"
proof -
  obtain st c where sc: "sc = (st, c)"
    by (cases sc)
  have rinv: "region_inv others st" and pool: "sc_pool c"
    using inv by (simp_all add: sc ctx_inv_def)
  obtain ro st1 where d: "DupOff val st = (ro, st1)"
    by (cases "DupOff val st")
  obtain n st2 where dn: "DupOff name st = (n, st2)"
    by (cases "DupOff name st")
  obtain v st3 where dv: "DupOff val st2 = (v, st3)"
    by (cases "DupOff val st2")
  note two = ctx_dup [OF inv [unfolded sc] len(1) dn]
  have rinv2: "region_inv others st2"
    using two(1) by (simp add: ctx_inv_def)
  have "room (align8 (length val) + align8 (length name)) st"
      "room (align8 (length name) + (align8 (length val) + 0)) st"
    using room by (simp_all add: sc add.commute)
  then have v1: "ToView st1 ro = val" and n2: "ToView st2 n = name" "room (align8 (length val) + 0) st2"
    using DupOff_room [OF rinv len(2) _ d] DupOff_room [OF rinv len(1) _ dn] by blast+
  have v3: "ToView st3 v = val" "ToView st3 n = name"
    using DupOff_room [OF rinv2 len(2) n2(2) dv] ctx_dup(4) [OF two(1) len(2) dv two(2)] n2 by simp_all
  note keep1 = request_of_dup [OF inv [unfolded sc] len(2) d]
  note keep3 = request_of_dup [OF inv [unfolded sc] len(1) dn] request_of_dup [OF two(1) len(2) dv]
  show ?thesis
    using keep1 keep3 v1 v3 pool
    by (simp add: AddHeader_def add_header_def SetMethod_def SetPath_def sc d dn dv
        request_of_def Method_def Path_def Body_def Let_def)
qed

lemma room_mono: "room a st \<Longrightarrow> b \<le> a \<Longrightarrow> room b st"
  by (simp add: room_def)

lemma AddHeader_room:
  assumes inv: "ctx_inv others sc" and len: "length name < 2 ^ 63" "length val < 2 ^ 63"
    and room: "room (align8 (length name) + (align8 (length val) + k)) (fst sc)"
  shows "room k (fst (AddHeader name val sc))"
proof -
  obtain st c where sc: "sc = (st, c)"
    by (cases sc)
  have rinv: "region_inv others st"
    using inv by (simp add: sc ctx_inv_def)
  obtain ro st1 where d: "DupOff val st = (ro, st1)"
    by (cases "DupOff val st")
  obtain n st2 where dn: "DupOff name st = (n, st2)"
    by (cases "DupOff name st")
  obtain v st3 where dv: "DupOff val st2 = (v, st3)"
    by (cases "DupOff val st2")
  have "room (align8 (length val) + k) st" "room k st"
    using room by (auto simp: sc intro: room_mono)
  moreover have "room (align8 (length val) + k) st2"
    using DupOff_room(2) [OF rinv len(1) _ dn] room by (simp add: sc)
  moreover have "region_inv others st2"
    using ctx_dup(1) [OF inv [unfolded sc] len(1) dn] by (simp add: ctx_inv_def)
  ultimately have "room k st" "room k st1" "room k st3"
    using DupOff_room(2) [OF rinv len(2) _ d] DupOff_room(2) [OF _ len(2) _ dv] by blast+
  then show ?thesis
    by (simp add: AddHeader_def SetMethod_def SetPath_def sc d dn dv Let_def)
qed

lemma Header_first:
  "sc_pool (snd sc) \<Longrightarrow>
     Header key sc = (case find (\<lambda>(n, v). n = key) (rq_headers (request_of sc)) of
                        None \<Rightarrow> [] | Some (n, v) \<Rightarrow> v)"
proof -
  have "find_header st key hs =
      (case find (\<lambda>(n, v). n = key) (map (\<lambda>(n, v). (ToView st n, ToView st v)) hs) of
         None \<Rightarrow> [] | Some (n, v) \<Rightarrow> v)" for st hs
    by (induction st key hs rule: find_header.induct) auto
  then show "sc_pool (snd sc) \<Longrightarrow> ?thesis"
    by (simp add: Header_def request_of_def)
qed

lemma Alloc_room:
  assumes "region_inv others st" and "0 < n" and "n < 2 ^ 63" and "room (align8 n + k) st"
  shows "fst (Alloc n st) \<noteq> None"
proof -
  obtain p r where st: "st = (p, r)"
    by (cases st)
  have "wrap64 (sr_used r + align8 n) = sr_used r + align8 n"
    using region_inv_bounds [of others p r] assms st
    by (intro wrap64_small) (simp add: room_def kPoolSize_def)
  then show ?thesis
    using assms by (simp add: Alloc_def Let_def st room_def)
qed

lemma AppendBody_spec:
  assumes inv: "ctx_inv others sc" and data: "data \<noteq> []" "length data < 2 ^ 63"
    and room: "room (align8 (length data) + k) (fst sc)"
  shows "ctx_inv others (AppendBody data sc)"
    and "request_of (AppendBody data sc) = (request_of sc)\<lparr> rq_body := chars data \<rparr>"
    and "room k (fst (AppendBody data sc))"
proof -
  obtain st c where sc: "sc = (st, c)"
    by (cases sc)
  obtain ro st' where d: "DupOff (chars data) st = (ro, st')"
    by (cases "DupOff (chars data) st")
  have rinv: "region_inv others st" and pool: "sc_pool c"
    using inv by (simp_all add: sc ctx_inv_def)
  have len: "length (chars data) < 2 ^ 63"
    using data by simp
  have eq: "AppendBody data sc = (st', c\<lparr> sc_body := ro \<rparr>)"
    using AppendBody_dup [OF pool data(1) d] Alloc_room [OF rinv _ data(2), of k] room data(1)
    by (auto simp: sc)
  note dup = ctx_dup [OF inv [unfolded sc] len d]
  note stored = DupOff_room [OF rinv len _ d, of k]
  show "ctx_inv others (AppendBody data sc)"
    using dup(1,2) unfolding eq by (simp add: ctx_inv_fields)
  show "request_of (AppendBody data sc) = (request_of sc)\<lparr> rq_body := chars data \<rparr>"
    using request_of_dup [OF inv [unfolded sc] len d] stored(1) room pool
    unfolding eq by (simp add: sc request_of_def Method_def Path_def Body_def)
  show "room k (fst (AppendBody data sc))"
    using stored(2) room unfolding eq by (simp add: sc)
qed

section \<open>Properties\<close>

text \<open>C6. Adding a decoded header field refines the abstract operation: pseudo-headers set the
  method, the path or the WebSocket mark, \<open>:authority\<close> and \<open>:scheme\<close> are dropped, and any
  other field is appended to the header list while it has fewer than 64 entries. Every field
  read before is still read unchanged afterwards.\<close>

theorem add_header_refines:
  assumes "ctx_inv others sc" and "length name < 2 ^ 63" and "length val < 2 ^ 63"
    and "room (align8 (length name) + align8 (length val)) (fst sc)"
  shows "request_of (AddHeader name val sc) = add_header name val (request_of sc)
    \<and> ctx_inv others (AddHeader name val sc)"
  using AddHeader_refines [OF assms] AddHeader_inv [OF assms(1-3)] by blast

text \<open>A stream of the second session of a worker.\<close>

definition sample_ctx :: ctx_state where
  "sample_ctx = ((fst two_sessions, hd (snd two_sessions)), SetPool True new_stream_context)"

lemma sample_ctx_inv: "ctx_inv (map region_slot (tl (snd two_sessions))) sample_ctx"
  unfolding sample_ctx_def using pool_reach_inv [OF two_sessions_reach]
  by (intro ctx_inv_new) (simp add: two_sessions_eq region_inv_def region_slot_def)

lemma sample_ctx_room: "k \<le> 65536 \<Longrightarrow> room k (fst sample_ctx)"
  by (simp add: sample_ctx_def room_def two_sessions_eq)

theorem add_header_refines_witness:
  "rq_headers (request_of (AddHeader ''accept'' ''text/html'' sample_ctx)) = [(''accept'', ''text/html'')]"
  using add_header_refines [OF sample_ctx_inv, of "''accept''" "''text/html''"]
    sample_ctx_room [of 24]
  by (simp add: align8_def kAlign_def add_header_def request_of_def sample_ctx_def SetPool_def
      new_stream_context_def kMaxHeaders_def)

text \<open>Looking up a header returns the value of the first field with that name, and the empty
  text when there is none.\<close>

theorem header_lookup_first:
  assumes "sc_pool (snd sc)"
  shows "Header key sc = (case find (\<lambda>(n, v). n = key) (rq_headers (request_of sc)) of
     None \<Rightarrow> [] | Some (n, v) \<Rightarrow> v)"
  using assms by (rule Header_first)

theorem header_lookup_first_witness: "Header ''accept'' sample_ctx = []"
  using header_lookup_first [of sample_ctx]
  by (simp add: sample_ctx_def request_of_def SetPool_def new_stream_context_def)

text \<open>The body of a request that arrives in two DATA frames is the payload of the second
  frame alone: appending replaces the body instead of extending it.\<close>

theorem body_keeps_last_chunk:
  assumes "ctx_inv others sc" and "d1 \<noteq> []" and "d2 \<noteq> []"
    and "length d1 < 2 ^ 63" and "length d2 < 2 ^ 63"
    and "room (align8 (length d1) + (align8 (length d2) + 0)) (fst sc)"
  shows "Body (AppendBody d2 (AppendBody d1 sc)) = chars d2"
proof -
  note one = AppendBody_spec [OF assms(1,2,4,6)]
  have "rq_body (request_of (AppendBody d2 (AppendBody d1 sc))) = chars d2"
    using AppendBody_spec(2) [OF one(1) assms(3,5) one(3)] by simp
  then show ?thesis
    by (simp add: request_of_def)
qed

theorem body_keeps_last_chunk_witness:
  "Body (AppendBody [0x62, 0x63] (AppendBody [0x61] sample_ctx)) = ''bc''"
  using body_keeps_last_chunk [OF sample_ctx_inv, of "[0x61]" "[0x62, 0x63]"] sample_ctx_room [of 16]
  by (simp add: align8_def kAlign_def chars_def char_of_def bit_Suc_0_iff)

end
