(* ===== verification/Hpack.thy ===== *)
theory Hpack
  imports Stream_Context
begin

unbundle bit_operations_syntax

text \<open>
  Header compression (\<^verbatim>\<open>http/http2/parser/HPACK.hpp\<close> and \<^verbatim>\<open>.cpp\<close>): the static table, the
  Huffman table built at start-up, the decoder with its dynamic table, and the encoder. The
  decoder hands every field to \<open>AddHeader\<close> of the stream's context and copies text into the
  session's region, so it threads both. A \<^verbatim>\<open>string_view\<close> is the text it denotes when it is
  made; where the code goes on using a view into a table entry that it has just evicted, the
  result is \<open>None\<close>, as it is where a shift count reaches the width of its operand.
\<close>

section \<open>Tables\<close>

definition kStaticNames :: "string list" where
  "kStaticNames =
     [
      '':authority'', '':method'', '':method'', '':path'', '':path'', '':scheme'', '':scheme'',
      '':status'', '':status'', '':status'', '':status'', '':status'', '':status'', '':status'',
      ''accept-charset'', ''accept-encoding'', ''accept-language'', ''accept-ranges'',
      ''accept'', ''access-control-allow-origin'', ''age'', ''allow'', ''authorization'',
      ''cache-control'', ''content-disposition'', ''content-encoding'', ''content-language'',
      ''content-length'', ''content-location'', ''content-range'', ''content-type'', ''cookie'',
      ''date'', ''etag'', ''expect'', ''expires'', ''from'', ''host'', ''if-match'',
      ''if-modified-since'', ''if-none-match'', ''if-range'', ''if-unmodified-since'',
      ''last-modified'', ''link'', ''location'', ''max-forwards'', ''proxy-authenticate'',
      ''proxy-authorization'', ''range'', ''referer'', ''refresh'', ''retry-after'', ''server'',
      ''set-cookie'', ''strict-transport-security'', ''transfer-encoding'', ''user-agent'',
      ''vary'', ''via'', ''www-authenticate''
     ]"

definition kStaticValues :: "string list" where
  "kStaticValues =
     [
      [], ''GET'', ''POST'', ''/'', ''/index.html'', ''http'', ''https'', ''200'', ''204'',
      ''206'', ''304'', ''400'', ''404'', ''500'', [], [], [], [], [], [], [], [], [], [], [],
      [], [], [], [], [], [], [], [], [], [], [], [], [], [], [], [], [], [], [], [], [], [], [],
      [], [], [], [], [], [], [], [], [], [], [], [], []
     ]"

definition kHuffLens :: "nat list" where
  "kHuffLens =
     [
      13, 23, 28, 28, 28, 28, 28, 28, 28, 24, 30, 28, 28, 30, 28, 28, 28, 28, 28, 28, 28, 28, 30,
      28, 28, 28, 28, 28, 28, 28, 28, 28, 6, 10, 10, 12, 13, 6, 8, 11, 10, 10, 8, 11, 8, 6, 6, 6,
      5, 5, 5, 6, 6, 6, 6, 6, 6, 6, 7, 8, 15, 6, 12, 10, 13, 6, 7, 7, 7, 7, 7, 7, 7, 7, 7, 7, 7,
      7, 7, 7, 7, 7, 7, 7, 7, 7, 7, 7, 8, 7, 8, 13, 19, 13, 14, 6, 15, 5, 6, 5, 6, 5, 6, 6, 6, 5,
      7, 7, 6, 6, 6, 5, 6, 7, 6, 5, 5, 6, 7, 7, 7, 7, 7, 15, 11, 14, 13, 28, 20, 22, 20, 20, 22,
      22, 22, 23, 22, 23, 23, 23, 23, 23, 24, 23, 24, 24, 22, 23, 24, 23, 23, 23, 23, 21, 22, 23,
      22, 23, 23, 24, 22, 21, 20, 22, 22, 23, 23, 21, 23, 22, 22, 24, 21, 22, 23, 23, 21, 21, 22,
      21, 23, 22, 23, 23, 20, 22, 22, 22, 23, 22, 22, 23, 26, 26, 20, 19, 22, 23, 22, 25, 26, 26,
      26, 27, 27, 26, 24, 25, 19, 21, 26, 27, 27, 26, 27, 24, 21, 21, 26, 26, 28, 27, 27, 27, 20,
      24, 20, 21, 22, 21, 21, 23, 22, 22, 25, 25, 24, 24, 26, 23, 26, 27, 26, 26, 27, 27, 27, 27,
      27, 28, 27, 27, 27, 27, 27, 26
     ]"

text \<open>
  \<open>InitHuffmanTable\<close>: count the codes of each length, compute the first code of each length,
  and number the symbols in order. Codes are 32-bit.
\<close>

definition bl_count :: "nat list" where
  "bl_count = foldl (\<lambda>cnt l. cnt[l := Suc (cnt ! l)]) (replicate 33 0) kHuffLens"

fun next_codes :: "int \<Rightarrow> nat list \<Rightarrow> int list" where
  "next_codes code [] = []"
| "next_codes code (n # ns) =
     (let code' = ((code + int n) * 2) mod 2 ^ 32 in code' # next_codes code' ns)"

definition next_code :: "int list" where
  "next_code = 0 # next_codes 0 (take 32 bl_count)"

fun assign_codes :: "int list \<Rightarrow> nat list \<Rightarrow> (int \<times> nat) list" where
  "assign_codes nxt [] = []"
| "assign_codes nxt (l # ls) =
     (if 0 < l then (nxt ! l, l) # assign_codes (nxt[l := (nxt ! l + 1) mod 2 ^ 32]) ls
      else (0, 0) # assign_codes nxt ls)"

definition kHuffTable :: "(int \<times> nat) list" where
  "kHuffTable = assign_codes next_code kHuffLens"

section \<open>Decoder\<close>

record HpackDecoder =
  dynamic_table :: "(string \<times> string) list"
  max_table_size :: u32
  current_table_size :: u32

definition new_hpack_decoder :: HpackDecoder where
  "new_hpack_decoder = \<lparr> dynamic_table = [], max_table_size = 4096, current_table_size = 0 \<rparr>"

definition StaticName :: "int \<Rightarrow> string" where
  "StaticName i = (if i < 1 \<or> 61 < i then [] else kStaticNames ! nat (i - 1))"

definition StaticValue :: "int \<Rightarrow> string" where
  "StaticValue i = (if i < 1 \<or> 61 < i then [] else kStaticValues ! nat (i - 1))"

definition EntryOverhead :: "string \<Rightarrow> string \<Rightarrow> nat" where
  "EntryOverhead n v = 32 + length n + length v"

text \<open>The front of the deque is the head of the list; eviction removes from the back.\<close>

function evict_loop :: "u32 \<Rightarrow> u32 \<Rightarrow> (string \<times> string) list \<Rightarrow> u32 \<times> (string \<times> string) list" where
  "evict_loop target cur tab =
     (if target < cur \<and> tab \<noteq> []
      then evict_loop target (cur - of_nat (EntryOverhead (fst (last tab)) (snd (last tab)))) (butlast tab)
      else (cur, tab))"
  by pat_completeness auto
termination
  by (relation "measure (\<lambda>(target, cur, tab). length tab)") auto

declare evict_loop.simps [simp del]

definition EvictTo :: "u32 \<Rightarrow> HpackDecoder \<Rightarrow> HpackDecoder" where
  "EvictTo target d =
     (let (cur, tab) = evict_loop target (current_table_size d) (dynamic_table d)
      in d\<lparr> current_table_size := cur, dynamic_table := tab \<rparr>)"

definition SetMaxTableSize :: "u32 \<Rightarrow> HpackDecoder \<Rightarrow> HpackDecoder" where
  "SetMaxTableSize sz d = EvictTo sz (d\<lparr> max_table_size := sz \<rparr>)"

text \<open>
  Integers: the bytes at \<^verbatim>\<open>data\<close> are a list and \<^verbatim>\<open>len\<close> is its length, so the remaining list
  stands for both reference parameters.
\<close>

fun integer_loop :: "nat \<Rightarrow> u32 \<Rightarrow> byte list \<Rightarrow> (u32 \<times> byte list) option" where
  "integer_loop m v [] = Some (v, [])"
| "integer_loop m v (b # bs) =
     (if 32 \<le> m then None
      else let v' = v + push_bit m (ucast (b AND 0x7f))
           in if b AND 0x80 = 0 then Some (v', bs) else integer_loop (m + 7) v' bs)"

definition DecodeInteger :: "nat \<Rightarrow> byte list \<Rightarrow> (u32 \<times> byte list) option" where
  "DecodeInteger prefix_bits data =
     (case data of [] \<Rightarrow> Some (0, [])
      | d0 # rest \<Rightarrow>
          let mask = ucast (push_bit prefix_bits (1 :: u32) - 1) :: byte;
              v = ucast (d0 AND mask) :: u32
          in if v = ucast mask then integer_loop 0 v rest else Some (v, rest))"

text \<open>
  The Huffman decoder keeps up to 40 bits in a 64-bit window; \<^verbatim>\<open>(buf << 8) | *data\<close> is written
  as a sum and the shift with mask as quotient and remainder.
\<close>

fun fill_window :: "int \<Rightarrow> nat \<Rightarrow> byte list \<Rightarrow> int \<times> nat \<times> byte list" where
  "fill_window buf bits [] = (buf, bits, [])"
| "fill_window buf bits (d # ds) =
     (if bits \<le> 32 then fill_window ((buf * 256 + uint d) mod 2 ^ 64) (bits + 8) ds
      else (buf, bits, d # ds))"

fun match_symbol :: "int \<Rightarrow> nat \<Rightarrow> nat \<Rightarrow> (int \<times> nat) list \<Rightarrow> (nat \<times> nat) option" where
  "match_symbol buf bits sy [] = None"
| "match_symbol buf bits sy ((code, len) # entries) =
     (if len = 0 \<or> bits < len then match_symbol buf bits (Suc sy) entries
      else if (buf div 2 ^ (bits - len)) mod 2 ^ len = code then Some (sy, len)
      else match_symbol buf bits (Suc sy) entries)"

lemma fill_window_size:
  "fill_window buf bits ds = (buf', bits', ds') \<Longrightarrow> 8 * length ds' + bits' = 8 * length ds + bits"
  by (induction buf bits ds rule: fill_window.induct) (auto split: if_splits)

lemma match_symbol_len:
  "match_symbol buf bits sy tab = Some (sy', len) \<Longrightarrow> 0 < len \<and> len \<le> bits"
  by (induction buf bits sy tab rule: match_symbol.induct) (auto split: if_splits)

function huffman_loop :: "int \<Rightarrow> nat \<Rightarrow> byte list \<Rightarrow> string \<Rightarrow> string" where
  "huffman_loop buf bits data result =
     (let (buf', bits', data') = fill_window buf bits data
      in case match_symbol buf' bits' 0 kHuffTable of
           Some (sy, len) \<Rightarrow> huffman_loop buf' (bits' - len) data' (result @ [char_of sy])
         | None \<Rightarrow>
             if data' = [] \<and> bits' \<le> 7
             then (if 0 < bits' \<and> buf' mod 2 ^ bits' \<noteq> 2 ^ bits' - 1 then [] else result)
             else [])"
  by pat_completeness auto
termination
proof (relation "measure (\<lambda>(buf, bits, data, result). 8 * length data + bits)", goal_cases)
  case 1
  then show ?case by simp
next
  case (2 buf bits data result x buf' y bits' data' z sy len)
  then show ?case
    using fill_window_size [of buf bits data buf' bits' data'] match_symbol_len [of buf' bits' 0 kHuffTable sy len]
    by auto
qed

declare huffman_loop.simps [simp del]

definition HuffmanDecode :: "byte list \<Rightarrow> string" where
  "HuffmanDecode data = (if data = [] then [] else huffman_loop 0 0 data [])"

text \<open>The text a \<^verbatim>\<open>Dup\<close> denotes: empty when the region is exhausted.\<close>

definition dup_text :: "string \<Rightarrow> region_state \<Rightarrow> string \<times> region_state" where
  "dup_text s st = (case Dup s st of (None, st') \<Rightarrow> ([], st') | (Some _, st') \<Rightarrow> (s, st'))"

definition DecodeString :: "byte list \<Rightarrow> region_state \<Rightarrow> (string \<times> byte list \<times> region_state) option" where
  "DecodeString data st =
     (case data of [] \<Rightarrow> Some ([], [], st)
      | d0 # _ \<Rightarrow>
          (case DecodeInteger 7 data of None \<Rightarrow> None
           | Some (str_len, rest) \<Rightarrow>
               let n = unat str_len
               in if length rest < n then Some ([], [], st)
                  else if d0 AND 0x80 \<noteq> 0
                    then (let decoded = HuffmanDecode (take n rest)
                          in if decoded = [] then Some ([], [], st)
                             else let (t, st') = dup_text decoded st in Some (t, drop n rest, st'))
                    else (let (t, st') = dup_text (chars (take n rest)) st
                          in Some (t, drop n rest, st'))))"

definition Lookup :: "int \<Rightarrow> HpackDecoder \<Rightarrow> string \<times> string" where
  "Lookup i d =
     (if 1 \<le> i \<and> i \<le> 61 then (StaticName i, StaticValue i)
      else let k = i - 62
           in if 0 \<le> k \<and> k < int (length (dynamic_table d)) then dynamic_table d ! nat k
              else ([], []))"

type_synonym hpack_state = "HpackDecoder \<times> ctx_state"

text \<open>
  The name of a literal field: an index into the tables or a string. The result is the name
  (\<open>None\<close> where the code returns false), the remaining bytes and the region.
\<close>

definition literal_name ::
  "nat \<Rightarrow> byte list \<Rightarrow> hpack_state \<Rightarrow> (string option \<times> u32 \<times> byte list \<times> hpack_state) option" where
  "literal_name prefix_bits data s =
     (case (s, DecodeInteger prefix_bits data) of
        ((d, st, c), None) \<Rightarrow> None
      | ((d, st, c), Some (name_idx, rest)) \<Rightarrow>
          if name_idx = 0
          then (case DecodeString rest st of None \<Rightarrow> None
                | Some (name, rest', st') \<Rightarrow>
                    Some (if name = [] then None else Some name, 0, rest', (d, st', c)))
          else let name = fst (Lookup (sint name_idx) d)
               in Some (if name = [] then None else Some name, name_idx, rest, (d, st, c)))"

definition literal_value :: "byte list \<Rightarrow> hpack_state \<Rightarrow> (string \<times> byte list \<times> hpack_state) option" where
  "literal_value data s =
     (case s of (d, st, c) \<Rightarrow>
        map_option (\<lambda>(v, rest, st'). (v, rest, (d, st', c))) (DecodeString data st))"

definition add_field :: "string \<Rightarrow> string \<Rightarrow> hpack_state \<Rightarrow> hpack_state" where
  "add_field name val s = (case s of (d, sc) \<Rightarrow> (d, AddHeader name val sc))"

text \<open>
  Adding the field to the dynamic table. \<open>name_idx\<close> is the index the name came from, \<open>0\<close> for
  a string: when the eviction removes the very entry the name refers to, the code constructs
  the new entry from freed memory.
\<close>

definition insert_field :: "u32 \<Rightarrow> string \<Rightarrow> string \<Rightarrow> HpackDecoder \<Rightarrow> HpackDecoder option" where
  "insert_field name_idx name val d =
     (let entry_size = EntryOverhead name val;
          max_sz = unat (max_table_size d);
          d' = EvictTo (of_nat (max_sz - min entry_size max_sz)) d
      in if entry_size \<le> max_sz
         then (if 62 \<le> sint name_idx \<and> int (length (dynamic_table d')) \<le> sint name_idx - 62 then None
               else Some (d'\<lparr> dynamic_table := (name, val) # dynamic_table d',
                              current_table_size := current_table_size d' + of_nat entry_size \<rparr>))
         else Some d')"

text \<open>
  One iteration of \<open>Decode\<close>: \<open>False\<close> where the code returns false, \<open>True\<close> with the rest
  of the block where it goes on.
\<close>

definition literal_field ::
  "nat \<Rightarrow> bool \<Rightarrow> byte list \<Rightarrow> hpack_state \<Rightarrow> (bool \<times> byte list \<times> hpack_state) option" where
  "literal_field prefix_bits indexing data s =
     (case literal_name prefix_bits data s of None \<Rightarrow> None
      | Some (None, _, rest, s1) \<Rightarrow> Some (False, rest, s1)
      | Some (Some name, name_idx, rest, s1) \<Rightarrow>
          (case literal_value rest s1 of None \<Rightarrow> None
           | Some (val, rest', s2) \<Rightarrow>
               let s3 = add_field name val s2
               in if indexing
                  then (case insert_field name_idx name val (fst s3) of None \<Rightarrow> None
                        | Some d \<Rightarrow> Some (True, rest', (d, snd s3)))
                  else Some (True, rest', s3)))"

definition decode_field ::
  "byte list \<Rightarrow> hpack_state \<Rightarrow> (bool \<times> byte list \<times> hpack_state) option" where
  "decode_field data s =
     (let b = hd data
      in if b AND 0x80 \<noteq> 0
         then (case DecodeInteger 7 data of None \<Rightarrow> None
               | Some (idx, rest) \<Rightarrow>
                   if idx = 0 then Some (False, rest, s)
                   else let (name, val) = Lookup (sint idx) (fst s)
                        in if name = [] then Some (False, rest, s)
                           else Some (True, rest, add_field name val s))
         else if b AND 0xC0 = 0x40 then literal_field 6 True data s
         else if b AND 0xE0 = 0x20
         then (case DecodeInteger 5 data of None \<Rightarrow> None
               | Some (new_size, rest) \<Rightarrow>
                   if max_table_size (fst s) < new_size then Some (False, rest, s)
                   else Some (True, rest,
                          ((EvictTo new_size (fst s))\<lparr> max_table_size := new_size \<rparr>, snd s)))
         else if b AND 0xF0 = 0x10 then literal_field 4 False data s
         else if b AND 0xF0 = 0x00 then literal_field 4 False data s
         else Some (False, data, s))"

lemma integer_loop_shorter: "integer_loop m v bs = Some (v', rest) \<Longrightarrow> length rest \<le> length bs"
  by (induction m v bs rule: integer_loop.induct) (auto simp: Let_def split: if_splits)

lemma DecodeInteger_shorter:
  "DecodeInteger p data = Some (v, rest) \<Longrightarrow> data \<noteq> [] \<Longrightarrow> length rest < length data"
  by (auto simp: DecodeInteger_def Let_def split: list.splits if_splits dest!: integer_loop_shorter)

lemma DecodeString_shorter:
  "DecodeString data st = Some (t, rest, st') \<Longrightarrow> length rest \<le> length data"
  by (auto simp: DecodeString_def Let_def split: list.splits option.splits prod.splits if_splits
      dest!: DecodeInteger_shorter)

lemma literal_name_shorter:
  "literal_name p data s = Some (n, i, rest, s') \<Longrightarrow> data \<noteq> [] \<Longrightarrow> length rest < length data"
  by (auto simp: literal_name_def Let_def split: prod.splits option.splits if_splits
      dest!: DecodeInteger_shorter DecodeString_shorter)

lemma literal_field_shorter:
  "literal_field p i data s = Some (b, rest, s') \<Longrightarrow> data \<noteq> [] \<Longrightarrow> length rest < length data"
  by (auto simp: literal_field_def literal_value_def Let_def
      split: option.splits prod.splits if_splits
      dest!: literal_name_shorter DecodeString_shorter)

lemma decode_field_shorter:
  "decode_field data s = Some (True, rest, s') \<Longrightarrow> data \<noteq> [] \<Longrightarrow> length rest < length data"
  by (auto simp: decode_field_def Let_def split: option.splits prod.splits if_splits
      dest!: literal_field_shorter DecodeInteger_shorter)

function Decode :: "byte list \<Rightarrow> hpack_state \<Rightarrow> (bool \<times> hpack_state) option" where
  "Decode data s =
     (if data = [] then Some (True, s)
      else case decode_field data s of
             None \<Rightarrow> None
           | Some (ok, rest, s') \<Rightarrow> if ok then Decode rest s' else Some (False, s'))"
  by pat_completeness auto
termination
  by (relation "measure (\<lambda>(data, s). length data)") (auto dest: decode_field_shorter)

declare Decode.simps [simp del]

section \<open>Encoder\<close>

fun lookup_static :: "int \<Rightarrow> (string \<times> string \<Rightarrow> bool) \<Rightarrow> (string \<times> string) list \<Rightarrow> int" where
  "lookup_static i hit [] = 0"
| "lookup_static i hit (e # es) = (if hit e then i + 1 else lookup_static (i + 1) hit es)"

definition LookupStatic :: "string \<Rightarrow> string \<Rightarrow> int" where
  "LookupStatic name val =
     lookup_static 0 (\<lambda>(n, v). name = n \<and> val = v) (zip kStaticNames kStaticValues)"

definition LookupStaticNameOnly :: "string \<Rightarrow> int" where
  "LookupStaticNameOnly name = lookup_static 0 (\<lambda>(n, v). name = n) (zip kStaticNames kStaticValues)"

text \<open>\<^verbatim>\<open>out.back() |= v\<close>, or a push onto an empty vector.\<close>

definition or_back :: "byte list \<Rightarrow> byte \<Rightarrow> byte list" where
  "or_back out v = (if out \<noteq> [] then butlast out @ [last out OR v] else [v])"

function encode_tail :: "u32 \<Rightarrow> byte list" where
  "encode_tail v =
     (if 128 \<le> v then ucast ((v AND 0x7f) OR 0x80) # encode_tail (drop_bit 7 v) else [ucast v])"
  by pat_completeness auto
termination
proof (relation "measure unat", goal_cases)
  case (2 v)
  then have "128 \<le> unat v"
    by (simp add: word_le_nat_alt)
  then show ?case
    by (simp add: unsigned_drop_bit_eq drop_bit_eq_div unat_div)
qed simp

declare encode_tail.simps [simp del]

definition EncodeInteger :: "byte list \<Rightarrow> u32 \<Rightarrow> nat \<Rightarrow> byte list" where
  "EncodeInteger out v prefix_bits =
     (let mask = ucast (push_bit prefix_bits (1 :: u32) - 1) :: byte
      in if v < ucast mask then or_back out (ucast v)
         else or_back out mask @ encode_tail (v - ucast mask))"

definition bytes :: "string \<Rightarrow> byte list" where
  "bytes s = map (\<lambda>c. of_nat (of_char c)) s"

definition EncodeString :: "byte list \<Rightarrow> string \<Rightarrow> byte list" where
  "EncodeString out str = EncodeInteger (out @ [0]) (of_nat (length str)) 7 @ bytes str"

definition encode_field :: "byte list \<Rightarrow> string \<Rightarrow> string \<Rightarrow> byte list" where
  "encode_field out name val =
     (let idx = LookupStatic name val
      in if 0 < idx then EncodeInteger (out @ [0x80]) (of_int idx) 7
         else let idx = LookupStaticNameOnly name;
                  out = (if 0 < idx then EncodeInteger (out @ [0x10]) (of_int idx) 4
                         else EncodeString (EncodeInteger (out @ [0x10]) 0 4) name)
              in EncodeString out val)"

definition Encode :: "(string \<times> string) list \<Rightarrow> byte list" where
  "Encode headers = foldl (\<lambda>out (name, val). encode_field out name val) [] headers"

section \<open>Integers\<close>

lemma numeral_masks:
  "(0x7f :: byte) = mask 7" "(0x7f :: u32) = mask 7" "(0x80 :: byte) = 2 ^ 7" "(0x80 :: u32) = 2 ^ 7"
  by (simp_all add: mask_eq_exp_minus_1)

lemma bit_80:
  "bit (0x80 :: byte) n \<longleftrightarrow> n = 7" "bit (0x80 :: u32) n \<longleftrightarrow> n = 7" "bit (0x80 :: int) n \<longleftrightarrow> n = 7"
proof -
  have "bit (2 ^ 7 :: byte) n \<longleftrightarrow> n = 7" "bit (2 ^ 7 :: u32) n \<longleftrightarrow> n = 7" "bit (2 ^ 7 :: int) n \<longleftrightarrow> n = 7"
    unfolding bit_exp_iff possible_bit_def by auto
  then show "bit (0x80 :: byte) n \<longleftrightarrow> n = 7" "bit (0x80 :: u32) n \<longleftrightarrow> n = 7" "bit (0x80 :: int) n \<longleftrightarrow> n = 7"
    by simp_all
qed

lemma prefix_mask: "p \<le> 8 \<Longrightarrow> (ucast (2 ^ p - 1 :: u32) :: byte) = mask p"
  unfolding mask_eq_exp_minus_1 [symmetric] by (rule bit_word_eqI) (auto simp: bit_simps)

lemma ucast_byte_inj: "(ucast (a :: byte) :: u32) = ucast b \<longleftrightarrow> a = b"
  by (metis unat_ucast_up(3) unsigned_word_eqI)

lemma DecodeInteger_Cons:
  "p \<le> 8 \<Longrightarrow> DecodeInteger p (d0 # rest) =
     (if take_bit p d0 = mask p then integer_loop 0 (ucast (mask p :: byte)) rest
      else Some (ucast (take_bit p d0), rest))"
  by (auto simp: DecodeInteger_def Let_def push_bit_of_1 prefix_mask take_bit_eq_mask ucast_byte_inj)

lemma ucast_low7:
  "(ucast (ucast ((v AND 0x7f) OR 0x80 :: u32) AND 0x7f :: byte) :: u32) = take_bit 7 v"
  unfolding numeral_masks by (rule bit_word_eqI) (auto simp: bit_simps bit_80)

lemma ucast_high_bit: "(ucast ((v AND 0x7f) OR 0x80 :: u32) :: byte) AND 0x80 \<noteq> 0"
proof -
  have "bit ((ucast ((v AND 0x7f) OR 0x80 :: u32) :: byte) AND 0x80) 7"
    unfolding numeral_masks by (auto simp: bit_simps bit_80)
  then show ?thesis
    by (metis bit_0_eq bot_apply bot_bool_def)
qed

lemma small_byte:
  assumes "(v :: u32) < 128"
  shows "(ucast v :: byte) AND 0x80 = 0" "(ucast (ucast v AND 0x7f :: byte) :: u32) = v"
proof -
  have "unat v < 2 ^ 7"
    using assms by (simp add: word_less_nat_alt)
  then have b: "bit v n \<Longrightarrow> n < 7" for n
    using bit_small by blast
  show "(ucast v :: byte) AND 0x80 = 0"
    unfolding numeral_masks by (rule bit_word_eqI) (auto simp: bit_simps bit_80 dest: b)
  show "(ucast (ucast v AND 0x7f :: byte) :: u32) = v"
    unfolding numeral_masks by (rule bit_word_eqI) (auto simp: bit_simps bit_80 dest: b)
qed

lemma integer_loop_tail:
  "unat v < 2 ^ (32 - m) \<Longrightarrow> m < 32 \<Longrightarrow>
     integer_loop m a (encode_tail v @ rest) = Some (a + push_bit m v, rest)"
proof (induction v arbitrary: m a rule: encode_tail.induct)
  case (1 v)
  show ?case
  proof (cases "128 \<le> v")
    case False
    then show ?thesis
      using "1.prems" small_byte [OF False [unfolded not_le]]
      by (subst encode_tail.simps) (simp add: Let_def)
  next
    case True
    then have big: "2 ^ 7 \<le> unat v"
      by (simp add: word_le_nat_alt)
    with "1.prems"(1) have "(2 :: nat) ^ 7 < 2 ^ (32 - m)"
      by linarith
    then have m: "7 < 32 - m"
      by (rule power_less_imp_less_exp [rotated]) simp
    then have "32 - m = (32 - (m + 7)) + 7"
      by linarith
    then have "(2 :: nat) ^ (32 - m) = 2 ^ (32 - (m + 7)) * 2 ^ 7"
      by (metis power_add)
    then have "unat (drop_bit 7 v) < 2 ^ (32 - (m + 7))"
      using "1.prems"(1) by (simp add: unsigned_drop_bit_eq drop_bit_eq_div div_less_iff_less_mult unat_div)
    then have IH: "integer_loop (m + 7) a' (encode_tail (drop_bit 7 v) @ rest) =
        Some (a' + push_bit (m + 7) (drop_bit 7 v), rest)" for a'
      using "1.IH" [OF True, of "m + 7" a'] m by simp
    have "push_bit m v = push_bit m (push_bit 7 (drop_bit 7 v) + take_bit 7 v)"
      by (simp only: bits_ident)
    then have "push_bit m (take_bit 7 v) + push_bit (m + 7) (drop_bit 7 v) = push_bit m v"
      by (simp only: push_bit_add push_bit_push_bit add.commute)
    then show ?thesis
      using IH True "1.prems"(2) ucast_high_bit [of v] ucast_low7 [of v]
      by (subst encode_tail.simps) (simp add: Let_def add.assoc)
  qed
qed


lemma or_back_snoc [simp]: "or_back (out @ [f]) v = out @ [f OR v]"
  by (simp add: or_back_def)

lemma ucast_mask_val: "p \<le> 8 \<Longrightarrow> unat (ucast (mask p :: byte) :: u32) = 2 ^ p - 1"
proof -
  assume "p \<le> 8"
  then have "unat (of_nat (mask p) :: byte) = mask p"
    by (simp add: unsigned_of_nat take_bit_of_mask min_def del: of_nat_mask_eq)
  then have "unat (mask p :: byte) = mask p"
    by (simp only: of_nat_mask_eq)
  then show ?thesis
    unfolding unat_ucast_up by (simp only: mask_eq_exp_minus_1)
qed

lemma integer_roundtrip:
  assumes p: "p \<le> 8" and f: "take_bit p f = 0"
  shows "\<exists>b bs. EncodeInteger (out @ [f]) v p = out @ b # bs
    \<and> (\<exists>x. b = f OR take_bit p x) \<and> DecodeInteger p (b # bs @ rest) = Some (v, rest)"
proof -
  let ?m = "mask p :: byte"
  have enc: "EncodeInteger (out @ [f]) v p =
      (if v < ucast ?m then out @ [f OR ucast v] else out @ (f OR ?m) # encode_tail (v - ucast ?m))"
    by (simp add: EncodeInteger_def Let_def push_bit_of_1 prefix_mask [OF p])
  show ?thesis
  proof (cases "v < ucast ?m")
    case True
    then have small: "unat v < 2 ^ p - 1"
      by (simp add: word_less_nat_alt ucast_mask_val [OF p])
    then have bits: "bit v n \<Longrightarrow> n < p" for n
      using bit_small [of v n p] by simp
    have low: "take_bit p (ucast v :: byte) = ucast v"
      by (rule bit_word_eqI) (auto simp: bit_simps dest: bits)
    have again: "ucast (ucast v :: byte) = v"
      using p by (intro bit_word_eqI) (auto simp: bit_simps dest: bits)
    have "(ucast v :: byte) \<noteq> ?m"
      using True again by auto
    then have "DecodeInteger p ((f OR ucast v) # rest) = Some (v, rest)"
      by (simp add: DecodeInteger_Cons [OF p] take_bit_or f low again)
    moreover have "f OR ucast v = f OR take_bit p (ucast v)"
      by (simp only: low)
    moreover have "EncodeInteger (out @ [f]) v p = out @ (f OR ucast v) # []"
      using True enc by simp
    ultimately show ?thesis
      by fastforce
  next
    case False
    then have "ucast ?m \<le> v"
      by simp
    then have "integer_loop 0 (ucast ?m) (encode_tail (v - ucast ?m) @ rest) = Some (v, rest)"
      using integer_loop_tail [of "v - ucast ?m" 0 "ucast ?m" rest] unat_u32_lt by simp
    then have "DecodeInteger p ((f OR ?m) # encode_tail (v - ucast ?m) @ rest) = Some (v, rest)"
      by (simp add: DecodeInteger_Cons [OF p] take_bit_or f)
    moreover have "f OR ?m = f OR take_bit p (- 1)"
      by simp
    moreover have "EncodeInteger (out @ [f]) v p = out @ (f OR ?m) # encode_tail (v - ucast ?m)"
      using False enc by simp
    ultimately show ?thesis
      by blast
  qed
qed


section \<open>Dynamic table\<close>

definition table_size :: "(string \<times> string) list \<Rightarrow> nat" where
  "table_size tab = sum_list (map (\<lambda>(n, v). EntryOverhead n v) tab)"

definition hpack_inv :: "HpackDecoder \<Rightarrow> bool" where
  "hpack_inv d \<longleftrightarrow>
     unat (current_table_size d) = table_size (dynamic_table d)
     \<and> table_size (dynamic_table d) \<le> unat (max_table_size d)"

lemma hpack_inv_new: "hpack_inv new_hpack_decoder"
  by (simp add: hpack_inv_def new_hpack_decoder_def table_size_def)

lemma table_size_snoc: "table_size (tab @ [(n, v)]) = table_size tab + EntryOverhead n v"
  by (simp add: table_size_def)

lemma table_size_Cons: "table_size ((n, v) # tab) = EntryOverhead n v + table_size tab"
  by (simp add: table_size_def)

lemma evict_loop_spec:
  "unat cur = table_size tab \<Longrightarrow> evict_loop target cur tab = (cur', tab') \<Longrightarrow>
     unat cur' = table_size tab' \<and> table_size tab' \<le> unat target \<and> (\<exists>k. tab' = take k tab)"
proof (induction target cur tab arbitrary: cur' tab' rule: evict_loop.induct)
  case (1 target cur tab)
  show ?case
  proof (cases "target < cur \<and> tab \<noteq> []")
    case False
    then have "cur' = cur" "tab' = tab"
      using "1.prems"(2) by (simp_all add: evict_loop.simps [of target cur tab] split: if_splits)
    moreover have "table_size tab \<le> unat target"
      using False "1.prems"(1) by (auto simp: word_less_nat_alt table_size_def)
    ultimately show ?thesis
      using "1.prems"(1) by (metis order_refl take_all)
  next
    case True
    then obtain init n v where tab: "tab = init @ [(n, v)]"
      by (metis append_butlast_last_id surj_pair)
    let ?cur = "cur - of_nat (EntryOverhead n v)"
    have sz: "unat cur = table_size init + EntryOverhead n v"
      using "1.prems"(1) tab by (simp add: table_size_snoc)
    then have "unat (of_nat (EntryOverhead n v) :: u32) = EntryOverhead n v"
      using unat_u32_lt [of cur] by (simp add: unsigned_of_nat take_bit_nat_eq_self_iff)
    then have "unat ?cur = table_size init"
      using sz by (simp add: unat_sub word_le_nat_alt)
    moreover have "evict_loop target ?cur init = (cur', tab')"
      using "1.prems"(2) True tab by (simp add: evict_loop.simps [of target cur "init @ [(n, v)]"])
    ultimately have "unat cur' = table_size tab' \<and> table_size tab' \<le> unat target \<and> (\<exists>k. tab' = take k init)"
      using "1.IH" [OF True, of cur' tab'] unfolding tab
      by (simp only: last_snoc butlast_snoc fst_conv snd_conv)
    moreover have "take k init = take (min k (length init)) tab" for k
      by (simp add: tab min_def)
    ultimately show ?thesis
      by metis
  qed
qed

lemma EvictTo_spec:
  assumes "unat (current_table_size d) = table_size (dynamic_table d)"
  shows "unat (current_table_size (EvictTo t d)) = table_size (dynamic_table (EvictTo t d))"
    and "table_size (dynamic_table (EvictTo t d)) \<le> unat t"
    and "max_table_size (EvictTo t d) = max_table_size d"
    and "\<exists>k. dynamic_table (EvictTo t d) = take k (dynamic_table d)"
  using evict_loop_spec [OF assms, of t] by (auto simp: EvictTo_def split: prod.splits)

lemma SetMaxTableSize_inv: "hpack_inv d \<Longrightarrow> hpack_inv (SetMaxTableSize sz d)"
  using EvictTo_spec [of "d\<lparr> max_table_size := sz \<rparr>" sz] by (simp add: hpack_inv_def SetMaxTableSize_def)

lemma insert_field_inv:
  assumes inv: "hpack_inv d" and ins: "insert_field i name val d = Some d'"
  shows "hpack_inv d'" and "EntryOverhead name val \<le> unat (max_table_size d) \<Longrightarrow>
           hd (dynamic_table d') = (name, val) \<and> dynamic_table d' \<noteq> []"
    and "unat (max_table_size d) < EntryOverhead name val \<Longrightarrow> dynamic_table d' = []"
    and "max_table_size d' = max_table_size d"
proof -
  define e m where "e = EntryOverhead name val" and "m = unat (max_table_size d)"
  define d1 where "d1 = EvictTo (of_nat (m - min e m)) d"
  have m: "m < 2 ^ 32"
    using unat_u32_lt by (simp add: m_def)
  then have t: "unat (of_nat (m - min e m) :: u32) = m - min e m"
    by (intro unat_of_nat_u32) linarith
  have "unat (current_table_size d) = table_size (dynamic_table d)"
    using inv by (simp add: hpack_inv_def)
  note ev = EvictTo_spec [OF this, of "of_nat (m - min e m)", folded d1_def, unfolded t]
  have res: "d' = (if e \<le> m then d1\<lparr> dynamic_table := (name, val) # dynamic_table d1,
      current_table_size := current_table_size d1 + of_nat e \<rparr> else d1)"
    using ins by (auto simp: insert_field_def Let_def e_def m_def d1_def split: if_splits)
  have "unat (current_table_size d1 + of_nat e) = table_size (dynamic_table d1) + e" if "e \<le> m"
    using ev(1,2) that m by (subst unat_add_of_nat) simp_all
  then show "hpack_inv d'"
    using res ev(1,2,3) by (auto simp: hpack_inv_def table_size_Cons e_def m_def)
  show "EntryOverhead name val \<le> unat (max_table_size d) \<Longrightarrow>
      hd (dynamic_table d') = (name, val) \<and> dynamic_table d' \<noteq> []"
    using res by (simp add: e_def m_def)
  show "unat (max_table_size d) < EntryOverhead name val \<Longrightarrow> dynamic_table d' = []"
    using res ev(2)
    by (cases "dynamic_table d1") (auto simp: e_def m_def table_size_def EntryOverhead_def)
  show "max_table_size d' = max_table_size d"
    using res ev(3) by simp
qed

section \<open>Decoding keeps the tables and the region consistent\<close>

lemma huffman_loop_length:
  "length (huffman_loop buf bits data result) \<le> length result + 8 * length data + bits"
proof (induction buf bits data result rule: huffman_loop.induct)
  case (1 buf bits data result)
  obtain buf' bits' data' where f: "fill_window buf bits data = (buf', bits', data')"
    by (metis prod_cases3)
  show ?case
  proof (cases "match_symbol buf' bits' 0 kHuffTable")
    case None
    then show ?thesis
      by (subst huffman_loop.simps) (simp add: f)
  next
    case (Some hit)
    then obtain sy len where hit: "match_symbol buf' bits' 0 kHuffTable = Some (sy, len)"
      by (cases hit) auto
    have "length (huffman_loop buf bits data result) \<le> Suc (length result) + 8 * length data' + (bits' - len)"
      using "1.IH" [OF f [symmetric] refl refl hit refl] hit
      by (subst huffman_loop.simps) (simp add: f)
    then show ?thesis
      using match_symbol_len [OF hit] fill_window_size [OF f] by linarith
  qed
qed

lemma HuffmanDecode_length: "length (HuffmanDecode data) \<le> 8 * length data"
  using huffman_loop_length [of 0 0 data "[]"] by (simp add: HuffmanDecode_def)

lemma dup_text_DupOff:
  "dup_text s st = (t, st') \<Longrightarrow> \<exists>ro. DupOff s st = (ro, st')"
  by (auto simp: dup_text_def DupOff_def split: prod.splits option.splits)

lemma dup_text_inv:
  assumes "ctx_inv others (st, c)" and "length s < 2 ^ 63" and "dup_text s st = (t, st')"
  shows "ctx_inv others (st', c)" and "request_of (st', c) = request_of (st, c)"
    and "t = s \<or> t = []" and "region_keeps others st st'"
proof -
  obtain ro where d: "DupOff s st = (ro, st')"
    using dup_text_DupOff [OF assms(3)] by blast
  show "region_keeps others st st'"
    using DupOff_spec(2) [OF _ assms(2) d] assms(1) by (simp add: ctx_inv_def)
  show "ctx_inv others (st', c)" "request_of (st', c) = request_of (st, c)"
    using ctx_dup(1) [OF assms(1,2) d] request_of_dup [OF assms(1,2) d] .
  show "t = s \<or> t = []"
    using assms(3) by (auto simp: dup_text_def split: prod.splits option.splits)
qed

lemma DecodeString_cases:
  assumes "DecodeString data st = Some (t, rest, st')"
  shows "t = [] \<and> st' = st \<or> (\<exists>s. dup_text s st = (t, st') \<and> length s \<le> 8 * length data)"
proof (cases data)
  case Nil
  then show ?thesis
    using assms by (simp add: DecodeString_def)
next
  case (Cons d0 ds)
  then obtain v r where di: "DecodeInteger 7 data = Some (v, r)"
    using assms by (auto simp: DecodeString_def split: option.splits)
  have short: "length r \<le> length data"
    using DecodeInteger_shorter [OF di] Cons by simp
  have "length (HuffmanDecode (take n r)) \<le> 8 * length data" "length (chars (take n r)) \<le> 8 * length data" for n
    using HuffmanDecode_length [of "take n r"] short by simp_all
  then show ?thesis
    using assms di unfolding Cons
    by (auto simp: DecodeString_def Let_def simp del: length_chars split: prod.splits if_splits)
qed

lemma DecodeString_spec:
  assumes inv: "ctx_inv others (st, c)" and len: "length data < 2 ^ 60"
    and dec: "DecodeString data st = Some (t, rest, st')"
  shows "ctx_inv others (st', c)" and "request_of (st', c) = request_of (st, c)"
    and "length t < 2 ^ 63" and "region_keeps others st st'"
proof -
  have "ctx_inv others (st', c) \<and> request_of (st', c) = request_of (st, c) \<and> length t < 2 ^ 63
      \<and> region_keeps others st st'"
    using DecodeString_cases [OF dec]
  proof
    assume "t = [] \<and> st' = st"
    then show ?thesis
      using inv region_keeps_refl by simp
  next
    assume "\<exists>s. dup_text s st = (t, st') \<and> length s \<le> 8 * length data"
    then obtain s where s: "dup_text s st = (t, st')" "length s < 2 ^ 63"
      using len by auto
    then show ?thesis
      using dup_text_inv [OF inv s(2,1)] by auto
  qed
  then show "ctx_inv others (st', c)" "request_of (st', c) = request_of (st, c)" "length t < 2 ^ 63"
    "region_keeps others st st'"
    by blast+
qed

definition hpack_ok :: "FreeSlot list \<Rightarrow> hpack_state \<Rightarrow> bool" where
  "hpack_ok others s \<longleftrightarrow> hpack_inv (fst s) \<and> ctx_inv others (snd s)"

text \<open>A step of the decoder keeps the state consistent and the text stored before.\<close>

definition hpack_step :: "FreeSlot list \<Rightarrow> hpack_state \<Rightarrow> hpack_state \<Rightarrow> bool" where
  "hpack_step others s s' \<longleftrightarrow> hpack_ok others s' \<and> region_keeps others (fst (snd s)) (fst (snd s'))"

lemma hpack_step_refl: "hpack_ok others s \<Longrightarrow> hpack_step others s s"
  by (simp add: hpack_step_def region_keeps_refl)

lemma hpack_step_trans: "hpack_step others s s1 \<Longrightarrow> hpack_step others s1 s2 \<Longrightarrow> hpack_step others s s2"
  unfolding hpack_step_def by (blast intro: region_keeps_trans)

lemma table_entry_bound: "(n, v) \<in> set tab \<Longrightarrow> EntryOverhead n v \<le> table_size tab"
  by (induction tab) (auto simp: table_size_def)

lemma static_name_bound: "length (StaticName i) < 64" "length (StaticValue i) < 64"
proof -
  have "list_all (\<lambda>s. length s < 64) kStaticNames" "length kStaticNames = 61"
    "list_all (\<lambda>s. length s < 64) kStaticValues" "length kStaticValues = 61"
    by (simp_all add: kStaticNames_def kStaticValues_def)
  then show "length (StaticName i) < 64" "length (StaticValue i) < 64"
    by (auto simp: StaticName_def StaticValue_def list_all_length)
qed

lemma Lookup_bound:
  assumes "hpack_inv d" and "Lookup i d = (n, v)"
  shows "length n < 2 ^ 63 \<and> length v < 2 ^ 63"
proof (cases "1 \<le> i \<and> i \<le> 61")
  case True
  then have "n = StaticName i" "v = StaticValue i"
    using assms(2) by (auto simp: Lookup_def)
  then show ?thesis
    using static_name_bound [of i] by auto
next
  case False
  have hit: "dynamic_table d ! nat (i - 62) \<in> set (dynamic_table d)"
    if "0 \<le> i - 62" "i - 62 < int (length (dynamic_table d))"
    using that by (intro nth_mem) linarith
  consider "n = [] \<and> v = []" | "(n, v) \<in> set (dynamic_table d)"
    using assms(2) False hit unfolding Lookup_def Let_def by (metis prod.inject)
  then show ?thesis
  proof cases
    case 2
    then have "length n + length v \<le> unat (max_table_size d)"
      using table_entry_bound [OF 2] assms(1) by (simp add: hpack_inv_def EntryOverhead_def)
    then show ?thesis
      using unat_u32_lt [of "max_table_size d"] by simp
  qed simp
qed

lemma add_field_ok:
  "hpack_ok others s \<Longrightarrow> length n < 2 ^ 63 \<Longrightarrow> length v < 2 ^ 63 \<Longrightarrow> hpack_step others s (add_field n v s)"
  using AddHeader_inv [of others "snd s" n v] AddHeader_keeps [of others "snd s" n v]
  by (cases s) (simp add: hpack_ok_def hpack_step_def add_field_def)

lemma literal_name_ok:
  assumes ok: "hpack_ok others s" and len: "length data < 2 ^ 60" "data \<noteq> []"
    and lit: "literal_name p data s = Some (name, i, rest, s')"
  shows "hpack_step others s s' \<and> (\<forall>n. name = Some n \<longrightarrow> length n < 2 ^ 63) \<and> length rest < 2 ^ 60"
proof -
  obtain d st c where s: "s = (d, st, c)"
    by (cases s)
  obtain idx r where di: "DecodeInteger p data = Some (idx, r)"
    using lit by (auto simp: literal_name_def s split: option.splits)
  have r: "length r < 2 ^ 60"
    using DecodeInteger_shorter [OF di len(2)] len(1) by simp
  have inv: "ctx_inv others (st, c)" "hpack_inv d"
    using ok by (simp_all add: hpack_ok_def s)
  show ?thesis
  proof (cases "idx = 0")
    case True
    obtain t rest' st' where ds: "DecodeString r st = Some (t, rest', st')"
      using lit True di by (auto simp: literal_name_def s split: option.splits)
    show ?thesis
      using lit True di ds DecodeString_spec [OF inv(1) r ds] DecodeString_shorter [OF ds] r inv(2)
      by (auto simp: literal_name_def s hpack_ok_def hpack_step_def split: if_splits)
  next
    case False
    then show ?thesis
      using lit di Lookup_bound [OF inv(2), of "sint idx"] ok r
      by (cases "Lookup (sint idx) d") (auto simp: literal_name_def s Let_def hpack_step_def region_keeps_refl split: if_splits)
  qed
qed

lemma literal_field_ok:
  assumes ok: "hpack_ok others s" and len: "length data < 2 ^ 60" "data \<noteq> []"
    and lit: "literal_field p i data s = Some (b, rest, s')"
  shows "hpack_step others s s'"
proof -
  obtain name idx r s1 where ln: "literal_name p data s = Some (name, idx, r, s1)"
    using lit by (auto simp: literal_field_def split: option.splits)
  note one = literal_name_ok [OF ok len ln]
  show ?thesis
  proof (cases name)
    case None
    then show ?thesis
      using lit ln one by (simp add: literal_field_def)
  next
    case (Some n)
    obtain d st c where s1: "s1 = (d, st, c)"
      by (cases s1)
    obtain v r' st' where ds: "DecodeString r st = Some (v, r', st')"
      using lit ln Some by (auto simp: literal_field_def literal_value_def s1 split: option.splits)
    have inv: "ctx_inv others (st, c)" "hpack_inv d"
      using one by (simp_all add: hpack_ok_def hpack_step_def s1)
    note two = DecodeString_spec [OF inv(1) _ ds]
    have "hpack_step others s1 (d, st', c)"
      using two one inv(2) by (simp add: hpack_ok_def hpack_step_def s1)
    moreover from this have "hpack_step others (d, st', c) (add_field n v (d, st', c))"
      using one two Some by (intro add_field_ok) (auto simp: hpack_step_def)
    ultimately have three: "hpack_step others s (add_field n v (d, st', c))"
      using one hpack_step_trans by blast
    then show ?thesis
      using lit ln Some ds insert_field_inv(1) [of d idx n v]
      by (auto simp: literal_field_def literal_value_def s1 hpack_ok_def hpack_step_def add_field_def Let_def
          split: if_splits option.splits)
  qed
qed

lemma decode_field_ok:
  assumes ok: "hpack_ok others s" and len: "length data < 2 ^ 60" "data \<noteq> []"
    and dec: "decode_field data s = Some (b, rest, s')"
  shows "hpack_step others s s'"
proof -
  have lit: "literal_field p i data s = Some (b, rest, s') \<Longrightarrow> ?thesis" for p i
    using literal_field_ok [OF ok len] .
  have upd: "hpack_step others s ((EvictTo v (fst s))\<lparr> max_table_size := v \<rparr>, snd s)" for v
    using ok EvictTo_spec [of "fst s" v]
    by (simp add: hpack_ok_def hpack_step_def hpack_inv_def region_keeps_refl)
  have idx: "hpack_step others s (add_field n v s)" if "Lookup j (fst s) = (n, v)" for j n v
    using add_field_ok [OF ok] Lookup_bound [OF _ that] ok by (simp add: hpack_ok_def)
  show ?thesis
    using dec lit upd idx hpack_step_refl [OF ok]
    by (auto simp: decode_field_def Let_def split: if_splits option.splits prod.splits)
qed

lemma Decode_ok:
  "hpack_ok others s \<Longrightarrow> length data < 2 ^ 60 \<Longrightarrow> Decode data s = Some (b, s') \<Longrightarrow> hpack_step others s s'"
proof (induction data s rule: Decode.induct)
  case (1 data s)
  show ?case
  proof (cases "data = []")
    case True
    then show ?thesis
      using "1.prems" hpack_step_refl by (simp add: Decode.simps)
  next
    case False
    then obtain ok rest s1 where f: "decode_field data s = Some (ok, rest, s1)"
      using "1.prems"(3) by (auto simp: Decode.simps [of data] split: option.splits)
    note step = decode_field_ok [OF "1.prems"(1,2) False f]
    show ?thesis
    proof (cases ok)
      case True
      have short: "length rest < 2 ^ 60"
        using decode_field_shorter [of data s rest s1] f True False "1.prems"(2) by simp
      have "Decode rest s1 = Some (b, s')"
        using "1.prems"(3) False f True by (simp add: Decode.simps [of data])
      then show ?thesis
        using "1.IH" [OF False f refl refl True] step short hpack_step_trans
        unfolding hpack_step_def by blast
    next
      case False
      then show ?thesis
        using "1.prems"(3) f step \<open>data \<noteq> []\<close> by (simp add: Decode.simps [of data])
    qed
  qed
qed

section \<open>Encoding and decoding\<close>

lemma chars_bytes [simp]: "chars (bytes s) = s"
proof -
  have "char_of (unat (of_nat (of_char c) :: byte)) = c" for c
    by (simp add: unsigned_of_nat char_of_take_bit_eq)
  then show ?thesis
    by (simp add: chars_def bytes_def o_def)
qed

lemma length_bytes [simp]: "length (bytes s) = length s"
  by (simp add: bytes_def)

lemma lookup_static_hit:
  "lookup_static i hit es = j \<Longrightarrow> j \<noteq> 0 \<Longrightarrow> 0 \<le> i \<Longrightarrow>
     i < j \<and> j \<le> i + int (length es) \<and> hit (es ! nat (j - i - 1))"
proof (induction i hit es rule: lookup_static.induct)
  case (2 i hit e es)
  show ?case
  proof (cases "hit e")
    case False
    then have ih: "i + 1 < j \<and> j \<le> i + 1 + int (length es) \<and> hit (es ! nat (j - (i + 1) - 1))"
      using 2 by simp
    then have "nat (j - i - 1) = Suc (nat (j - (i + 1) - 1))"
      by linarith
    then show ?thesis
      using ih by simp
  qed (use 2 in auto)
qed simp

lemma static_tables: "length kStaticNames = 61" "length kStaticValues = 61" "[] \<notin> set kStaticNames"
  by (simp_all add: kStaticNames_def kStaticValues_def)

lemma LookupStatic_hit:
  assumes "0 < LookupStatic n v"
  shows "1 \<le> LookupStatic n v" "LookupStatic n v \<le> 61" "Lookup (LookupStatic n v) d = (n, v)" "n \<noteq> []"
proof -
  let ?j = "LookupStatic n v"
  have hit: "0 < ?j" "?j \<le> 61"
    and e: "case zip kStaticNames kStaticValues ! nat (?j - 1) of (n', v') \<Rightarrow> n = n' \<and> v = v'"
    using lookup_static_hit [of 0 "\<lambda>(n', v'). n = n' \<and> v = v'" "zip kStaticNames kStaticValues" ?j] assms
    by (simp_all add: LookupStatic_def static_tables)
  have idx: "nat (?j - 1) < 61"
    using hit by linarith
  then have nv: "n = kStaticNames ! nat (?j - 1)" "v = kStaticValues ! nat (?j - 1)"
    using e by (simp_all add: static_tables)
  then show "1 \<le> ?j" "?j \<le> 61" "Lookup ?j d = (n, v)"
    using hit by (simp_all add: Lookup_def StaticName_def StaticValue_def)
  show "n \<noteq> []"
    using nv(1) nth_mem [of "nat (?j - 1)" kStaticNames] idx static_tables by metis
qed

lemma LookupStaticNameOnly_hit:
  assumes "0 < LookupStaticNameOnly n"
  shows "1 \<le> LookupStaticNameOnly n" "LookupStaticNameOnly n \<le> 61"
    "fst (Lookup (LookupStaticNameOnly n) d) = n"
proof -
  let ?j = "LookupStaticNameOnly n"
  have hit: "0 < ?j" "?j \<le> 61"
    and e: "case zip kStaticNames kStaticValues ! nat (?j - 1) of (n', v') \<Rightarrow> n = n'"
    using lookup_static_hit [of 0 "\<lambda>(n', v'). n = n'" "zip kStaticNames kStaticValues" ?j] assms
    by (simp_all add: LookupStaticNameOnly_def static_tables)
  have "nat (?j - 1) < 61"
    using hit by linarith
  then show "1 \<le> ?j" "?j \<le> 61" "fst (Lookup ?j d) = n"
    using e hit by (simp_all add: static_tables Lookup_def StaticName_def)
qed

lemma sint_small_index: "1 \<le> j \<Longrightarrow> j \<le> 61 \<Longrightarrow> sint (of_int j :: u32) = j \<and> (of_int j :: u32) \<noteq> 0"
proof -
  assume j: "1 \<le> j" "j \<le> 61"
  then have "nat j < 2 ^ 32"
    by simp
  then have "unat (of_nat (nat j) :: u32) = nat j"
    by (rule unat_of_nat_u32)
  then have "unat (of_int j :: u32) = nat j"
    using j by (simp add: of_nat_nat)
  then show ?thesis
    using sint_eq_unat_small [of "of_int j"] j by auto
qed

text \<open>Room for a field: its text is stored once by the decoder and once by the context.\<close>

definition field_room :: "string \<times> string \<Rightarrow> nat" where
  "field_room h = 2 * (align8 (length (fst h)) + align8 (length (snd h)))"

lemma dup_text_room:
  assumes "ctx_inv others (st, c)" and "length s < 2 ^ 63" and "room (align8 (length s) + k) st"
    and "dup_text s st = (t, st')"
  shows "t = s" and "room k st'"
proof -
  have rinv: "region_inv others st"
    using assms(1) by (simp add: ctx_inv_def)
  obtain ro where d: "DupOff s st = (ro, st')"
    using dup_text_DupOff [OF assms(4)] by blast
  note r = DupOff_room [OF rinv assms(2,3) d]
  show "room k st'"
    by (rule r)
  show "t = s"
    using Alloc_room [OF rinv _ assms(2,3)] assms(4)
    by (cases "s = []") (auto simp: dup_text_def Dup_def split: prod.splits option.splits)
qed

lemma EncodeString_decode:
  assumes inv: "ctx_inv others (st, c)" and len: "length s < 2 ^ 32"
    and room: "room (align8 (length s) + k) st"
  shows "\<exists>bs. EncodeString out s = out @ bs \<and> bs \<noteq> []
    \<and> (\<exists>st'. DecodeString (bs @ rest) st = Some (s, rest, st')
         \<and> ctx_inv others (st', c) \<and> request_of (st', c) = request_of (st, c) \<and> room k st')"
proof -
  obtain b bs x where enc: "EncodeInteger (out @ [0]) (of_nat (length s)) 7 = out @ b # bs"
    and b: "b = 0 OR take_bit 7 x"
    and dec: "DecodeInteger 7 (b # bs @ (bytes s @ rest)) = Some (of_nat (length s), bytes s @ rest)"
    using integer_roundtrip [of 7 0 out "of_nat (length s)" "bytes s @ rest"] by auto
  have "b AND 0x80 = 0"
    unfolding b numeral_masks by (rule bit_word_eqI) (auto simp: bit_simps bit_80)
  obtain t st' where dup: "dup_text s st = (t, st')"
    by (cases "dup_text s st")
  have len63: "length s < 2 ^ 63"
    using len by simp
  note dr = dup_text_room [OF inv len63 room dup] and di = dup_text_inv [OF inv len63 dup]
  have "DecodeString ((b # bs @ bytes s) @ rest) st = Some (s, rest, st')"
    using dec \<open>b AND 0x80 = 0\<close> dup dr unat_of_nat_u32 [OF len]
    by (simp add: DecodeString_def)
  moreover have "EncodeString out s = out @ (b # bs @ bytes s)"
    by (simp add: EncodeString_def enc)
  ultimately show ?thesis
    using di dr by blast
qed

lemma EncodeInteger_append: "EncodeInteger (out @ [f]) v p = out @ EncodeInteger [f] v p"
  using or_back_snoc [of "[]" f] by (simp add: EncodeInteger_def Let_def)

lemma EncodeInteger_nonempty: "EncodeInteger [f] v p \<noteq> []"
  using or_back_snoc [of "[]" f] by (simp add: EncodeInteger_def Let_def)

lemma EncodeString_append: "EncodeString out s = out @ EncodeString [] s"
  using EncodeInteger_append [of out 0] by (simp add: EncodeString_def)

lemma encode_field_append: "encode_field out n v = out @ encode_field [] n v"
proof -
  have "EncodeString (EncodeInteger (out @ [f]) x p) t = out @ EncodeString (EncodeInteger [f] x p) t" for f x p t
    by (subst (1 2) EncodeString_append) (simp add: EncodeInteger_append [of out])
  moreover have "EncodeString (EncodeString (EncodeInteger (out @ [f]) x p) t) u =
      out @ EncodeString (EncodeString (EncodeInteger [f] x p) t) u" for f x p t u
    by (subst (1 2 3 4) EncodeString_append) (simp add: EncodeInteger_append [of out])
  ultimately show ?thesis
    by (simp add: encode_field_def Let_def EncodeInteger_append [of out])
qed

lemma Encode_concat: "Encode hs = concat (map (\<lambda>(n, v). encode_field [] n v) hs)"
proof -
  have "foldl (\<lambda>out (name, val). encode_field out name val) out hs =
      out @ concat (map (\<lambda>(n, v). encode_field [] n v) hs)" for out
  proof (induction hs arbitrary: out)
    case (Cons h hs)
    obtain n v where h: "h = (n, v)"
      by (cases h)
    have "foldl (\<lambda>out (name, val). encode_field out name val) out (h # hs) =
        encode_field out n v @ concat (map (\<lambda>(n, v). encode_field [] n v) hs)"
      using Cons.IH [of "encode_field out n v"] by (simp add: h)
    then show ?case
      by (simp add: h encode_field_append [of out])
  qed simp
  then show ?thesis
    by (simp add: Encode_def)
qed

lemma head_10:
  fixes x :: byte
  defines "b \<equiv> 0x10 OR take_bit 4 x"
  shows "b AND 0x80 = 0" "b AND 0xC0 \<noteq> 0x40" "b AND 0xE0 \<noteq> 0x20" "b AND 0xF0 = 0x10"
proof -
  have "take_bit 4 x = x AND 0x0F"
    by (simp add: take_bit_eq_mask mask_eq_exp_minus_1)
  then have b: "b = 0x10 OR (x AND 0x0F)"
    by (simp add: b_def)
  show "b AND 0x80 = 0" "b AND 0xC0 \<noteq> 0x40" "b AND 0xE0 \<noteq> 0x20" "b AND 0xF0 = 0x10"
    by (simp_all add: b bit.conj_disj_distrib2 and.assoc)
qed

lemma head_80: "(0x80 OR x) AND 0x80 \<noteq> (0 :: byte)"
proof -
  have "(0x80 OR x) AND 0x80 = (0x80 :: byte)"
    by (simp add: bit.conj_disj_distrib2)
  then show ?thesis
    by simp
qed

lemma decode_field_literal10:
  "b = 0x10 OR take_bit 4 x \<Longrightarrow> decode_field (b # bs) s = literal_field 4 False (b # bs) s"
  using head_10 [of x] by (simp add: decode_field_def)

lemma encode_decode_field:
  assumes inv: "ctx_inv others (st, c)" and len: "length n < 2 ^ 32" "length v < 2 ^ 32" and n: "n \<noteq> []"
    and room: "room (field_room (n, v) + k) st"
  shows "encode_field [] n v \<noteq> [] \<and> (\<exists>st' c'. decode_field (encode_field [] n v @ rest) (d, (st, c)) =
      Some (True, rest, (d, (st', c'))) \<and> ctx_inv others (st', c')
      \<and> request_of (st', c') = add_header n v (request_of (st, c)) \<and> room k st')"
proof -
  let ?A = "align8 (length n)" and ?B = "align8 (length v)"
  have len63: "length n < 2 ^ 63" "length v < 2 ^ 63"
    using len by simp_all
  have add: "\<exists>st' c'. AddHeader n v (st1, c) = (st', c') \<and> ctx_inv others (st', c')
      \<and> request_of (st', c') = add_header n v (request_of (st, c)) \<and> room k st'"
    if "ctx_inv others (st1, c)" "request_of (st1, c) = request_of (st, c)" "room (?A + (?B + k)) st1" for st1
    using AddHeader_inv [OF that(1) len63] AddHeader_refines [OF that(1) len63]
      AddHeader_room [OF that(1) len63, of k] that(2,3) room_mono [of "?A + (?B + k)" st1 "?A + ?B"]
    by (cases "AddHeader n v (st1, c)") auto
  have fr: "field_room (n, v) + k = ?A + (?B + (?A + (?B + k)))"
    by (simp add: field_room_def)
  have room0: "room (?A + (?B + k)) st" "room (?B + (?A + (?B + k))) st"
    using room unfolding fr by (auto intro: room_mono)
  show ?thesis
  proof (cases "0 < LookupStatic n v")
    case True
    note hit = LookupStatic_hit [OF True]
    obtain b bs x where enc: "EncodeInteger ([] @ [0x80]) (of_int (LookupStatic n v)) 7 = [] @ b # bs"
      and b: "b = 0x80 OR take_bit 7 x"
      and dec: "DecodeInteger 7 (b # bs @ rest) = Some (of_int (LookupStatic n v), rest)"
      using integer_roundtrip [of 7 "0x80" "[]" "of_int (LookupStatic n v)" rest] by auto
    have "encode_field [] n v = b # bs"
      using True enc by (simp add: encode_field_def)
    moreover have "decode_field (b # bs @ rest) (d, (st, c)) = Some (True, rest, (d, AddHeader n v (st, c)))"
      using dec head_80 b hit(3,4) sint_small_index [OF hit(1,2)]
      by (simp add: decode_field_def add_field_def)
    ultimately show ?thesis
      using add [OF inv refl room0(1)] by auto
  next
    case no_pair: False
    show ?thesis
    proof (cases "0 < LookupStaticNameOnly n")
      case True
      let ?j = "of_int (LookupStaticNameOnly n) :: u32"
      note hit = LookupStaticNameOnly_hit [OF True]
      obtain vb st1 where vb: "EncodeString [] v = vb" "DecodeString (vb @ rest) st = Some (v, rest, st1)"
          "ctx_inv others (st1, c)" "request_of (st1, c) = request_of (st, c)" "room (?A + (?B + k)) st1"
        using EncodeString_decode [OF inv len(2) room0(2), of "[]" rest] by auto
      obtain b bs x where enc: "EncodeInteger ([] @ [0x10]) ?j 4 = [] @ b # bs"
        and b: "b = 0x10 OR take_bit 4 x"
        and dec: "DecodeInteger 4 (b # bs @ (vb @ rest)) = Some (?j, vb @ rest)"
        using integer_roundtrip [of 4 "0x10" "[]" ?j "vb @ rest"] by auto
      have "encode_field [] n v = b # bs @ vb"
        using no_pair True enc vb(1) EncodeString_append [of "b # bs" v] by (simp add: encode_field_def)
      moreover have "decode_field (b # bs @ vb @ rest) (d, (st, c)) =
          Some (True, rest, (d, AddHeader n v (st1, c)))"
        using dec vb(2) hit(3) n sint_small_index [OF hit(1,2)]
        by (simp add: decode_field_literal10 [OF b] literal_field_def literal_name_def
            literal_value_def add_field_def)
      ultimately show ?thesis
        using add [OF vb(3,4,5)] by auto
    next
      case False
      have room1: "room (?A + (?B + (?A + (?B + k)))) st"
        using room unfolding fr .
      obtain nb st1 where nb: "EncodeString [] n = nb"
          "DecodeString (nb @ (EncodeString [] v @ rest)) st = Some (n, EncodeString [] v @ rest, st1)"
          "ctx_inv others (st1, c)" "request_of (st1, c) = request_of (st, c)"
          "room (?B + (?A + (?B + k))) st1"
        using EncodeString_decode [OF inv len(1) room1, of "[]" "EncodeString [] v @ rest"] by auto
      obtain vb st2 where vb: "EncodeString [] v = vb" "DecodeString (vb @ rest) st1 = Some (v, rest, st2)"
          "ctx_inv others (st2, c)" "request_of (st2, c) = request_of (st1, c)" "room (?A + (?B + k)) st2"
        using EncodeString_decode [OF nb(3) len(2) nb(5), of "[]" rest] by auto
      obtain b bs x where enc: "EncodeInteger ([] @ [0x10]) 0 4 = [] @ b # bs"
        and b: "b = 0x10 OR take_bit 4 x"
        and dec: "DecodeInteger 4 (b # bs @ (nb @ (vb @ rest))) = Some (0, nb @ (vb @ rest))"
        using integer_roundtrip [of 4 "0x10" "[]" 0 "nb @ (vb @ rest)"] by auto
      have "encode_field [] n v = b # bs @ nb @ vb"
        using no_pair False enc nb(1) vb(1) EncodeString_append [of "b # bs" n]
          EncodeString_append [of "b # bs @ nb" v]
        by (simp add: encode_field_def)
      moreover have "decode_field (b # bs @ nb @ vb @ rest) (d, (st, c)) =
          Some (True, rest, (d, AddHeader n v (st2, c)))"
        using dec nb(2) vb(1,2) n
        by (simp add: decode_field_literal10 [OF b] literal_field_def literal_name_def
            literal_value_def add_field_def)
      ultimately show ?thesis
        using add [OF vb(3) _ vb(5)] vb(4) nb(4) by auto
    qed
  qed
qed

definition valid_field :: "string \<times> string \<Rightarrow> bool" where
  "valid_field h \<longleftrightarrow> fst h \<noteq> [] \<and> length (fst h) < 2 ^ 32 \<and> length (snd h) < 2 ^ 32"

lemma encode_decode_all:
  assumes "ctx_inv others sc" and "list_all valid_field hs"
    and "room (sum_list (map field_room hs)) (fst sc)"
  shows "\<exists>sc'. Decode (Encode hs) (d, sc) = Some (True, (d, sc')) \<and> ctx_inv others sc'
    \<and> request_of sc' = fold (\<lambda>(n, v). add_header n v) hs (request_of sc)"
  using assms
proof (induction hs arbitrary: sc)
  case Nil
  then show ?case
    by (simp add: Encode_concat Decode.simps)
next
  case (Cons h hs)
  obtain n v where h: "h = (n, v)"
    by (cases h)
  obtain st c where sc: "sc = (st, c)"
    by (cases sc)
  have v: "n \<noteq> []" "length n < 2 ^ 32" "length v < 2 ^ 32"
    using Cons.prems(2) by (simp_all add: h valid_field_def)
  have room: "room (field_room (n, v) + sum_list (map field_room hs)) st"
    using Cons.prems(3) by (simp add: h sc)
  obtain sc1 where ne: "encode_field [] n v \<noteq> []"
    and one: "decode_field (encode_field [] n v @ Encode hs) (d, sc) = Some (True, Encode hs, (d, sc1))"
      "ctx_inv others sc1" "request_of sc1 = add_header n v (request_of sc)"
      "room (sum_list (map field_room hs)) (fst sc1)"
    using encode_decode_field [OF Cons.prems(1) [unfolded sc] v(2,3,1) room, of "Encode hs" d] sc by fastforce
  have "Decode (Encode (h # hs)) (d, sc) = Decode (Encode hs) (d, sc1)"
    using ne one(1) by (simp add: Encode_concat h Decode.simps [of "encode_field [] n v @ _"])
  then show ?case
    using Cons.IH [OF one(2) _ one(4)] Cons.prems(2) one(3) by (simp add: h)
qed

section \<open>Properties\<close>

text \<open>C7. Decoding an encoded header list succeeds, leaves the dynamic table as it was and adds
  exactly the encoded fields, in order, to the request: the encoder and the decoder agree on
  integers, strings, the static table and the field representations.\<close>

theorem hpack_roundtrip:
  assumes "ctx_inv others sc" and "list_all valid_field hs"
    and "room (sum_list (map field_room hs)) (fst sc)"
  shows "\<exists>sc'. Decode (Encode hs) (d, sc) = Some (True, (d, sc'))
    \<and> request_of sc' = fold (\<lambda>(n, v). add_header n v) hs (request_of sc)"
  using encode_decode_all [OF assms] by blast

theorem hpack_roundtrip_witness:
  "\<exists>sc'. Decode (Encode [('':path'', ''/a''), (''x-id'', ''7'')]) (new_hpack_decoder, sample_ctx) =
       Some (True, (new_hpack_decoder, sc'))
     \<and> rq_path (request_of sc') = ''/a'' \<and> rq_headers (request_of sc') = [(''x-id'', ''7'')]"
  using hpack_roundtrip [OF sample_ctx_inv, of "[('':path'', ''/a''), (''x-id'', ''7'')]" new_hpack_decoder]
    sample_ctx_room [of "sum_list (map field_room [('':path'', ''/a''), (''x-id'', ''7'')])"]
  by (auto simp: valid_field_def field_room_def align8_def kAlign_def add_header_def kMaxHeaders_def
      request_of_def sample_ctx_def SetPool_def new_stream_context_def)


lemma truncated_value:
  assumes "length rest < 5"
  shows "Decode (0x04 # 0x05 # rest) (d, (st, c)) = Some (True, (d, AddHeader '':path'' [] (st, c)))"
proof -
  have "Lookup 4 d = ('':path'', ''/'')"
    by (simp add: Lookup_def StaticName_def StaticValue_def kStaticNames_def kStaticValues_def)
  moreover have "DecodeString (0x05 # rest) st = Some ([], [], st)"
    using assms by (simp add: DecodeString_def DecodeInteger_def)
  ultimately have "decode_field (0x04 # 0x05 # rest) (d, (st, c)) =
      Some (True, [], (d, AddHeader '':path'' [] (st, c)))"
    by (simp add: decode_field_def literal_field_def literal_name_def literal_value_def
        DecodeInteger_def add_field_def)
  then show ?thesis
    by (simp add: Decode.simps)
qed


text \<open>A literal field whose value is cut off by the end of the block is accepted with an empty
  value: the block ends in the middle of a string, yet decoding reports success and the stream
  gets the empty path.\<close>

theorem truncated_literal_accepted:
  assumes "length rest < 5"
  shows "Decode (0x04 # 0x05 # rest) (d, (st, c)) = Some (True, (d, AddHeader '':path'' [] (st, c)))"
  using assms by (rule truncated_value)

theorem truncated_literal_accepted_witness:
  "Decode [0x04, 0x05, 0x2f] (new_hpack_decoder, sample_ctx) =
     Some (True, (new_hpack_decoder, AddHeader '':path'' [] sample_ctx))"
  using truncated_literal_accepted [of "[0x2f]" new_hpack_decoder "fst sample_ctx" "snd sample_ctx"] by simp

text \<open>A literal field with incremental indexing that takes its name from the oldest entry of
  the dynamic table, and needs that entry's space, evicts the entry before copying the name out
  of it: the new entry is built from freed memory.\<close>

theorem indexed_name_dangles:
  assumes "hpack_inv d" and "dynamic_table d = tab @ [old]"
    and "sint name_idx = 62 + int (length tab)"
    and "EntryOverhead name val \<le> unat (max_table_size d)"
    and "unat (max_table_size d) < table_size (dynamic_table d) + EntryOverhead name val"
  shows "insert_field name_idx name val d = None"
proof -
  define m e where "m = unat (max_table_size d)" and "e = EntryOverhead name val"
  define d1 where "d1 = EvictTo (of_nat (m - min e m)) d"
  have le: "e \<le> m" "m < table_size (dynamic_table d) + e"
    using assms(4,5) by (simp_all add: m_def e_def)
  have "unat (of_nat (m - min e m) :: u32) = m - e"
    using le unat_u32_lt [of "max_table_size d"] by (subst unat_of_nat_u32) (simp_all add: m_def)
  moreover have "unat (current_table_size d) = table_size (dynamic_table d)"
    using assms(1) by (simp add: hpack_inv_def)
  ultimately have sz: "table_size (dynamic_table d1) \<le> m - e" and "\<exists>k. dynamic_table d1 = take k (dynamic_table d)"
    using EvictTo_spec [of d "of_nat (m - min e m)"] by (simp_all add: d1_def)
  then obtain k where k: "dynamic_table d1 = take k (dynamic_table d)"
    by blast
  have "k < length (dynamic_table d)"
  proof (rule ccontr)
    assume "\<not> k < length (dynamic_table d)"
    then have "dynamic_table d1 = dynamic_table d"
      using k by simp
    then have "table_size (dynamic_table d) \<le> m - e"
      using sz by simp
    then show False
      using le by linarith
  qed
  then have "int (length (dynamic_table d1)) \<le> sint name_idx - 62"
    using k assms(2,3) by simp
  then show ?thesis
    using assms(3) le by (simp add: insert_field_def Let_def m_def e_def d1_def)
qed

theorem indexed_name_dangles_witness:
  "insert_field 62 ''ab'' ''xyz'' \<lparr> dynamic_table = [(''ab'', ''cd'')], max_table_size = 40,
     current_table_size = 36 \<rparr> = None"
  by (rule indexed_name_dangles [where tab = "[]"])
    (simp_all add: hpack_inv_def table_size_def EntryOverhead_def)

end
