(* ===== verification/Huffman.thy ===== *)
theory Huffman
  imports Hpack
begin

text \<open>
  Correctness of the Huffman decoder of \<^verbatim>\<open>http/http2/parser/HPACK.cpp\<close>. The table built at
  start-up is proved to be a prefix code, and decoding the bit string of any text, padded with
  at most seven one bits, gives the text back.
\<close>

section \<open>The generated code\<close>

lemma bl_count_eq:
  "bl_count = [0, 0, 0, 0, 0, 10, 26, 32, 6, 0, 5, 3, 2, 6, 2, 3, 0, 0, 0, 3, 8, 13, 26, 29, 12, 4,
     15, 19, 29, 0, 3, 0, 0]"
  unfolding bl_count_def kHuffLens_def by code_simp

lemma next_code_eq:
  "next_code = [0, 0, 0, 0, 0, 0, 20, 92, 248, 508, 1016, 2042, 4090, 8184, 16380, 32764, 65534,
     131068, 262136, 524272, 1048550, 2097116, 4194258, 8388568, 16777194, 33554412, 67108832,
     134217694, 268435426, 536870910, 1073741820, 2147483646, 4294967292]"
  unfolding next_code_def bl_count_eq by code_simp

lemma kHuffLens_facts: "length kHuffLens = 256" "list_all (\<lambda>l. 0 < l \<and> l \<le> 30) kHuffLens"
  by (simp_all add: kHuffLens_def)

lemma count_lens: "l < 33 \<Longrightarrow> bl_count ! l = count_list kHuffLens l"
proof -
  have "foldl (\<lambda>cnt l. cnt[l := Suc (cnt ! l)]) cnt ls ! l = cnt ! l + count_list ls l"
    if "l < length cnt" for cnt ls
    using that
  proof (induction ls arbitrary: cnt)
    case (Cons k ls)
    then show ?case
      by (cases "k = l") simp_all
  qed simp
  then show "l < 33 \<Longrightarrow> bl_count ! l = count_list kHuffLens l"
    by (simp add: bl_count_def)
qed

text \<open>Codes of each length are consecutive, starting at \<open>next_code\<close>, without wrap-around.\<close>

lemma next_code_bounds:
  assumes "l \<le> 30" and "0 < l"
  shows "0 \<le> next_code ! l" "next_code ! l + int (bl_count ! l) < 2 ^ l"
    "next_code ! Suc l = 2 * (next_code ! l + int (bl_count ! l))"
proof -
  have "list_all (\<lambda>l. 0 \<le> next_code ! l \<and> next_code ! l + int (bl_count ! l) < 2 ^ l
      \<and> next_code ! Suc l = 2 * (next_code ! l + int (bl_count ! l))) [1 ..< 31]"
    unfolding next_code_eq bl_count_eq by code_simp
  moreover have "l \<in> set [1 ..< 31]"
    using assms by simp
  ultimately show "0 \<le> next_code ! l" "next_code ! l + int (bl_count ! l) < 2 ^ l"
    "next_code ! Suc l = 2 * (next_code ! l + int (bl_count ! l))"
    unfolding list_all_iff by blast+
qed

lemma assign_codes_nth:
  assumes "list_all (\<lambda>l. 0 < l \<and> l < length nxt) ls"
    and "\<forall>l < length nxt. 0 \<le> nxt ! l \<and> nxt ! l + int (count_list ls l) < 2 ^ 32"
  shows "length (assign_codes nxt ls) = length ls
    \<and> (\<forall>i < length ls. assign_codes nxt ls ! i =
          (nxt ! (ls ! i) + int (count_list (take i ls) (ls ! i)), ls ! i))"
  using assms
proof (induction ls arbitrary: nxt)
  case (Cons l ls)
  have l: "0 < l" "l < length nxt"
    using Cons.prems(1) by simp_all
  have nw: "0 \<le> nxt ! l" "nxt ! l + 1 + int (count_list ls l) < 2 ^ 32"
    using Cons.prems(2) l by auto
  define nxt' where "nxt' = nxt[l := nxt ! l + 1]"
  have "(nxt ! l + 1) mod 2 ^ 32 = nxt ! l + 1"
    using nw by (intro mod_pos_pos_trivial) linarith+
  then have step: "assign_codes nxt (l # ls) = (nxt ! l, l) # assign_codes nxt' ls"
    using l by (simp add: nxt'_def)
  have "list_all (\<lambda>l. 0 < l \<and> l < length nxt') ls"
    using Cons.prems(1) by (simp add: nxt'_def)
  moreover have "\<forall>k < length nxt'. 0 \<le> nxt' ! k \<and> nxt' ! k + int (count_list ls k) < 2 ^ 32"
  proof (intro allI impI)
    fix k
    assume k: "k < length nxt'"
    then have "0 \<le> nxt ! k \<and> nxt ! k + int (count_list (l # ls) k) < 2 ^ 32"
      using Cons.prems(2) by (simp add: nxt'_def)
    then show "0 \<le> nxt' ! k \<and> nxt' ! k + int (count_list ls k) < 2 ^ 32"
      using k nw by (cases "k = l") (simp_all add: nxt'_def)
  qed
  ultimately have IH: "length (assign_codes nxt' ls) = length ls"
    "\<And>i. i < length ls \<Longrightarrow> assign_codes nxt' ls ! i =
       (nxt' ! (ls ! i) + int (count_list (take i ls) (ls ! i)), ls ! i)"
    using Cons.IH by blast+
  have "assign_codes nxt (l # ls) ! i =
      (nxt ! ((l # ls) ! i) + int (count_list (take i (l # ls)) ((l # ls) ! i)), (l # ls) ! i)"
    if i: "i < length (l # ls)" for i
  proof (cases i)
    case 0
    then show ?thesis
      using l by (simp add: step del: assign_codes.simps)
  next
    case (Suc j)
    then show ?thesis
      using IH(2) [of j] i l by (cases "ls ! j = l") (simp_all add: step nxt'_def del: assign_codes.simps)
  qed
  then show ?case
    using IH(1) step by simp
qed simp

abbreviation huff_len :: "nat \<Rightarrow> nat" where
  "huff_len sy \<equiv> kHuffLens ! sy"

definition huff_code :: "nat \<Rightarrow> int" where
  "huff_code sy = next_code ! huff_len sy + int (count_list (take sy kHuffLens) (huff_len sy))"

lemma huff_len_bounds: "sy < 256 \<Longrightarrow> 0 < huff_len sy \<and> huff_len sy \<le> 30"
  using kHuffLens_facts by (auto simp: list_all_length)

lemma count_list_take_less:
  "i < length xs \<Longrightarrow> count_list (take i xs) (xs ! i) < count_list xs (xs ! i)"
proof -
  assume i: "i < length xs"
  have "count_list xs (xs ! i) =
      count_list (take i xs) (xs ! i) + count_list (drop i xs) (xs ! i)"
    by (metis append_take_drop_id count_list_append)
  moreover have "drop i xs = xs ! i # drop (Suc i) xs"
    using i by (simp add: Cons_nth_drop_Suc)
  ultimately show ?thesis
    by simp
qed

lemma huff_code_bounds:
  assumes "sy < 256"
  shows "0 \<le> huff_code sy" "next_code ! huff_len sy \<le> huff_code sy"
    "huff_code sy < next_code ! huff_len sy + int (bl_count ! huff_len sy)"
    "huff_code sy < 2 ^ huff_len sy - 1"
proof -
  note l = huff_len_bounds [OF assms]
  note n = next_code_bounds [OF conjunct2 [OF l] conjunct1 [OF l]]
  have "count_list (take sy kHuffLens) (huff_len sy) < bl_count ! huff_len sy"
    using count_list_take_less [of sy kHuffLens] count_lens [of "huff_len sy"] l assms kHuffLens_facts(1)
    by simp
  then show "0 \<le> huff_code sy" "next_code ! huff_len sy \<le> huff_code sy"
    "huff_code sy < next_code ! huff_len sy + int (bl_count ! huff_len sy)"
    "huff_code sy < 2 ^ huff_len sy - 1"
    using n by (simp_all add: huff_code_def)
qed

lemma kHuffTable_nth: "length kHuffTable = 256"
  "sy < 256 \<Longrightarrow> kHuffTable ! sy = (huff_code sy, huff_len sy)"
proof -
  have len: "length next_code = 33"
    by (simp add: next_code_eq)
  have lens: "list_all (\<lambda>l. 0 < l \<and> l < length next_code) kHuffLens"
    using kHuffLens_facts(2) by (auto simp: len list_all_iff)
  have "0 \<le> next_code ! l \<and> next_code ! l + int (count_list kHuffLens l) < 2 ^ 32"
    if "l < length next_code" for l
  proof -
    have "list_all (\<lambda>l. 0 \<le> next_code ! l \<and> next_code ! l + int (bl_count ! l) < 2 ^ 32) [0 ..< 33]"
      unfolding next_code_eq bl_count_eq by code_simp
    then have "0 \<le> next_code ! l \<and> next_code ! l + int (bl_count ! l) < 2 ^ 32"
      using that len by (simp add: list_all_iff)
    then show ?thesis
      using count_lens [of l] that len by simp
  qed
  then have "length (assign_codes next_code kHuffLens) = length kHuffLens
    \<and> (\<forall>i < length kHuffLens. assign_codes next_code kHuffLens ! i =
          (next_code ! (kHuffLens ! i) + int (count_list (take i kHuffLens) (kHuffLens ! i)), kHuffLens ! i))"
    using assign_codes_nth [OF lens] by blast
  then show "length kHuffTable = 256"
    "sy < 256 \<Longrightarrow> kHuffTable ! sy = (huff_code sy, huff_len sy)"
    by (simp_all add: kHuffTable_def kHuffLens_facts huff_code_def)
qed

section \<open>Bits\<close>

text \<open>The low \<open>n\<close> bits of a number, most significant first.\<close>

definition to_bits :: "nat \<Rightarrow> int \<Rightarrow> bool list" where
  "to_bits n v = map (bit v) (rev [0 ..< n])"

lemma length_to_bits [simp]: "length (to_bits n v) = n"
  by (simp add: to_bits_def)

lemma nth_to_bits: "i < n \<Longrightarrow> to_bits n v ! i = bit v (n - Suc i)"
  by (simp add: to_bits_def rev_nth)

lemma to_bits_mod: "n \<le> m \<Longrightarrow> to_bits n (v mod 2 ^ m) = to_bits n v"
  by (auto simp: to_bits_def take_bit_eq_mod [symmetric] bit_take_bit_iff)

lemma shift_add_bit:
  fixes v d :: int
  assumes "0 \<le> d" and "d < 2 ^ k"
  shows "bit (v * 2 ^ k + d) i \<longleftrightarrow> (if i < k then bit d i else bit v (i - k))"
proof -
  have "v * 2 ^ k + d = concat_bit k d v"
    using assms by (simp add: concat_bit_eq take_bit_int_eq_self push_bit_eq_mult)
  then show ?thesis
    by (auto simp: bit_concat_bit_iff)
qed

lemma to_bits_append:
  assumes "0 \<le> d" and "d < 2 ^ k"
  shows "to_bits (n + k) (v * 2 ^ k + d) = to_bits n v @ to_bits k d"
proof (rule nth_equalityI)
  fix i
  assume i: "i < length (to_bits (n + k) (v * 2 ^ k + d))"
  show "to_bits (n + k) (v * 2 ^ k + d) ! i = (to_bits n v @ to_bits k d) ! i"
  proof (cases "i < n")
    case True
    then have "\<not> n + k - Suc i < k" "n + k - Suc i - k = n - Suc i"
      by linarith+
    then show ?thesis
      using True i by (simp add: nth_to_bits nth_append shift_add_bit [OF assms])
  next
    case False
    then have "n + k - Suc i < k" "k - Suc (i - n) = n + k - Suc i" "i - n < k"
      using i by simp_all
    then show ?thesis
      using False i by (simp add: nth_to_bits nth_append shift_add_bit [OF assms])
  qed
qed simp

lemma take_to_bits: "k \<le> n \<Longrightarrow> take k (to_bits n v) = to_bits k (v div 2 ^ (n - k))"
  by (rule nth_equalityI)
    (auto simp: nth_to_bits drop_bit_eq_div [symmetric] bit_drop_bit_eq intro!: arg_cong [of _ _ "bit v"])

lemma drop_to_bits: "k \<le> n \<Longrightarrow> drop k (to_bits n v) = to_bits (n - k) v"
  by (rule nth_equalityI) (auto simp: nth_to_bits)

lemma to_bits_inj:
  assumes "0 \<le> a" and "a < 2 ^ n" and "0 \<le> b" and "b < 2 ^ n" and "to_bits n a = to_bits n b"
  shows "a = b"
proof -
  have "bit a i = bit b i" if "i < n" for i
    using arg_cong [OF assms(5), of "\<lambda>xs. xs ! (n - Suc i)"] that by (simp add: nth_to_bits)
  then have "take_bit n a = take_bit n b"
    by (intro bit_eqI) (auto simp: bit_take_bit_iff)
  then show ?thesis
    using assms(1-4) by (simp add: take_bit_int_eq_self)
qed

text \<open>The bits still to be decoded: the window, then the remaining bytes.\<close>

definition stream :: "int \<Rightarrow> nat \<Rightarrow> byte list \<Rightarrow> bool list" where
  "stream buf bits data = to_bits bits buf @ concat (map (\<lambda>d. to_bits 8 (uint d)) data)"

lemma fill_window_stream:
  "fill_window buf bits data = (buf', bits', data') \<Longrightarrow> bits \<le> 40 \<Longrightarrow>
     stream buf' bits' data' = stream buf bits data \<and> bits' \<le> 40 \<and> (data' = [] \<or> 32 < bits')"
proof (induction buf bits data rule: fill_window.induct)
  case (2 buf bits d ds)
  show ?case
  proof (cases "bits \<le> 32")
    case True
    have "uint d < 2 ^ 8" "0 \<le> uint d"
      using unsigned_less [of d] by (auto simp: unsigned_less)
    then have "to_bits (bits + 8) ((buf * 256 + uint d) mod 2 ^ 64) = to_bits bits buf @ to_bits 8 (uint d)"
      using True to_bits_append [of "uint d" 8 bits buf]
      by (subst to_bits_mod) simp_all
    then have "stream ((buf * 256 + uint d) mod 2 ^ 64) (bits + 8) ds = stream buf bits (d # ds)"
      by (simp add: stream_def)
    then show ?thesis
      using "2.IH" [OF True] "2.prems" True by simp
  next
    case False
    then show ?thesis
      using "2.prems" by auto
  qed
qed simp

definition code_bits :: "nat \<Rightarrow> bool list" where
  "code_bits sy = to_bits (huff_len sy) (huff_code sy)"

lemma match_window:
  assumes "sy < 256" and "huff_len sy \<le> bits"
  shows "(buf div 2 ^ (bits - huff_len sy)) mod 2 ^ huff_len sy = huff_code sy
    \<longleftrightarrow> take (huff_len sy) (to_bits bits buf) = code_bits sy"
proof -
  let ?l = "huff_len sy" and ?p = "(buf div 2 ^ (bits - huff_len sy)) mod 2 ^ huff_len sy"
  have "take ?l (to_bits bits buf) = to_bits ?l ?p"
    using assms(2) by (simp add: take_to_bits to_bits_mod)
  moreover have "0 \<le> ?p" "?p < 2 ^ ?l"
    by simp_all
  moreover have "0 \<le> huff_code sy" "huff_code sy < 2 ^ ?l"
    using huff_code_bounds [OF assms(1)] by linarith+
  ultimately show ?thesis
    using to_bits_inj unfolding code_bits_def by metis
qed

section \<open>A prefix code\<close>

lemma next_code_shift:
  "0 < l \<Longrightarrow> l + Suc d \<le> 31 \<Longrightarrow>
     2 ^ Suc d * (next_code ! l + int (bl_count ! l)) \<le> next_code ! (l + Suc d)"
proof (induction d)
  case 0
  then show ?case
    using next_code_bounds(3) [of l] by simp
next
  case (Suc d)
  have "next_code ! Suc (l + Suc d) = 2 * (next_code ! (l + Suc d) + int (bl_count ! (l + Suc d)))"
    using Suc.prems next_code_bounds(3) [of "l + Suc d"] by simp
  then show ?case
    using Suc by simp
qed

lemma same_length_distinct:
  assumes "a < b" and "b < 256" and "huff_len a = huff_len b"
  shows "huff_code a \<noteq> huff_code b"
proof -
  let ?xs = "take b kHuffLens"
  have "take a ?xs = take a kHuffLens" "?xs ! a = huff_len b" "a < length ?xs"
    using assms kHuffLens_facts(1) by (simp_all add: min_absorb1)
  then have "count_list (take a kHuffLens) (huff_len b) < count_list ?xs (huff_len b)"
    using count_list_take_less [of a ?xs] by simp
  then show ?thesis
    using assms(3) by (simp add: huff_code_def)
qed

lemma prefix_free:
  assumes sy: "a < 256" "b < 256" "a \<noteq> b" and le: "huff_len a \<le> huff_len b"
  shows "take (huff_len a) (code_bits b) \<noteq> code_bits a"
proof
  let ?la = "huff_len a" and ?lb = "huff_len b"
  let ?q = "huff_code b div 2 ^ (?lb - ?la)"
  assume eq: "take ?la (code_bits b) = code_bits a"
  note A = huff_code_bounds [OF sy(1)] and B = huff_code_bounds [OF sy(2)]
  have "(2 :: int) ^ ?lb = 2 ^ ?la * 2 ^ (?lb - ?la)"
    using le by (simp flip: power_add)
  moreover have "?q * 2 ^ (?lb - ?la) \<le> huff_code b"
    using div_mult_mod_eq [of "huff_code b" "2 ^ (?lb - ?la)"]
      pos_mod_sign [of "2 ^ (?lb - ?la)" "huff_code b", OF zero_less_power] by linarith
  ultimately have "?q * 2 ^ (?lb - ?la) < 2 ^ ?la * 2 ^ (?lb - ?la)"
    using B(4) by linarith
  then have "?q < 2 ^ ?la"
    by (rule mult_right_less_imp_less) simp
  moreover have "0 \<le> ?q"
    using B(1) by (simp add: pos_imp_zdiv_nonneg_iff)
  moreover have "to_bits ?la ?q = to_bits ?la (huff_code a)"
    using eq le by (simp add: code_bits_def take_to_bits)
  ultimately have q: "?q = huff_code a"
    using A(1,4) by (intro to_bits_inj) auto
  show False
  proof (cases "?la = ?lb")
    case True
    then have "huff_code a = huff_code b"
      using q by simp
    then show False
      using same_length_distinct [of a b] same_length_distinct [of b a] sy True by (cases "a < b") auto
  next
    case False
    define d where "d = ?lb - ?la - 1"
    have lb: "?lb = ?la + Suc d"
      using False le by (simp add: d_def)
    have "2 ^ Suc d * (next_code ! ?la + int (bl_count ! ?la)) \<le> huff_code b"
      using next_code_shift [of ?la d] huff_len_bounds [OF sy(1)] huff_len_bounds [OF sy(2)] B(2) lb
      by simp
    from zdiv_mono1 [OF this, of "2 ^ Suc d"]
    have "next_code ! ?la + int (bl_count ! ?la) \<le> huff_code b div 2 ^ Suc d"
      by (simp del: power_Suc)
    then show False
      using q A(3) lb by simp
  qed
qed

section \<open>The decoder\<close>

lemma match_symbol_unique:
  assumes "j < length tab"
    and "\<And>i. i < length tab \<Longrightarrow>
      (snd (tab ! i) \<noteq> 0 \<and> snd (tab ! i) \<le> bits
       \<and> (buf div 2 ^ (bits - snd (tab ! i))) mod 2 ^ snd (tab ! i) = fst (tab ! i)) \<longleftrightarrow> i = j"
  shows "match_symbol buf bits s0 tab = Some (s0 + j, snd (tab ! j))"
  using assms
proof (induction tab arbitrary: s0 j)
  case (Cons e tab)
  obtain code len where e: "e = (code, len)"
    by (cases e)
  show ?case
  proof (cases j)
    case 0
    then show ?thesis
      using Cons.prems(2) [of 0] e by auto
  next
    case (Suc k)
    have "match_symbol buf bits (Suc s0) tab = Some (Suc s0 + k, snd (tab ! k))"
      using Cons.prems(1) Cons.prems(2) [of "Suc _"] Suc by (intro Cons.IH) auto
    then show ?thesis
      using Cons.prems(2) [of 0] Suc e by auto
  qed
qed simp

lemma match_symbol_none:
  assumes "\<And>i. i < length tab \<Longrightarrow>
      \<not> (snd (tab ! i) \<noteq> 0 \<and> snd (tab ! i) \<le> bits
       \<and> (buf div 2 ^ (bits - snd (tab ! i))) mod 2 ^ snd (tab ! i) = fst (tab ! i))"
  shows "match_symbol buf bits s0 tab = None"
  using assms
proof (induction tab arbitrary: s0)
  case (Cons e tab)
  obtain code len where e: "e = (code, len)"
    by (cases e)
  have "match_symbol buf bits (Suc s0) tab = None"
    using Cons.prems [of "Suc _"] by (intro Cons.IH) auto
  then show ?case
    using Cons.prems [of 0] e by auto
qed simp

lemma entry_matches:
  assumes "i < 256"
  shows "(snd (kHuffTable ! i) \<noteq> 0 \<and> snd (kHuffTable ! i) \<le> bits
      \<and> (buf div 2 ^ (bits - snd (kHuffTable ! i))) mod 2 ^ snd (kHuffTable ! i) = fst (kHuffTable ! i))
    \<longleftrightarrow> huff_len i \<le> bits \<and> take (huff_len i) (to_bits bits buf) = code_bits i"
  using match_window [OF assms, of bits buf] huff_len_bounds [OF assms]
  by (auto simp: kHuffTable_nth(2) [OF assms])

lemma match_code:
  assumes sy: "sy < 256" and fits: "huff_len sy \<le> bits"
    and bits: "take (huff_len sy) (to_bits bits buf) = code_bits sy"
  shows "match_symbol buf bits 0 kHuffTable = Some (sy, huff_len sy)"
proof -
  have "i = sy" if i: "i < 256" "huff_len i \<le> bits" "take (huff_len i) (to_bits bits buf) = code_bits i" for i
  proof (rule ccontr)
    assume "i \<noteq> sy"
    moreover have "take (huff_len i) (code_bits sy) = code_bits i" if "huff_len i \<le> huff_len sy"
      using that bits i(3) by (metis min_absorb1 take_take)
    moreover have "take (huff_len sy) (code_bits i) = code_bits sy" if "huff_len sy \<le> huff_len i"
      using that bits i(3) by (metis min_absorb1 take_take)
    ultimately show False
      using prefix_free [of i sy] prefix_free [of sy i] sy i(1) by (cases "huff_len i \<le> huff_len sy") auto
  qed
  then have "i < 256 \<Longrightarrow> huff_len i \<le> bits \<and> take (huff_len i) (to_bits bits buf) = code_bits i \<longleftrightarrow> i = sy" for i
    using fits bits by blast
  then have "match_symbol buf bits 0 kHuffTable = Some (0 + sy, snd (kHuffTable ! sy))"
    by (intro match_symbol_unique) (simp_all only: kHuffTable_nth(1) entry_matches sy)
  then show ?thesis
    by (simp add: kHuffTable_nth(2) [OF sy])
qed

lemma to_bits_ones: "to_bits n (2 ^ n - 1) = replicate n True"
  by (rule nth_equalityI) (auto simp: nth_to_bits mask_eq_exp_minus_1 [symmetric] bit_mask_iff)

lemma match_ones:
  assumes "to_bits bits buf = replicate bits True"
  shows "match_symbol buf bits 0 kHuffTable = None"
proof (rule match_symbol_none)
  fix i
  assume "i < length kHuffTable"
  then have i: "i < 256"
    by (simp add: kHuffTable_nth(1))
  have "code_bits i \<noteq> replicate (huff_len i) True"
  proof
    assume "code_bits i = replicate (huff_len i) True"
    then have "to_bits (huff_len i) (huff_code i) = to_bits (huff_len i) (2 ^ huff_len i - 1)"
      by (simp add: code_bits_def to_bits_ones)
    then have "huff_code i = 2 ^ huff_len i - 1"
      using huff_code_bounds [OF i] by (intro to_bits_inj) auto
    then show False
      using huff_code_bounds(4) [OF i] by simp
  qed
  then show "\<not> (snd (kHuffTable ! i) \<noteq> 0 \<and> snd (kHuffTable ! i) \<le> bits
      \<and> (buf div 2 ^ (bits - snd (kHuffTable ! i))) mod 2 ^ snd (kHuffTable ! i) = fst (kHuffTable ! i))"
    using assms unfolding entry_matches [OF i] by auto
qed

lemma stream_length: "length (stream buf bits data) = bits + 8 * length data"
proof -
  have "length (concat (map (\<lambda>d. to_bits 8 (uint d)) data)) = 8 * length data"
    by (induction data) simp_all
  then show ?thesis
    by (simp add: stream_def)
qed

lemma huffman_loop_decodes:
  "stream buf bits data = concat (map code_bits syms) @ replicate p True \<Longrightarrow> p \<le> 7 \<Longrightarrow> bits \<le> 40 \<Longrightarrow>
     list_all (\<lambda>sy. sy < 256) syms \<Longrightarrow> huffman_loop buf bits data acc = acc @ map char_of syms"
proof (induction syms arbitrary: buf bits data acc)
  case Nil
  obtain buf' bits' data' where f: "fill_window buf bits data = (buf', bits', data')"
    by (metis prod_cases3)
  note fs = fill_window_stream [OF f Nil.prems(3)]
  then have st: "stream buf' bits' data' = replicate p True"
    using Nil.prems(1) by simp
  then have "bits' + 8 * length data' = p"
    using stream_length [of buf' bits' data'] by simp
  then have data': "data' = []" "bits' = p"
    using Nil.prems(2) by (cases data', auto)+
  have ones: "to_bits p buf' = replicate p True"
    using st data' by (simp add: stream_def)
  then have "to_bits p (buf' mod 2 ^ p) = to_bits p (2 ^ p - 1)"
    by (simp add: to_bits_mod to_bits_ones)
  then have "buf' mod 2 ^ p = 2 ^ p - 1"
    by (intro to_bits_inj) auto
  then show ?case
    using match_ones [OF ones] data' Nil.prems(2) f
    by (subst huffman_loop.simps) simp
next
  case (Cons sy syms)
  obtain buf' bits' data' where f: "fill_window buf bits data = (buf', bits', data')"
    by (metis prod_cases3)
  note fs = fill_window_stream [OF f Cons.prems(3)]
  let ?l = "huff_len sy" and ?rest = "concat (map code_bits syms) @ replicate p True"
  have sy: "sy < 256"
    using Cons.prems(4) by simp
  have len: "length (code_bits sy) = ?l"
    by (simp add: code_bits_def)
  have st: "stream buf' bits' data' = code_bits sy @ ?rest"
    using fs Cons.prems(1) by simp
  have fits: "?l \<le> bits'"
  proof (cases "data' = []")
    case True
    have "length (stream buf' bits' data') = length (code_bits sy @ ?rest)"
      by (simp only: st)
    then have "bits' = ?l + length ?rest"
      using True len unfolding stream_length by simp
    then show ?thesis
      by simp
  next
    case False
    then show ?thesis
      using fs huff_len_bounds [OF sy] by linarith
  qed
  have "take ?l (stream buf' bits' data') = take ?l (to_bits bits' buf')"
    using fits by (simp add: stream_def)
  moreover have "take ?l (stream buf' bits' data') = code_bits sy"
    by (simp add: st len)
  ultimately have "match_symbol buf' bits' 0 kHuffTable = Some (sy, ?l)"
    using match_code [OF sy fits] by simp
  then have "huffman_loop buf bits data acc = huffman_loop buf' (bits' - ?l) data' (acc @ [char_of sy])"
    by (subst huffman_loop.simps) (simp add: f)
  moreover have "stream buf' (bits' - ?l) data' = ?rest"
  proof -
    have "stream buf' (bits' - ?l) data' = drop ?l (stream buf' bits' data')"
      using fits by (simp add: stream_def drop_to_bits)
    then show ?thesis
      by (simp add: st len)
  qed
  ultimately show ?case
    using Cons.IH [of buf' "bits' - ?l" data' "acc @ [char_of sy]"] Cons.prems(2,4) fs by auto
qed

text \<open>The reference encoder: the codes of the characters, padded with ones to whole bytes.\<close>

definition byte_of_bits :: "bool list \<Rightarrow> byte" where
  "byte_of_bits bs = of_int (horner_sum of_bool 2 (rev bs))"

fun pack :: "bool list \<Rightarrow> byte list" where
  "pack [] = []"
| "pack (b # bs) =
     byte_of_bits (take 8 ((b # bs) @ replicate 7 True)) # pack (drop 7 bs)"

definition huff_encode :: "string \<Rightarrow> byte list" where
  "huff_encode s = pack (concat (map (\<lambda>c. code_bits (of_char c)) s))"

lemma byte_of_bits_bits: "length bs = 8 \<Longrightarrow> to_bits 8 (uint (byte_of_bits bs)) = bs"
proof (rule nth_equalityI)
  fix i
  assume len: "length bs = 8" and "i < length (to_bits 8 (uint (byte_of_bits bs)))"
  then have i: "i < 8"
    by simp
  have "to_bits 8 (uint (byte_of_bits bs)) ! i = bit (horner_sum of_bool 2 (rev bs) :: int) (7 - i)"
    using i by (auto simp: nth_to_bits byte_of_bits_def bit_simps)
  then show "to_bits 8 (uint (byte_of_bits bs)) ! i = bs ! i"
    using i len by (auto simp: bit_horner_sum_bit_iff rev_nth)
qed simp

lemma pack_stream: "\<exists>p \<le> 7. stream 0 0 (pack bs) = bs @ replicate p True"
proof (induction bs rule: pack.induct)
  case 1
  then show ?case
    by (auto simp: stream_def to_bits_def)
next
  case (2 b bs)
  then obtain p where p: "p \<le> 7" "stream 0 0 (pack (drop 7 bs)) = drop 7 bs @ replicate p True"
    by blast
  let ?t = "take 8 ((b # bs) @ replicate 7 True)"
  have st: "stream 0 0 (pack (b # bs)) = ?t @ stream 0 0 (pack (drop 7 bs))"
    using byte_of_bits_bits [of ?t] by (simp add: stream_def to_bits_def [of 0])
  show ?case
  proof (cases "7 \<le> length bs")
    case True
    then have "?t = b # take 7 bs"
      by simp
    then show ?thesis
      using st p by (metis append_Cons append_assoc append_take_drop_id)
  next
    case False
    then have "?t = b # bs @ replicate (7 - length bs) True" "drop 7 bs = []"
      by (simp_all add: take_replicate min_def)
    then have "stream 0 0 (pack (b # bs)) = (b # bs) @ replicate (7 - length bs) True"
      using st by (simp add: stream_def to_bits_def)
    then show ?thesis
      by (intro exI [of _ "7 - length bs"]) simp
  qed
qed

section \<open>Properties\<close>

text \<open>C8. The Huffman decoder is correct: for every text, decoding its Huffman code with the
  padding the protocol prescribes gives the text back. In particular the table generated at
  start-up is a prefix code and padding is never mistaken for a symbol.\<close>

theorem huffman_roundtrip: "HuffmanDecode (huff_encode s) = s"
proof -
  let ?syms = "map of_char s :: nat list"
  obtain p where "p \<le> 7" "stream 0 0 (huff_encode s) = concat (map code_bits ?syms) @ replicate p True"
    using pack_stream [of "concat (map (\<lambda>c. code_bits (of_char c)) s)"]
    by (auto simp: huff_encode_def o_def)
  moreover have "list_all (\<lambda>sy. sy < 256) ?syms"
    by (simp add: list_all_iff)
  ultimately have "huffman_loop 0 0 (huff_encode s) [] = [] @ map char_of ?syms"
    by (intro huffman_loop_decodes) simp_all
  moreover have "s = []" if "huff_encode s = []"
    using that huff_len_bounds [of "of_char (hd s)"]
    by (cases s; cases "code_bits (of_char (hd s))")
      (auto simp: huff_encode_def code_bits_def to_bits_def)
  ultimately show ?thesis
    by (auto simp: HuffmanDecode_def o_def)
qed

end
