(* ===== verification/Router.thy ===== *)
theory Router
  imports Web_Prelude "HOL-Library.Sublist"
begin

text \<open>
  The request router (\<^verbatim>\<open>handler/router.hpp\<close> and \<^verbatim>\<open>.cpp\<close>): a compressed radix tree. A node's data
  is a record and its children a list; the raw pointers \<open>paramChild\<close> and \<open>catchAllChild\<close> are
  positions in that list, and a node returned by reference is its position in the tree (a list
  of child positions). An access to a child that does not exist is \<open>None\<close>.

  The specification is a route table: a function from paths to the handlers registered for
  them. For routes without wildcards the tree is proved to implement it, registrations and
  lookups alike.
\<close>

section \<open>Nodes\<close>

datatype node_type = STATIC | PARAM | CATCH_ALL

record 'h node_data =
  nd_path :: string
  nd_indices :: string
  nd_param :: "nat option"
  nd_catch :: "nat option"
  nd_type :: node_type
  nd_pname :: string
  nd_prefix :: bool
  handler_get :: "'h option"
  handler_post :: "'h option"
  handler_put :: "'h option"
  handler_delete :: "'h option"
  handler_head :: "'h option"
  handler_any :: "'h option"
  handler_extra :: "(string \<times> 'h) list"

datatype 'h node = Node (ndata: "'h node_data") (nchildren: "'h node list")

definition new_data :: "'h node_data" where
  "new_data = \<lparr> nd_path = [], nd_indices = [], nd_param = None, nd_catch = None, nd_type = STATIC,
     nd_pname = [], nd_prefix = False, handler_get = None, handler_post = None, handler_put = None,
     handler_delete = None, handler_head = None, handler_any = None, handler_extra = [] \<rparr>"

definition new_node :: "'h node" where
  "new_node = Node new_data []"

definition SetHandler :: "string \<Rightarrow> 'h \<Rightarrow> 'h node_data \<Rightarrow> 'h node_data" where
  "SetHandler m h d =
     (if m = ''GET'' then d\<lparr> handler_get := Some h \<rparr>
      else if m = ''POST'' then d\<lparr> handler_post := Some h \<rparr>
      else if m = ''PUT'' then d\<lparr> handler_put := Some h \<rparr>
      else if m = ''DELETE'' then d\<lparr> handler_delete := Some h \<rparr>
      else if m = ''HEAD'' then d\<lparr> handler_head := Some h \<rparr>
      else d\<lparr> handler_extra := (m, h) # filter (\<lambda>(k, _). k \<noteq> m) (handler_extra d) \<rparr>)"

definition GetHandler :: "string \<Rightarrow> 'h node_data \<Rightarrow> 'h option" where
  "GetHandler m d =
     (if m = ''GET'' then handler_get d
      else if m = ''POST'' then handler_post d
      else if m = ''PUT'' then handler_put d
      else if m = ''DELETE'' then handler_delete d
      else if m = ''HEAD''
      then (case handler_head d of Some h \<Rightarrow> Some h | None \<Rightarrow> handler_get d)
      else map_of (handler_extra d) m)"

definition HasHandler :: "'h node_data \<Rightarrow> bool" where
  "HasHandler d \<longleftrightarrow>
     handler_any d \<noteq> None \<or> handler_get d \<noteq> None \<or> handler_post d \<noteq> None
     \<or> handler_put d \<noteq> None \<or> handler_delete d \<noteq> None \<or> handler_head d \<noteq> None
     \<or> handler_extra d \<noteq> []"

definition AddStaticChild :: "'h node \<Rightarrow> char \<Rightarrow> 'h node \<Rightarrow> 'h node" where
  "AddStaticChild child c n =
     Node ((ndata n)\<lparr> nd_indices := nd_indices (ndata n) @ [c] \<rparr>) (nchildren n @ [child])"

definition AddParamChild :: "'h node \<Rightarrow> 'h node \<Rightarrow> 'h node" where
  "AddParamChild child n =
     Node ((ndata n)\<lparr> nd_param := Some (length (nchildren n)) \<rparr>) (nchildren n @ [child])"

definition AddCatchAllChild :: "'h node \<Rightarrow> 'h node \<Rightarrow> 'h node" where
  "AddCatchAllChild child n =
     Node ((ndata n)\<lparr> nd_catch := Some (length (nchildren n)) \<rparr>) (nchildren n @ [child])"

section \<open>Insertion\<close>

fun LongestCommonPrefix :: "string \<Rightarrow> string \<Rightarrow> nat" where
  "LongestCommonPrefix (a # as) (b # bs) = (if a = b then Suc (LongestCommonPrefix as bs) else 0)"
| "LongestCommonPrefix _ _ = 0"

text \<open>The first wildcard segment with its position; \<open>start\<close> says whether a segment starts here.\<close>

fun find_wildcard :: "bool \<Rightarrow> string \<Rightarrow> (nat \<times> string) option" where
  "find_wildcard start [] = None"
| "find_wildcard start (c # cs) =
     (if (c = CHR '':'' \<or> c = CHR ''*'') \<and> start
      then Some (0, takeWhile (\<lambda>x. x \<noteq> CHR ''/'') (c # cs))
      else map_option (\<lambda>(i, w). (Suc i, w)) (find_wildcard (c = CHR ''/'') cs))"

definition FindWildcard :: "string \<Rightarrow> (nat \<times> string) option" where
  "FindWildcard path = find_wildcard True path"

definition put_handler :: "string \<Rightarrow> 'h \<Rightarrow> 'h node_data \<Rightarrow> 'h node_data" where
  "put_handler m h d = (if m = [] then d\<lparr> handler_any := Some h \<rparr> else SetHandler m h d)"

lemma find_wildcard_nonempty: "find_wildcard b path = Some (i, w) \<Longrightarrow> 0 < length w \<and> i < length path"
  by (induction b path arbitrary: i w rule: find_wildcard.induct) (auto split: if_splits)

text \<open>A new child is filled in before it is linked to its parent.\<close>

function InsertChild :: "string \<Rightarrow> 'h \<Rightarrow> string \<Rightarrow> 'h node \<Rightarrow> 'h node" where
  "InsertChild path h m n =
     (case FindWildcard path of
        None \<Rightarrow> Node (put_handler m h ((ndata n)\<lparr> nd_path := path \<rparr>)) (nchildren n)
      | Some (pos, wildcard) \<Rightarrow>
          let n1 = (if 0 < pos then Node ((ndata n)\<lparr> nd_path := take pos path \<rparr>) (nchildren n) else n);
              path1 = drop pos path
          in if hd wildcard = CHR '':''
             then let child = new_data\<lparr> nd_type := PARAM, nd_path := wildcard, nd_pname := tl wildcard \<rparr>;
                      path2 = drop (length wildcard) path1
                  in if path2 = [] then AddParamChild (Node (put_handler m h child) []) n1
                     else AddParamChild
                            (AddStaticChild (InsertChild path2 h m new_node) (hd path2) (Node child [])) n1
             else let child = new_data\<lparr> nd_type := CATCH_ALL, nd_path := wildcard, nd_pname := tl wildcard \<rparr>
                  in AddCatchAllChild (Node (put_handler m h child) []) n1)"
  by pat_completeness auto
termination
  by (relation "measure (\<lambda>(path, h, m, n). length path)")
    (auto simp: FindWildcard_def dest!: find_wildcard_nonempty intro!: diff_less)

declare InsertChild.simps [simp del]

text \<open>Splitting a node after the first \<open>i\<close> characters of its path.\<close>

definition split_node :: "nat \<Rightarrow> 'h node \<Rightarrow> 'h node" where
  "split_node i n =
     (let d = ndata n;
          sp = Node (d\<lparr> nd_path := drop i (nd_path d), nd_type := STATIC, nd_pname := [] \<rparr>) (nchildren n)
      in Node (new_data\<lparr> nd_path := take i (nd_path d), nd_indices := [hd (nd_path (ndata sp))],
                 nd_type := nd_type d, nd_pname := nd_pname d \<rparr>) [sp])"

fun index_of :: "char \<Rightarrow> string \<Rightarrow> nat option" where
  "index_of c [] = None"
| "index_of c (x # xs) = (if c = x then Some 0 else map_option Suc (index_of c xs))"

lemma index_of_Some: "index_of c xs = Some j \<Longrightarrow> j < length xs \<and> xs ! j = c"
  by (induction xs arbitrary: j) (auto split: if_splits)

lemma index_of_None: "index_of c xs = None \<longleftrightarrow> c \<notin> set xs"
  by (induction xs) auto

lemma LongestCommonPrefix_le:
  "LongestCommonPrefix a b \<le> length a" "LongestCommonPrefix a b \<le> length b"
  by (induction a b rule: LongestCommonPrefix.induct) auto

lemma LongestCommonPrefix_take:
  "take (LongestCommonPrefix a b) a = take (LongestCommonPrefix a b) b"
  by (induction a b rule: LongestCommonPrefix.induct) auto

lemma LongestCommonPrefix_differ:
  "LongestCommonPrefix a b < length a \<Longrightarrow> LongestCommonPrefix a b < length b \<Longrightarrow>
     a ! LongestCommonPrefix a b \<noteq> b ! LongestCommonPrefix a b"
  by (induction a b rule: LongestCommonPrefix.induct) auto

lemma size_child [termination_simp]: "j < length cs \<Longrightarrow> size (cs ! j) < Suc (size_list size cs)"
  using size_list_estimation [of "cs ! j" cs "size (cs ! j)" size] nth_mem [of j cs]
    size_list_estimation' [of "cs ! j" cs "size (cs ! j)" size] by fastforce

text \<open>
  The descent of \<^verbatim>\<open>Insert\<close>, with the position of the node it returns. After a split the
  characters at the split point differ, so the loop only goes on below an unsplit node.
\<close>

function insert_loop :: "string \<Rightarrow> 'h \<Rightarrow> string \<Rightarrow> 'h node \<Rightarrow> ('h node \<times> nat list) option" where
  "insert_loop path h m n =
     (let i = LongestCommonPrefix (nd_path (ndata n)) path;
          n1 = (if i < length (nd_path (ndata n)) then split_node i n else n)
      in if i = length path then Some (Node (put_handler m h (ndata n1)) (nchildren n1), [])
         else
           let path1 = drop i path
           in case index_of (hd path1) (nd_indices (ndata n1)) of
                Some j \<Rightarrow>
                  (if j < length (nchildren n1)
                   then map_option
                          (\<lambda>(child, pos). (Node (ndata n1) ((nchildren n1)[j := child]), j # pos))
                          (insert_loop path1 h m (nchildren n1 ! j))
                   else None)
              | None \<Rightarrow>
                  Some (AddStaticChild (InsertChild path1 h m new_node) (hd path1) n1,
                        [length (nchildren n1)]))"
  by pat_completeness auto

lemma split_no_descent:
  assumes "LongestCommonPrefix (nd_path (ndata n)) path < length (nd_path (ndata n))"
    and "LongestCommonPrefix (nd_path (ndata n)) path \<noteq> length path"
  shows "index_of (hd (drop (LongestCommonPrefix (nd_path (ndata n)) path) path))
    (nd_indices (ndata (split_node (LongestCommonPrefix (nd_path (ndata n)) path) n))) = None"
  using assms LongestCommonPrefix_le(2) [of "nd_path (ndata n)" path]
    LongestCommonPrefix_differ [of "nd_path (ndata n)" path]
  by (simp add: split_node_def hd_drop_conv_nth Let_def)

termination insert_loop
proof (relation "measure (\<lambda>(path, h, m, n). size n)")
  fix path :: string and n :: "'h node" and h m i n1 path1 j
  assume i: "i = LongestCommonPrefix (nd_path (ndata n)) path"
    and n1: "n1 = (if i < length (nd_path (ndata n)) then split_node i n else n)"
    and ne: "i \<noteq> length path" and path1: "path1 = drop i path"
    and j: "index_of (hd path1) (nd_indices (ndata n1)) = Some j" "j < length (nchildren n1)"
  have "n1 = n"
    using split_no_descent [of n path] i n1 ne path1 j(1) by (auto split: if_splits)
  then have "size (nchildren n1 ! j) < size n"
    using j(2) by (cases n) (simp add: size_child)
  then show "((path1, h, m, nchildren n1 ! j), (path, h, m, n)) \<in> measure (\<lambda>(path, h, m, n). size n)"
    by simp
qed simp

declare insert_loop.simps [simp del]

definition Insert :: "string \<Rightarrow> 'h \<Rightarrow> string \<Rightarrow> 'h node \<Rightarrow> ('h node \<times> nat list) option" where
  "Insert path h m n =
     (if nd_path (ndata n) = [] \<and> nchildren n = [] \<and> \<not> HasHandler (ndata n)
      then Some (InsertChild path h m n, [])
      else insert_loop path h m n)"

text \<open>Assignment through the returned node.\<close>

fun update_at :: "nat list \<Rightarrow> ('h node_data \<Rightarrow> 'h node_data) \<Rightarrow> 'h node \<Rightarrow> 'h node" where
  "update_at [] f n = Node (f (ndata n)) (nchildren n)"
| "update_at (j # pos) f n =
     Node (ndata n) ((nchildren n)[j := update_at pos f (nchildren n ! j)])"

record 'h router =
  handlers :: "'h list"
  root :: "'h node"

definition new_router :: "'h router" where
  "new_router = \<lparr> handlers = [], root = new_node \<rparr>"

definition Add :: "string \<Rightarrow> 'h \<Rightarrow> 'h router \<Rightarrow> 'h router option" where
  "Add path h r =
     (let (path, is_prefix) =
            (if 1 < length path \<and> last path = CHR ''/'' then (butlast path, True)
             else if path = ''/'' then ([], True) else (path, False))
      in case Insert path h [] (root r) of
           None \<Rightarrow> None
         | Some (t, pos) \<Rightarrow>
             Some \<lparr> handlers = handlers r @ [h],
                    root = update_at pos
                      (\<lambda>d. (if is_prefix then d\<lparr> nd_prefix := True \<rparr> else d)\<lparr> handler_any := Some h \<rparr>) t \<rparr>)"

definition AddRoute :: "string \<Rightarrow> string \<Rightarrow> 'h \<Rightarrow> 'h router \<Rightarrow> 'h router option" where
  "AddRoute m path h r =
     (case Insert path h m (root r) of
        None \<Rightarrow> None
      | Some (t, pos) \<Rightarrow>
          Some \<lparr> handlers = handlers r @ [h], root = update_at pos (SetHandler m h) t \<rparr>)"

section \<open>RouterLookup\<close>

type_synonym params = "(string \<times> string) list"

definition usable :: "'h node_data option \<Rightarrow> 'h node_data option" where
  "usable fb = (case fb of Some d \<Rightarrow> if HasHandler d then Some d else None | None \<Rightarrow> None)"

definition check_fallback ::
  "'h node_data \<Rightarrow> 'h node list \<Rightarrow> string \<Rightarrow> params \<Rightarrow> 'h node_data option
    \<Rightarrow> ('h node_data option \<times> params) option" where
  "check_fallback d cs path ps fb =
     (case nd_catch d of
        Some q \<Rightarrow>
          (if q < length cs
           then Some (Some (ndata (cs ! q)), ps @ [(nd_pname (ndata (cs ! q)), path)]) else None)
      | None \<Rightarrow> Some (usable fb, ps))"

lemma size_grandchild:
  assumes "p < length cs" and "j < length (nchildren (cs ! p))"
  shows "size (nchildren (cs ! p) ! j) < Suc (size_list size cs)"
proof -
  have "size (nchildren (cs ! p) ! j) < size (cs ! p)"
    using assms(2) by (cases "cs ! p") (simp add: size_child)
  then show ?thesis
    using size_child [OF assms(1)] by simp
qed

function lookup_loop ::
  "'h node \<Rightarrow> string \<Rightarrow> params \<Rightarrow> 'h node_data option \<Rightarrow> ('h node_data option \<times> params) option" where
  "lookup_loop (Node d cs) path ps fb =
     (if \<not> prefix (nd_path d) path then check_fallback d cs path ps fb
      else
        let path1 = drop (length (nd_path d)) path
        in if path1 = []
           then Some (if HasHandler d \<or> nd_prefix d then Some d else usable fb, ps)
           else
             let fb1 = (if nd_prefix d \<and> HasHandler d then Some d else fb)
             in case index_of (hd path1) (nd_indices d) of
                  Some j \<Rightarrow> if j < length cs then lookup_loop (cs ! j) path1 ps fb1 else None
                | None \<Rightarrow>
                    let seg = takeWhile (\<lambda>x. x \<noteq> CHR ''/'') path1
                    in (case nd_param d of
                          None \<Rightarrow> check_fallback d cs path1 ps fb1
                        | Some p \<Rightarrow>
                            if seg = [] then check_fallback d cs path1 ps fb1
                            else if \<not> p < length cs then None
                            else
                              let pd = ndata (cs ! p); pcs = nchildren (cs ! p);
                                  ps1 = ps @ [(nd_pname pd, seg)]
                              in if length seg = length path1 then Some (Some pd, ps1)
                                 else
                                   let path2 = drop (length seg) path1
                                   in case index_of (hd path2) (nd_indices pd) of
                                        Some j \<Rightarrow>
                                          if j < length pcs then lookup_loop (pcs ! j) path2 ps1 fb1 else None
                                      | None \<Rightarrow>
                                          if HasHandler pd then Some (Some pd, ps1)
                                          else check_fallback pd pcs path2 ps1 fb1))"
  by pat_completeness auto

termination
  by (relation "measure (\<lambda>(n, path, ps, fb). size n)") (auto simp: size_child size_grandchild)

declare lookup_loop.simps [simp del]

definition RouterLookup :: "'h node \<Rightarrow> string \<Rightarrow> ('h node_data option \<times> params) option" where
  "RouterLookup n path =
     (if path = [] \<or> path = ''/''
      then Some (if HasHandler (ndata n) \<or> nd_prefix (ndata n) then Some (ndata n) else None, [])
      else lookup_loop n
             (if 1 < length path \<and> last path = CHR ''/'' then butlast path else path) [] None)"

definition any_handler :: "'h node_data \<Rightarrow> 'h option" where
  "any_handler d =
     (case handler_any d of Some h \<Rightarrow> Some h
      | None \<Rightarrow> (case handler_get d of Some h \<Rightarrow> Some h | None \<Rightarrow> handler_post d))"

definition method_handler :: "string \<Rightarrow> 'h node_data \<Rightarrow> 'h option" where
  "method_handler m d = (case GetHandler m d of Some h \<Rightarrow> Some h | None \<Rightarrow> handler_any d)"

definition MatchPath :: "'h router \<Rightarrow> string \<Rightarrow> 'h option option" where
  "MatchPath r path = map_option (\<lambda>(d, ps). Option.bind d any_handler) (RouterLookup (root r) path)"

definition MatchMethod :: "'h router \<Rightarrow> string \<Rightarrow> string \<Rightarrow> ('h option \<times> params) option" where
  "MatchMethod r m path =
     map_option (\<lambda>(d, ps). (Option.bind d (method_handler m), ps)) (RouterLookup (root r) path)"


section \<open>The route table\<close>

text \<open>What a node says about its own path, without its place in the tree.\<close>

definition entry :: "'h node_data \<Rightarrow> 'h node_data" where
  "entry d = d\<lparr> nd_path := [], nd_indices := [], nd_param := None, nd_catch := None,
     nd_type := STATIC, nd_pname := [] \<rparr>"

text \<open>The entry of a path relative to a node; a path without a node has the empty entry.\<close>

function table :: "'h node \<Rightarrow> string \<Rightarrow> 'h node_data" where
  "table (Node d cs) key =
     (if \<not> prefix (nd_path d) key then new_data
      else
        let k = drop (length (nd_path d)) key
        in if k = [] then entry d
           else case index_of (hd k) (nd_indices d) of
                  Some j \<Rightarrow> if j < length cs then table (cs ! j) k else new_data
                | None \<Rightarrow> new_data)"
  by pat_completeness auto
termination
  by (relation "measure (\<lambda>(n, key). size n)") (auto simp: size_child)

declare table.simps [simp del]

fun static_ok :: "'h node \<Rightarrow> bool" where
  "static_ok (Node d cs) \<longleftrightarrow>
     nd_param d = None \<and> nd_catch d = None \<and> length (nd_indices d) = length cs
     \<and> distinct (nd_indices d)
     \<and> (\<forall>j < length cs. nd_path (ndata (cs ! j)) \<noteq> [] \<and> hd (nd_path (ndata (cs ! j))) = nd_indices d ! j)
     \<and> (\<forall>c \<in> set cs. static_ok c)"

lemma entry_new [simp]: "entry new_data = new_data"
  by (simp add: entry_def new_data_def)

lemma table_outside: "\<not> prefix (nd_path (ndata n)) key \<Longrightarrow> table n key = new_data"
  by (cases n) (simp add: table.simps)

lemma table_here: "table n (nd_path (ndata n)) = entry (ndata n)"
  by (cases n) (simp add: table.simps)

lemma table_below:
  "r \<noteq> [] \<Longrightarrow> table (Node d cs) (nd_path d @ r) =
     (case index_of (hd r) (nd_indices d) of
        Some j \<Rightarrow> if j < length cs then table (cs ! j) r else new_data | None \<Rightarrow> new_data)"
  by (simp add: table.simps)

lemma table_cases [case_names outside here below]:
  obtains "\<not> prefix (nd_path (ndata n)) key" | "key = nd_path (ndata n)"
    | r where "key = nd_path (ndata n) @ r" "r \<noteq> []"
  by (metis append.right_neutral prefixE)

lemma index_of_snoc:
  "index_of c (xs @ [x]) =
     (if c \<in> set xs then index_of c xs else if c = x then Some (length xs) else None)"
  by (induction xs) auto

text \<open>An update of a node that does not touch its place in the tree.\<close>

definition label_op :: "('h node_data \<Rightarrow> 'h node_data) \<Rightarrow> bool" where
  "label_op f \<longleftrightarrow>
     (\<forall>d. entry (f d) = f (entry d) \<and> nd_path (f d) = nd_path d \<and> nd_indices (f d) = nd_indices d
        \<and> nd_param (f d) = nd_param d \<and> nd_catch (f d) = nd_catch d)"

lemma label_op_put_handler: "label_op (put_handler m h)"
  by (simp add: label_op_def put_handler_def SetHandler_def entry_def)

lemma label_op_simps:
  assumes "label_op f"
  shows "nd_path (f d) = nd_path d" "nd_indices (f d) = nd_indices d" "nd_param (f d) = nd_param d"
    "nd_catch (f d) = nd_catch d" "entry (f d) = f (entry d)"
  using assms by (simp_all add: label_op_def)

lemma table_relabel:
  assumes "label_op f"
  shows "table (Node (f d) cs) key = (if key = nd_path d then f (entry d) else table (Node d cs) key)"
  by (auto simp: table.simps Let_def prefix_def label_op_simps [OF assms])

lemma static_relabel: "label_op f \<Longrightarrow> static_ok (Node (f d) cs) = static_ok (Node d cs)"
  by (simp add: label_op_simps [of f])

lemma table_split:
  assumes "i < length (nd_path (ndata n))"
  shows "table (split_node i n) key = table n key"
proof -
  obtain d cs where n: "n = Node d cs"
    by (cases n)
  let ?p = "nd_path d"
  have p: "?p = take i ?p @ drop i ?p" "drop i ?p \<noteq> []" "length (take i ?p) = i"
    using assms n by auto
  have sp: "table (Node (d\<lparr>nd_path := drop i ?p, nd_type := STATIC, nd_pname := []\<rparr>) cs) r = table n (take i ?p @ r)" for r
    using p(3) by (simp add: n table.simps Let_def entry_def prefix_def)
      (metis append.assoc append_take_drop_id same_append_eq)
  show ?thesis
  proof (cases rule: table_cases [of "split_node i n" key])
    case outside
    then have "\<not> prefix ?p key"
      using take_is_prefix [of i ?p] by (auto simp: split_node_def n Let_def dest: prefix_order.trans)
    then show ?thesis
      using outside by (simp add: table_outside n)
  next
    case here
    then have "\<not> prefix ?p key"
      using p assms n by (auto simp: split_node_def Let_def dest: prefix_length_le)
    then show ?thesis
      using here table_here [of "split_node i n"]
      by (simp add: table_outside n split_node_def Let_def entry_def new_data_def)
  next
    case (below r)
    then have key: "key = take i ?p @ r"
      by (simp add: split_node_def n Let_def)
    have "\<not> prefix ?p (take i ?p @ r)" if "hd r \<noteq> hd (drop i ?p)"
      using that p(2) below(2) by (metis append_take_drop_id same_prefix_prefix hd_append2 prefixE)
    then show ?thesis
      unfolding key using below(2) sp [of r] p(3)
      by (auto simp: split_node_def n Let_def table.simps [of _ "[_]"] table_outside)
  qed
qed

lemma static_split: "static_ok n \<Longrightarrow> i < length (nd_path (ndata n)) \<Longrightarrow> static_ok (split_node i n)"
  by (cases n) (auto simp: split_node_def Let_def new_data_def)


section \<open>Insertion refines the table update\<close>

definition static_path :: "string \<Rightarrow> bool" where
  "static_path path \<longleftrightarrow> CHR '':'' \<notin> set path \<and> CHR ''*'' \<notin> set path"

lemma static_path_drop: "static_path path \<Longrightarrow> static_path (drop i path)"
  by (auto simp: static_path_def dest: in_set_dropD)

lemma InsertChild_static:
  assumes "static_path path"
  shows "InsertChild path h m n = Node (put_handler m h ((ndata n)\<lparr> nd_path := path \<rparr>)) (nchildren n)"
proof -
  have "find_wildcard b path = None" for b
    using assms by (induction path arbitrary: b) (auto simp: static_path_def)
  then show ?thesis
    by (simp add: InsertChild.simps FindWildcard_def)
qed

definition leaf :: "'h node_data \<Rightarrow> string \<Rightarrow> 'h node" where
  "leaf d p = Node (d\<lparr> nd_path := p \<rparr>) []"

lemma table_add_leaf:
  assumes "static_ok n" and "hd p \<notin> set (nd_indices (ndata n))" and "p \<noteq> []"
    and "nd_indices l = []" and "nd_path l = p"
  shows "table (AddStaticChild (Node l []) (hd p) n) key =
    (if key = nd_path (ndata n) @ p then entry l else table n key)"
proof -
  obtain d cs where n: "n = Node d cs"
    by (cases n)
  have len: "length (nd_indices d) = length cs"
    using assms(1) n by simp
  let ?n = "AddStaticChild (Node l []) (hd p) n"
  have path: "nd_path (ndata ?n) = nd_path d" and entry: "entry (ndata ?n) = entry d"
    by (simp_all add: AddStaticChild_def n entry_def)
  show ?thesis
  proof (cases rule: table_cases [of n key])
    case outside
    then show ?thesis
      using path n by (auto simp: table_outside)
  next
    case here
    then show ?thesis
      using table_here [of ?n] table_here [of n] path entry assms(3) by (simp add: n)
  next
    case (below r)
    have leaf: "table (Node l []) r = (if r = p then entry l else new_data)"
      using assms(4,5) by (auto simp: table.simps prefix_def split: if_splits)
    have "table n key = new_data" if "hd r = hd p"
      using that below assms(2) index_of_None [of "hd r" "nd_indices d"] by (simp add: n table_below)
    moreover have "table ?n key = (if hd r = hd p then table (Node l []) r else table n key)"
      using below assms(2) len index_of_Some [of "hd r" "nd_indices d"] index_of_None [of "hd r" "nd_indices d"]
      by (auto simp: n AddStaticChild_def table.simps [of _ "_ @ _"] table_below index_of_snoc nth_append
          split: option.splits)
    ultimately show ?thesis
      using leaf below by (auto simp: n)
  qed
qed

lemma static_add_leaf:
  assumes "static_ok n" and "hd p \<notin> set (nd_indices (ndata n))" and "p \<noteq> []"
    and "nd_indices l = []" and "nd_path l = p" and "nd_param l = None" and "nd_catch l = None"
  shows "static_ok (AddStaticChild (Node l []) (hd p) n)"
  using assms by (cases n) (auto simp: AddStaticChild_def nth_append less_Suc_eq)

lemma put_handler_fields [simp]:
  "nd_path (put_handler m h d) = nd_path d" "nd_indices (put_handler m h d) = nd_indices d"
  "nd_param (put_handler m h d) = nd_param d" "nd_catch (put_handler m h d) = nd_catch d"
  by (simp_all add: put_handler_def SetHandler_def)

text \<open>The common prefix of a path and a node that starts with the same character is not empty.\<close>

lemma update_at_path:
  "label_op f \<Longrightarrow> nd_path (ndata (update_at pos f n)) = nd_path (ndata n)"
  by (cases pos) (simp_all add: label_op_simps [of f])

lemma insert_loop_path:
  assumes "insert_loop path h m n = Some (n', pos)"
  shows "nd_path (ndata n') = take (LongestCommonPrefix (nd_path (ndata n)) path) (nd_path (ndata n))"
  using assms LongestCommonPrefix_le(1) [of "nd_path (ndata n)" path]
  by (subst (asm) insert_loop.simps)
    (auto simp: Let_def split_node_def AddStaticChild_def split: if_splits option.splits)

lemma insert_loop_first:
  assumes "insert_loop path h m n = Some (n', pos)" and "path \<noteq> []" and "nd_path (ndata n) \<noteq> []"
    and "hd path = hd (nd_path (ndata n))"
  shows "nd_path (ndata n') \<noteq> [] \<and> hd (nd_path (ndata n')) = hd path"
  using assms(2-4) insert_loop_path [OF assms(1)] by (cases path; cases "nd_path (ndata n)") auto

lemma add_leaf_table:
  fixes h :: 'h and m :: string
  assumes "static_ok n" and "static_path p" and "p \<noteq> []" and "hd p \<notin> set (nd_indices (ndata n))"
    and "label_op f"
  defines "n' \<equiv> update_at [length (nchildren n)] f (AddStaticChild (InsertChild p h m new_node) (hd p) n)"
  shows "static_ok n' \<and> table n' = (table n)(nd_path (ndata n) @ p := f (put_handler m h new_data))"
proof -
  define l where "l = f (put_handler m h (new_data\<lparr> nd_path := p \<rparr>))"
  have l: "nd_path l = p" "nd_indices l = []" "nd_param l = None" "nd_catch l = None"
    by (simp_all add: l_def new_data_def label_op_simps [OF assms(5)])
  have e: "entry l = f (put_handler m h new_data)"
    by (simp add: l_def label_op_simps [OF assms(5)] label_op_simps(5) [OF label_op_put_handler])
      (simp add: entry_def new_data_def)
  have n': "n' = AddStaticChild (Node l []) (hd p) n"
    using assms(2) by (simp add: n'_def AddStaticChild_def InsertChild_static new_node_def l_def)
  show ?thesis
    unfolding n' using static_add_leaf [OF assms(1,4,3) l(2,1,3,4)]
      table_add_leaf [OF assms(1,4,3) l(2,1)] e by auto
qed

lemma table_update_child:
  assumes "index_of (hd p) (nd_indices d) = Some j" and "j < length cs" and "p \<noteq> []"
    and "table c = (table (cs ! j))(p := v)"
  shows "table (Node d (cs[j := c])) = (table (Node d cs))(nd_path d @ p := v)"
proof
  fix key
  show "table (Node d (cs[j := c])) key = ((table (Node d cs))(nd_path d @ p := v)) key"
  proof (cases rule: table_cases [of "Node d cs" key])
    case outside
    then show ?thesis
      by (auto simp: table_outside)
  next
    case here
    then show ?thesis
      using table_here [of "Node d cs"] table_here [of "Node d (cs[j := c])"] assms(3) by simp
  next
    case (below r)
    have "index_of (hd r) (nd_indices d) = Some j \<Longrightarrow> hd r = hd p"
      using index_of_Some assms(1) by metis
    then show ?thesis
      using below assms
      by (cases "index_of (hd r) (nd_indices d)") (auto simp: table_below nth_list_update)
  qed
qed

lemma static_update_child:
  assumes "static_ok (Node d cs)" and "j < length cs" and "static_ok c"
    and "nd_path (ndata c) \<noteq> []" and "hd (nd_path (ndata c)) = nd_indices d ! j"
  shows "static_ok (Node d (cs[j := c]))"
  using assms by (auto simp: nth_list_update dest: set_update_subset_insert [THEN subsetD])

lemma insert_loop_table:
  assumes "static_ok n" and "static_path path" and "label_op f"
  shows "\<exists>n' pos. insert_loop path h m n = Some (n', pos) \<and> static_ok (update_at pos f n')
    \<and> table (update_at pos f n') = (table n)(path := f (put_handler m h (table n path)))"
  using assms(1,2)
proof (induction n arbitrary: path)
  case (Node d cs)
  let ?i = "LongestCommonPrefix (nd_path d) path"
  define n1 where "n1 = (if ?i < length (nd_path d) then split_node ?i (Node d cs) else Node d cs)"
  have ok1: "static_ok n1" and t1: "table n1 = table (Node d cs)"
    using Node.prems(1) static_split [of "Node d cs" ?i] table_split [of ?i "Node d cs"]
    by (auto simp: n1_def)
  have p1: "nd_path (ndata n1) = take ?i (nd_path d)"
    using LongestCommonPrefix_le(1) [of "nd_path d" path] by (simp add: n1_def split_node_def Let_def)
  have path: "path = nd_path (ndata n1) @ drop ?i path"
    unfolding p1 using LongestCommonPrefix_take [of "nd_path d" path] by (metis append_take_drop_id)
  show ?case
  proof (cases "?i = length path")
    case True
    have "insert_loop path h m (Node d cs) = Some (Node (put_handler m h (ndata n1)) (nchildren n1), [])"
      using True by (subst insert_loop.simps) (simp add: n1_def Let_def)
    moreover have "nd_path (ndata n1) = path"
      using path True by simp
    moreover have "label_op (\<lambda>d. f (put_handler m h d))"
      using assms(3) label_op_put_handler [of m h] by (simp add: label_op_def)
    ultimately show ?thesis
      using ok1 t1 table_here [of n1] table_relabel [of "\<lambda>d. f (put_handler m h d)" "ndata n1" "nchildren n1"]
        static_relabel [of "\<lambda>d. f (put_handler m h d)" "ndata n1" "nchildren n1"]
      by (auto simp: fun_eq_iff)
  next
    case False
    let ?p = "drop ?i path"
    have ne: "?p \<noteq> []"
      using False LongestCommonPrefix_le(2) [of "nd_path d" path] by simp
    have sp: "static_path ?p"
      using Node.prems(2) by (rule static_path_drop)
    show ?thesis
    proof (cases "index_of (hd ?p) (nd_indices (ndata n1))")
      case None
      then have "insert_loop path h m (Node d cs) =
          Some (AddStaticChild (InsertChild ?p h m new_node) (hd ?p) n1, [length (nchildren n1)])"
        using False by (subst insert_loop.simps) (simp add: n1_def Let_def)
      moreover have "table (Node d cs) path = new_data"
        using None ne t1 path table_below [of ?p "ndata n1" "nchildren n1"] by (cases n1) auto
      moreover have c: "hd ?p \<notin> set (nd_indices (ndata n1))"
        using None by (simp add: index_of_None)
      ultimately show ?thesis
        using add_leaf_table [OF ok1 sp ne c assms(3), of h m] unfolding t1 path [symmetric] by auto
    next
      case (Some j)
      have n1: "n1 = Node d cs" and full: "?i = length (nd_path d)"
        using Some False split_no_descent [of "Node d cs" path] LongestCommonPrefix_le(1) [of "nd_path d" path]
        by (auto simp: n1_def split: if_splits)
      have ix: "index_of (hd ?p) (nd_indices d) = Some j" and j: "j < length cs" "nd_indices d ! j = hd ?p"
        using Some n1 Node.prems(1) index_of_Some [of "hd ?p" "nd_indices d" j] by auto
      have child: "cs ! j \<in> set cs" "static_ok (cs ! j)" "nd_path (ndata (cs ! j)) \<noteq> []"
          "hd ?p = hd (nd_path (ndata (cs ! j)))"
        using Node.prems(1) j by auto
      from Node.IH [OF child(1,2) sp] obtain c pos where c: "insert_loop ?p h m (cs ! j) = Some (c, pos)"
        "static_ok (update_at pos f c)"
        "table (update_at pos f c) = (table (cs ! j))(?p := f (put_handler m h (table (cs ! j) ?p)))"
        by blast
      have loop: "insert_loop path h m (Node d cs) = Some (Node d (cs[j := c]), j # pos)"
        using False ix j c(1) full by (subst insert_loop.simps) (simp add: Let_def)
      have "static_ok (Node d (cs[j := update_at pos f c]))"
        using static_update_child [OF Node.prems(1) j(1) c(2)] insert_loop_first [OF c(1) ne child(3,4)]
          update_at_path [OF assms(3), of pos c] j(2) by simp
      moreover have "table (Node d (cs[j := update_at pos f c])) =
          (table (Node d cs))(path := f (put_handler m h (table (Node d cs) path)))"
        using table_update_child [OF ix j(1) ne c(3)] table_below [OF ne, of d cs] ix j(1) path n1
        by simp
      moreover have "update_at (j # pos) f (Node d (cs[j := c])) = Node d (cs[j := update_at pos f c])"
        using j(1) by simp
      ultimately show ?thesis
        using loop by metis
    qed
  qed
qed


section \<open>RouterLookup refines the table lookup\<close>

definition active :: "'h node_data \<Rightarrow> bool" where
  "active d \<longleftrightarrow> HasHandler d \<or> nd_prefix d"

definition is_prefix_route :: "'h node_data \<Rightarrow> bool" where
  "is_prefix_route d \<longleftrightarrow> nd_prefix d \<and> HasHandler d"

text \<open>The prefix route for the longest proper prefix of \<open>path\<close>, \<open>fb\<close> when there is none.\<close>

definition best :: "(string \<Rightarrow> 'h node_data) \<Rightarrow> string \<Rightarrow> 'h node_data option \<Rightarrow> 'h node_data option" where
  "best T path fb =
     fold (\<lambda>n acc. if is_prefix_route (T (take n path)) then Some (T (take n path)) else acc)
       [0..<length path] fb"

definition find_route :: "(string \<Rightarrow> 'h node_data) \<Rightarrow> string \<Rightarrow> 'h node_data option \<Rightarrow> 'h node_data option" where
  "find_route T path fb = (if active (T path) then Some (T path) else usable (best T path fb))"

lemma entry_flags [simp]:
  "HasHandler (entry d) = HasHandler d" "nd_prefix (entry d) = nd_prefix d"
  "active (entry d) = active d" "is_prefix_route (entry d) = is_prefix_route d"
  by (simp_all add: HasHandler_def active_def is_prefix_route_def entry_def)

lemma new_data_flags [simp]: "\<not> active new_data" "\<not> is_prefix_route new_data"
  by (simp_all add: active_def is_prefix_route_def HasHandler_def new_data_def)

lemma usable_entry: "usable (map_option entry fb) = map_option entry (usable fb)"
  by (auto simp: usable_def split: option.splits)

lemma fold_same: "(\<And>x. x \<in> set xs \<Longrightarrow> f x = g x) \<Longrightarrow> fold f xs a = fold g xs a"
  by (induction xs arbitrary: a) auto

lemma fold_none: "(\<And>n. n \<in> set xs \<Longrightarrow> \<not> P n) \<Longrightarrow> fold (\<lambda>n acc. if P n then g n else acc) xs a = a"
  by (induction xs arbitrary: a) auto

lemma best_short:
  assumes "\<And>k. k < length path \<Longrightarrow> \<not> is_prefix_route (T (take k path))"
  shows "best T path fb = fb"
  unfolding best_def using assms by (intro fold_none) auto

lemma best_append:
  assumes "\<And>k. k < length p \<Longrightarrow> \<not> is_prefix_route (T (take k p))"
  shows "best T (p @ r) fb = best (\<lambda>k. T (p @ k)) r fb"
proof -
  have split: "[0..<length (p @ r)] = [0..<length p] @ map ((+) (length p)) [0..<length r]"
    by (rule nth_equalityI) (auto simp: nth_append)
  show ?thesis
    unfolding best_def split fold_append comp_apply
    using assms by (subst fold_none) (auto simp: fold_map comp_def)
qed

lemma best_cong:
  assumes "\<And>k. k < length path \<Longrightarrow> T (take k path) = T' (take k path)"
  shows "best T path fb = best T' path fb"
  unfolding best_def using assms by (intro fold_same) auto

lemma best_first:
  assumes "r \<noteq> []" and "\<And>k. 0 < k \<Longrightarrow> k < length r \<Longrightarrow> T (take k r) = T' (take k r)"
    and "\<not> is_prefix_route (T' [])"
  shows "best T r fb = best T' r (if is_prefix_route (T []) then Some (T []) else fb)"
proof -
  obtain x xs where r: "r = x # xs"
    using assms(1) by (cases r) auto
  have up: "[0..<length r] = 0 # [1..<length r]"
    using r by (subst upt_conv_Cons) (auto simp del: upt_Suc)
  show ?thesis
    unfolding best_def up using assms(2,3) by (auto intro!: fold_same)
qed

lemma lookup_loop_table:
  assumes "static_ok n"
  shows "map_option (\<lambda>(d, ps). (map_option entry d, ps)) (lookup_loop n path ps fb) =
    Some (find_route (table n) path (map_option entry fb), ps)"
  using assms
proof (induction n arbitrary: path fb)
  case (Node d cs)
  have plain: "nd_param d = None" "nd_catch d = None"
    using Node.prems by simp_all
  have above: "\<not> is_prefix_route (table (Node d cs) (take k (nd_path d)))" if "k < length (nd_path d)" for k
  proof -
    have "\<not> prefix (nd_path d) (take k (nd_path d))"
      using that by (auto dest: prefix_length_le)
    then show ?thesis
      by (simp add: table_outside)
  qed
  show ?case
  proof (cases rule: table_cases [of "Node d cs" path])
    case outside
    have "table (Node d cs) (take k path) = new_data" for k
      using outside take_is_prefix [of k path] by (auto simp: table_outside dest: prefix_order.trans)
    then have "best (table (Node d cs)) path f = f" for f
      by (intro best_short) simp
    then show ?thesis
      using outside plain by (simp add: lookup_loop.simps check_fallback_def find_route_def table_outside usable_entry)
  next
    case here
    then show ?thesis
      using table_here [of "Node d cs"] above best_short [of path "table (Node d cs)"]
      by (auto simp: lookup_loop.simps find_route_def active_def usable_entry)
  next
    case (below r)
    define fb1 where "fb1 = (if nd_prefix d \<and> HasHandler d then Some d else fb)"
    define T where "T = (\<lambda>k. table (Node d cs) (nd_path d @ k))"
    have T0: "T [] = entry d"
      using table_here [of "Node d cs"] by (simp add: T_def)
    have fb1: "map_option entry fb1 = (if is_prefix_route (T []) then Some (T []) else map_option entry fb)"
      by (simp add: fb1_def T0 is_prefix_route_def)
    have hd: "hd (take k r) = hd r" "take k r \<noteq> []" if "0 < k" for k
      using that below(2) by auto
    have best: "best (table (Node d cs)) path f = best T r f" for f
      unfolding T_def using below(1) above by (simp add: best_append)
    show ?thesis
    proof (cases "index_of (hd r) (nd_indices d)")
      case None
      have "T (take k r) = new_data" if "0 < k" for k
        using hd [OF that] None by (simp add: T_def table_below)
      then have "best T r f = best (\<lambda>_. new_data) r (if is_prefix_route (T []) then Some (T []) else f)" for f
        by (intro best_first [OF below(2)]) auto
      moreover have "best (\<lambda>_. new_data) r f = f" for f :: "'a node_data option"
        by (intro best_short) simp
      ultimately show ?thesis
        using below None plain best fb1
        by (simp add: lookup_loop.simps Let_def check_fallback_def find_route_def table_below usable_entry [symmetric]
            fb1_def [symmetric])
    next
      case (Some j)
      have j: "j < length cs" "nd_path (ndata (cs ! j)) \<noteq> []" "cs ! j \<in> set cs" "static_ok (cs ! j)"
        using index_of_Some [OF Some] Node.prems by auto
      have "table (cs ! j) [] = new_data"
        using j(2) by (simp add: table_outside)
      then have "best T r f = best (table (cs ! j)) r (if is_prefix_route (T []) then Some (T []) else f)" for f
        using hd Some j(1) by (intro best_first [OF below(2)]) (auto simp: T_def table_below)
      then have "find_route (table (Node d cs)) path (map_option entry fb) =
          find_route (table (cs ! j)) r (map_option entry fb1)"
        using below Some j(1) best fb1 by (simp add: find_route_def table_below)
      then show ?thesis
        using Node.IH [OF j(3,4), of r fb1] below Some j(1)
        by (simp add: lookup_loop.simps Let_def fb1_def [symmetric])
    qed
  qed
qed

section \<open>Registered routes\<close>

datatype 'h registration = Any string 'h | On string string 'h

fun register :: "'h registration \<Rightarrow> 'h router \<Rightarrow> 'h router option" where
  "register (Any path h) r = Add path h r"
| "register (On m path h) r = AddRoute m path h r"

definition register_all :: "'h registration list \<Rightarrow> 'h router \<Rightarrow> 'h router option" where
  "register_all = run_ops register"

text \<open>The specification: what a registration does to the route table.\<close>

fun spec_register :: "'h registration \<Rightarrow> (string \<Rightarrow> 'h node_data) \<Rightarrow> string \<Rightarrow> 'h node_data" where
  "spec_register (Any path h) T =
     (let (key, p) = (if path = ''/'' then ([], True)
                      else if path \<noteq> [] \<and> last path = CHR ''/'' then (butlast path, True)
                      else (path, False))
      in T(key := (T key)\<lparr> nd_prefix := p \<or> nd_prefix (T key), handler_any := Some h \<rparr>))"
| "spec_register (On m path h) T = T(path := SetHandler m h (T path))"

fun static_reg :: "'h registration \<Rightarrow> bool" where
  "static_reg (Any path h) \<longleftrightarrow> static_path path"
| "static_reg (On m path h) \<longleftrightarrow> static_path path \<and> m \<noteq> []"

definition request_key :: "string \<Rightarrow> string" where
  "request_key path =
     (if path = ''/'' then [] else if path \<noteq> [] \<and> last path = CHR ''/'' then butlast path else path)"

text \<open>A tree whose root is the route for \<^verbatim>\<open>/\<close>.\<close>

definition rooted :: "'h node \<Rightarrow> bool" where
  "rooted n \<longleftrightarrow> static_ok n \<and> nd_path (ndata n) = [] \<and> HasHandler (ndata n)"

lemma label_op_any: "label_op (\<lambda>d. (if b then d\<lparr> nd_prefix := True \<rparr> else d)\<lparr> handler_any := Some h \<rparr>)"
  by (simp add: label_op_def entry_def)

lemma label_op_SetHandler: "label_op (SetHandler m h)"
  by (simp add: label_op_def SetHandler_def entry_def)

lemma SetHandler_twice [simp]: "SetHandler m h (SetHandler m h d) = SetHandler m h d"
  by (simp add: SetHandler_def)

lemma HasHandler_put: "HasHandler (put_handler m h d)"
  by (simp add: HasHandler_def put_handler_def SetHandler_def)

lemma insert_rooted:
  assumes "rooted n" and "static_path path" and "label_op f" and "\<And>d. HasHandler d \<Longrightarrow> HasHandler (f d)"
  shows "\<exists>n' pos. Insert path h m n = Some (n', pos) \<and> rooted (update_at pos f n')
    \<and> table (update_at pos f n') = (table n)(path := f (put_handler m h (table n path)))"
proof -
  have "Insert path h m n = insert_loop path h m n"
    using assms(1) by (simp add: Insert_def rooted_def)
  moreover obtain n' pos where n': "insert_loop path h m n = Some (n', pos)"
    "static_ok (update_at pos f n')"
    "table (update_at pos f n') = (table n)(path := f (put_handler m h (table n path)))"
    using insert_loop_table [OF _ assms(2,3)] assms(1) unfolding rooted_def by blast
  moreover have "nd_path (ndata (update_at pos f n')) = []"
    using insert_loop_path [OF n'(1)] assms(1) update_at_path [OF assms(3), of pos n'] by (simp add: rooted_def)
  moreover have "HasHandler (ndata (update_at pos f n'))"
  proof -
    have "entry (ndata (update_at pos f n')) = table (update_at pos f n') []"
      using table_here [of "update_at pos f n'"] \<open>nd_path (ndata (update_at pos f n')) = []\<close> by metis
    moreover have "HasHandler (table n [])"
      using table_here [of n] assms(1) by (simp add: rooted_def)
    ultimately show ?thesis
      using n'(3) assms(4) HasHandler_put entry_flags(1) by (metis fun_upd_apply)
  qed
  ultimately show ?thesis
    by (auto simp: rooted_def)
qed

lemma register_refines:
  assumes "rooted (root r)" and "static_reg g"
  shows "\<exists>r'. register g r = Some r' \<and> rooted (root r')
    \<and> table (root r') = spec_register g (table (root r))"
proof (cases g)
  case (Any path h)
  define key where "key = (if path = ''/'' then [] else if path \<noteq> [] \<and> last path = CHR ''/'' then butlast path else path)"
  define p where "p \<longleftrightarrow> path \<noteq> [] \<and> last path = CHR ''/''"
  let ?f = "\<lambda>d. (if p then d\<lparr> nd_prefix := True \<rparr> else d)\<lparr> handler_any := Some h \<rparr>"
  have pair: "(if 1 < length path \<and> last path = CHR ''/'' then (butlast path, True)
      else if path = ''/'' then ([], True) else (path, False)) = (key, p)"
    by (cases path rule: rev_cases) (auto simp: key_def p_def)
  have "static_path key"
    using assms(2) Any by (auto simp: key_def static_path_def dest: in_set_butlastD)
  moreover have "HasHandler d \<Longrightarrow> HasHandler (?f d)" for d
    by (simp add: HasHandler_def)
  ultimately obtain n' pos where n': "Insert key h [] (root r) = Some (n', pos)" "rooted (update_at pos ?f n')"
      "table (update_at pos ?f n') = (table (root r))(key := ?f (put_handler [] h (table (root r) key)))"
    using insert_rooted [OF assms(1) _ label_op_any [of h p]] by blast
  moreover have "spec_register g T = T(key := ?f (put_handler [] h (T key)))" for T
    by (auto simp: Any key_def p_def put_handler_def)
  ultimately show ?thesis
    unfolding Any register.simps Add_def pair by simp
next
  case (On m path h)
  have sp: "static_path path"
    using assms(2) On by simp
  have "HasHandler d \<Longrightarrow> HasHandler (SetHandler m h d)" for d
    by (auto simp: HasHandler_def SetHandler_def)
  then obtain n' pos where "Insert path h m (root r) = Some (n', pos)" "rooted (update_at pos (SetHandler m h) n')"
      "table (update_at pos (SetHandler m h) n') =
        (table (root r))(path := SetHandler m h (put_handler m h (table (root r) path)))"
    using insert_rooted [OF assms(1) sp label_op_SetHandler [of m h]] by blast
  then show ?thesis
    using assms(2) by (simp add: On AddRoute_def put_handler_def)
qed

lemma register_root:
  "\<exists>r. register (Any ''/'' h) new_router = Some r \<and> rooted (root r)
     \<and> table (root r) = spec_register (Any ''/'' h) (\<lambda>_. new_data)"
proof -
  let ?d = "new_data\<lparr> nd_prefix := True, handler_any := Some h \<rparr>"
  have "register (Any ''/'' h) new_router = Some \<lparr> handlers = [h], root = Node ?d [] \<rparr>"
    by (simp add: Add_def Insert_def new_router_def new_node_def new_data_def HasHandler_def
        InsertChild.simps FindWildcard_def put_handler_def)
  moreover have "rooted (Node ?d [])"
    by (simp add: rooted_def new_data_def HasHandler_def)
  moreover have "table (Node ?d []) = (\<lambda>_. new_data)([] := ?d)"
    by (auto simp: fun_eq_iff table.simps entry_def new_data_def)
  ultimately show ?thesis
    by (simp add: new_data_def)
qed

interpretation route_tree: op_refinement register spec_register "\<lambda>r. table (root r)" "\<lambda>r. rooted (root r)" static_reg
  by unfold_locales (rule register_refines)

definition route_table :: "'h registration list \<Rightarrow> string \<Rightarrow> 'h node_data" where
  "route_table gs = fold spec_register gs (\<lambda>_. new_data)"

lemma RouterLookup_table:
  assumes "rooted n"
  shows "map_option (\<lambda>(d, ps). (map_option entry d, ps)) (RouterLookup n path) =
    Some (find_route (table n) (request_key path) None, [])"
proof (cases "path = [] \<or> path = ''/''")
  case True
  have "table n [] = entry (ndata n)"
    using table_here [of n] assms by (simp add: rooted_def)
  then show ?thesis
    using True assms by (auto simp: RouterLookup_def request_key_def find_route_def active_def rooted_def)
next
  case False
  then have "(if 1 < length path \<and> last path = CHR ''/'' then butlast path else path) = request_key path"
    by (cases path rule: rev_cases) (auto simp: request_key_def)
  then show ?thesis
    using False lookup_loop_table [of n "request_key path" "[]" None] assms
    by (simp add: RouterLookup_def rooted_def)
qed

lemma entry_handlers [simp]:
  "any_handler (entry d) = any_handler d" "method_handler m (entry d) = method_handler m d"
  by (simp_all add: any_handler_def method_handler_def GetHandler_def entry_def split: option.split)

lemma bind_entry:
  "Option.bind (map_option entry d) any_handler = Option.bind d any_handler"
  "Option.bind (map_option entry d) (method_handler m) = Option.bind d (method_handler m)"
  by (cases d; simp)+

lemma tree_refines_table:
  assumes "list_all static_reg gs"
  shows "\<exists>r. register_all (Any ''/'' h0 # gs) new_router = Some r
    \<and> MatchPath r path =
        Some (Option.bind (find_route (route_table (Any ''/'' h0 # gs)) (request_key path) None) any_handler)
    \<and> MatchMethod r m path =
        Some (Option.bind (find_route (route_table (Any ''/'' h0 # gs)) (request_key path) None)
                (method_handler m), [])"
proof -
  obtain r0 where r0: "register (Any ''/'' h0) new_router = Some r0" "rooted (root r0)"
    "table (root r0) = spec_register (Any ''/'' h0) (\<lambda>_. new_data)"
    using register_root [of h0] by (elim exE conjE)
  obtain r where r: "register_all gs r0 = Some r" "rooted (root r)"
    "table (root r) = fold spec_register gs (table (root r0))"
    using route_tree.run_refines [OF r0(2) assms] unfolding register_all_def by blast
  have T: "table (root r) = route_table (Any ''/'' h0 # gs)"
    using r(3) r0(3) by (simp add: route_table_def)
  obtain d ps where L: "RouterLookup (root r) path = Some (d, ps)" and ps: "ps = []"
    and d: "map_option entry d = find_route (route_table (Any ''/'' h0 # gs)) (request_key path) None"
    using RouterLookup_table [OF r(2), of path] T by (auto simp: map_option_case split: option.splits)
  show ?thesis
    using r0(1) r(1) L ps bind_entry [of d] d by (auto simp: MatchPath_def MatchMethod_def register_all_def)
qed

text \<open>C14. The compressed tree implements the route table: after any sequence of registrations
  without wildcards that starts with the default route, every registration succeeded, and
  matching a request gives the route of the request's path (one trailing slash ignored), or
  else the prefix route of the longest registered prefix, and from it the handler for the
  method.\<close>

theorem router_refines_table:
  assumes "list_all static_reg gs"
  shows "\<exists>r. register_all (Any ''/'' h0 # gs) new_router = Some r
    \<and> MatchPath r path =
        Some (Option.bind (find_route (route_table (Any ''/'' h0 # gs)) (request_key path) None) any_handler)
    \<and> MatchMethod r m path =
        Some (Option.bind (find_route (route_table (Any ''/'' h0 # gs)) (request_key path) None)
                (method_handler m), [])"
  using assms by (rule tree_refines_table)

theorem router_refines_table_witness:
  "\<exists>r. register_all [Any ''/'' (0 :: nat), Any ''/api/'' 1, On ''GET'' ''/api/v1'' 2] new_router = Some r
    \<and> MatchMethod r ''GET'' ''/api/v1/'' = Some (Some 2, [])
    \<and> MatchPath r ''/api/v2'' = Some (Some 1)"
proof -
  let ?gs = "[Any ''/api/'' (1 :: nat), On ''GET'' ''/api/v1'' 2]"
  have ok: "list_all static_reg ?gs"
    by (simp add: static_path_def)
  have "find_route (route_table (Any ''/'' 0 # ?gs)) (request_key ''/api/v1/'') None =
      Some (new_data\<lparr> handler_get := Some 2 \<rparr>)"
    "find_route (route_table (Any ''/'' 0 # ?gs)) (request_key ''/api/v2'') None =
      Some (new_data\<lparr> nd_prefix := True, handler_any := Some 1 \<rparr>)"
    by code_simp+
  then show ?thesis
    using router_refines_table [OF ok, of 0 "''/api/v1/''" "''GET''"]
      router_refines_table [OF ok, of 0 "''/api/v2''" "''GET''"]
    by (auto simp: method_handler_def any_handler_def GetHandler_def new_data_def)
qed

section \<open>Routes from the configuration\<close>

record UpstreamAddr =
  ua_host :: string
  ua_port :: u16

record ProxyRoute =
  pr_prefix :: string
  pr_upstreams :: "UpstreamAddr list"

record RedirectRule =
  rr_from :: string
  rr_to :: string
  rr_code :: int

datatype route_handler =
  StaticFileHandler
| ReverseProxy "UpstreamAddr list"
| RedirectHandler string int
| HealthHandler

definition proxy_regs :: "ProxyRoute \<Rightarrow> route_handler registration list" where
  "proxy_regs pr = (if pr_upstreams pr = [] then [] else [Any (pr_prefix pr) (ReverseProxy (pr_upstreams pr))])"

definition redirect_regs :: "RedirectRule \<Rightarrow> route_handler registration list" where
  "redirect_regs rr =
     Any (rr_from rr) (RedirectHandler (rr_to rr) (rr_code rr))
     # (if 1 < length (rr_from rr) \<and> last (rr_from rr) \<noteq> CHR ''/''
        then [Any (rr_from rr @ ''/'') (RedirectHandler (rr_to rr) (rr_code rr))] else [])"

text \<open>The routes of a configuration, after the default route for \<^verbatim>\<open>/\<close>.\<close>

definition config_regs :: "ProxyRoute list \<Rightarrow> RedirectRule list \<Rightarrow> route_handler registration list" where
  "config_regs proxy_routes redirect_rules =
     concat (map proxy_regs proxy_routes) @ concat (map redirect_regs redirect_rules)
     @ [Any ''/healthz'' HealthHandler]"

definition SetupFromConfig ::
  "ProxyRoute list \<Rightarrow> RedirectRule list \<Rightarrow> route_handler router \<Rightarrow> route_handler router option" where
  "SetupFromConfig proxy_routes redirect_rules =
     register_all (Any ''/'' StaticFileHandler # config_regs proxy_routes redirect_rules)"

text \<open>Where every route was registered for any method, what is found has a handler.\<close>

fun is_any :: "'h registration \<Rightarrow> bool" where
  "is_any (Any path h) \<longleftrightarrow> True"
| "is_any (On m path h) \<longleftrightarrow> False"

lemma spec_register_any:
  assumes "is_any g" and "\<And>k. active (T k) \<Longrightarrow> handler_any (T k) \<noteq> None"
    and "is_prefix_route (T [])"
  shows "active (spec_register g T k) \<Longrightarrow> handler_any (spec_register g T k) \<noteq> None"
    and "is_prefix_route (spec_register g T [])"
proof -
  obtain path h where any: "g = Any path h"
    using assms(1) by (cases g) auto
  obtain key p where "(if path = ''/'' then ([], True)
      else if path \<noteq> [] \<and> last path = CHR ''/'' then (butlast path, True) else (path, False)) = (key, p)"
    by (rule prod.exhaust)
  then have g: "spec_register g T = T(key := (T key)\<lparr> nd_prefix := p \<or> nd_prefix (T key), handler_any := Some h \<rparr>)"
    unfolding any spec_register.simps Let_def by simp
  show "active (spec_register g T k) \<Longrightarrow> handler_any (spec_register g T k) \<noteq> None"
    using assms(2) [of k] unfolding g by (cases "k = key") simp_all
  show "is_prefix_route (spec_register g T [])"
    using assms(3) unfolding g by (cases "[] = key") (simp_all add: is_prefix_route_def HasHandler_def)
qed

lemma table_any:
  assumes "list_all is_any gs" and "\<And>k. active (T k) \<Longrightarrow> handler_any (T k) \<noteq> None"
    and "is_prefix_route (T [])"
  shows "(active (fold spec_register gs T k) \<longrightarrow> handler_any (fold spec_register gs T k) \<noteq> None)
    \<and> is_prefix_route (fold spec_register gs T [])"
  using assms
proof (induction gs arbitrary: T)
  case (Cons g gs)
  then have "is_any g" and "list_all is_any gs"
    by simp_all
  then show ?case
    using Cons.IH [of "spec_register g T"] spec_register_any [of g T] Cons.prems(2,3) by simp
qed simp

lemma fold_hit:
  assumes "\<And>n. P n \<Longrightarrow> Q (g n)" and "Q a"
  shows "Q (fold (\<lambda>n acc. if P n then g n else acc) xs a)"
  using assms by (induction xs arbitrary: a) auto

lemma best_found:
  assumes "is_prefix_route (T [])" and "path \<noteq> []"
  shows "\<exists>k. best T path fb = Some (T k) \<and> is_prefix_route (T k)"
proof -
  have "[0..<length path] = 0 # [1..<length path]"
    using assms(2) by (subst upt_conv_Cons) (auto simp del: upt_Suc)
  then have "best T path fb = fold (\<lambda>n acc. if is_prefix_route (T (take n path)) then Some (T (take n path)) else acc)
      [1..<length path] (Some (T []))"
    using assms(1) by (simp add: best_def)
  moreover have "\<exists>k. fold (\<lambda>n acc. if is_prefix_route (T (take n path)) then Some (T (take n path)) else acc)
      [1..<length path] (Some (T [])) = Some (T k) \<and> is_prefix_route (T k)"
    by (rule fold_hit) (use assms(1) in auto)
  ultimately show ?thesis
    by simp
qed

text \<open>With the routes of a configuration without wildcards every request gets a handler,
  whatever its method and path: no request ends in a 404 from the router.\<close>

theorem configured_router_total:
  assumes "\<And>pr. pr \<in> set proxy_routes \<Longrightarrow> static_path (pr_prefix pr)"
    and "\<And>rr. rr \<in> set redirect_rules \<Longrightarrow> static_path (rr_from rr)"
  shows "\<exists>r h. SetupFromConfig proxy_routes redirect_rules new_router = Some r
    \<and> MatchMethod r m path = Some (Some h, [])"
proof -
  define gs where "gs = config_regs proxy_routes redirect_rules"
  have gs: "list_all static_reg gs" "list_all is_any gs"
    using assms by (auto simp: gs_def config_regs_def list_all_iff proxy_regs_def redirect_regs_def static_path_def split: if_splits)
  define T where "T = route_table (Any ''/'' StaticFileHandler # gs)"
  define T0 where "T0 = spec_register (Any ''/'' StaticFileHandler) (\<lambda>_. new_data)"
  have T0: "T0 = (\<lambda>_. new_data)([] := new_data\<lparr> nd_prefix := True, handler_any := Some StaticFileHandler \<rparr>)"
    by (simp add: T0_def new_data_def)
  have "active (T0 k) \<Longrightarrow> handler_any (T0 k) \<noteq> None" for k
    by (cases "k = []") (simp_all add: T0)
  moreover have "is_prefix_route (T0 [])"
    by (simp add: T0 is_prefix_route_def HasHandler_def)
  ultimately have any: "active (T k) \<Longrightarrow> handler_any (T k) \<noteq> None" and root: "is_prefix_route (T [])" for k
    using table_any [OF gs(2), of T0 k] by (simp_all add: T_def T0_def route_table_def)
  have "\<exists>k. find_route T (request_key path) None = Some (T k) \<and> active (T k)"
  proof (cases "active (T (request_key path))")
    case True
    then show ?thesis
      by (auto simp: find_route_def)
  next
    case False
    moreover from this root have "request_key path \<noteq> []"
      by (auto simp: is_prefix_route_def active_def)
    ultimately show ?thesis
      using best_found [of T "request_key path" None] root
      by (auto simp: find_route_def usable_def active_def is_prefix_route_def)
  qed
  then obtain k where "find_route T (request_key path) None = Some (T k)" "active (T k)"
    by blast
  then show ?thesis
    using tree_refines_table [OF gs(1), of StaticFileHandler path m] any [of k]
    unfolding T_def [symmetric] SetupFromConfig_def gs_def [symmetric]
    by (auto simp: method_handler_def split: option.splits)
qed

theorem configured_router_total_witness:
  "\<exists>r h. SetupFromConfig [\<lparr> pr_prefix = ''/api/'', pr_upstreams = [\<lparr> ua_host = ''b'', ua_port = 80 \<rparr>] \<rparr>]
      [\<lparr> rr_from = ''/old'', rr_to = ''/new'', rr_code = 301 \<rparr>] new_router = Some r
    \<and> MatchMethod r ''PUT'' ''/any/where'' = Some (Some h, [])"
  using configured_router_total [of "[\<lparr> pr_prefix = ''/api/'', pr_upstreams = [\<lparr> ua_host = ''b'', ua_port = 80 \<rparr>] \<rparr>]"
      "[\<lparr> rr_from = ''/old'', rr_to = ''/new'', rr_code = 301 \<rparr>]" "''PUT''" "''/any/where''"]
  by (simp add: static_path_def)

section \<open>Wildcard routes\<close>

text \<open>The example of the router's own documentation does not work: after registering
  \<^verbatim>\<open>/api/v1/users\<close>, \<^verbatim>\<open>/api/v1/posts\<close> and \<^verbatim>\<open>/api/:id/profile\<close>, a request for
  \<^verbatim>\<open>/api/42/profile\<close> finds no route, while on its own the parameter route matches and captures
  the segment.\<close>

theorem documented_param_route_unreachable:
  "Option.bind (register_all [On ''GET'' ''/api/v1/users'' (1 :: nat), On ''GET'' ''/api/v1/posts'' 2,
      On ''GET'' ''/api/:id/profile'' 3] new_router)
     (\<lambda>r. MatchMethod r ''GET'' ''/api/42/profile'') = Some (None, [])
   \<and> Option.bind (register_all [On ''GET'' ''/api/:id/profile'' (3 :: nat)] new_router)
     (\<lambda>r. MatchMethod r ''GET'' ''/api/42/profile'') = Some (Some 3, [(''id'', ''42'')])"
  by code_simp

text \<open>A static route registered beside an existing parameter route is unreachable: the
  parameter child takes the first child slot without an index byte, so the index byte of the
  static child selects the parameter child.\<close>

theorem static_beside_param_unreachable:
  "Option.bind (register_all [On ''GET'' ''/u/:id'' (1 :: nat), On ''GET'' ''/u/me'' 2] new_router)
     (\<lambda>r. MatchMethod r ''GET'' ''/u/me'') = Some (None, [])"
  by code_simp

end
