(* ===== verification/H1_Parser.thy ===== *)
theory H1_Parser
  imports Stream_Context
begin

text \<open>
  The incremental HTTP/1.1 request parser (\<^verbatim>\<open>http/http1.1/parser.hpp\<close> and \<^verbatim>\<open>.cpp\<close>). The line
  buffer is the list of its first \<^verbatim>\<open>line_len_\<close> characters; a line handed to \<open>ProcessLine\<close> is the C
  string in the buffer, which ends at the first NUL. Parsed text lives in the session's region
  and is referred to by offsets, so every operation takes and returns the region.
\<close>

section \<open>State\<close>

datatype H1State = REQUEST_LINE | HEADER_LINES | BODY | DONE | ERROR_STATE

datatype ParseResult = Incomplete | Complete | ParseError

definition kMaxLine :: nat where "kMaxLine = 4096"

record H1Parser =
  h1_state :: H1State
  h1_line :: string
  h1_headers :: "(RegionOff \<times> RegionOff) list"
  h1_method :: string
  h1_version :: string
  h1_path :: RegionOff
  h1_body :: RegionOff
  h1_content_length :: nat
  h1_body_written :: nat
  h1_h2_detected :: bool
  h1_message_complete :: bool
  h1_pool :: bool
  h1_extra :: "(string \<times> string) list"

definition new_h1_parser :: H1Parser where
  "new_h1_parser = \<lparr> h1_state = REQUEST_LINE, h1_line = [], h1_headers = [], h1_method = [],
     h1_version = [], h1_path = no_off, h1_body = no_off, h1_content_length = 0,
     h1_body_written = 0, h1_h2_detected = False, h1_message_complete = False, h1_pool = False,
     h1_extra = [] \<rparr>"

type_synonym h1_ctx = "region_state \<times> H1Parser"

section \<open>Lines\<close>

text \<open>\<open>strchr c s\<close> is the text before and after the first \<open>c\<close>.\<close>

definition strchr :: "char \<Rightarrow> string \<Rightarrow> (string \<times> string) option" where
  "strchr c s =
     (if c \<in> set s then Some (takeWhile (\<lambda>x. x \<noteq> c) s, tl (dropWhile (\<lambda>x. x \<noteq> c) s)) else None)"

definition c_str :: "string \<Rightarrow> string" where
  "c_str s = takeWhile (\<lambda>c. c \<noteq> CHR 0x00) s"

definition known_methods :: "string list" where
  "known_methods = [''GET'', ''POST'', ''PUT'', ''DELETE'', ''HEAD'', ''OPTIONS'']"

definition ParseRequestLine :: "string \<Rightarrow> h1_ctx \<Rightarrow> bool \<times> h1_ctx" where
  "ParseRequestLine line sp =
     (case sp of (st, p) \<Rightarrow>
        case strchr (CHR '' '') line of
          None \<Rightarrow> (False, sp)
        | Some (m, rest) \<Rightarrow>
            if m \<notin> set known_methods then (False, sp)
            else
              let p1 = p\<lparr> h1_method := m \<rparr>
              in case strchr (CHR '' '') rest of
                   None \<Rightarrow> (False, (st, p1))
                 | Some (path, version) \<Rightarrow>
                     let (ro, st1) = (if h1_pool p1 then DupOff path st else (h1_path p1, st))
                     in (True, (st1, p1\<lparr> h1_path := ro,
                          h1_version := (if version = ''HTTP/1.0'' then ''HTTP/1.0'' else ''HTTP/1.1''),
                          h1_state := HEADER_LINES \<rparr>)))"

definition ParseHeaderLine :: "string \<Rightarrow> h1_ctx \<Rightarrow> bool \<times> h1_ctx" where
  "ParseHeaderLine line sp =
     (case sp of (st, p) \<Rightarrow>
        case strchr (CHR '':'') line of
          None \<Rightarrow> (False, sp)
        | Some (name, rest) \<Rightarrow>
            let val = dropWhile (\<lambda>c. c = CHR '' '') rest
            in if kMaxHeaders \<le> length (h1_headers p) then (True, sp)
               else if \<not> h1_pool p then (True, sp)
               else
                 let name = map tolower name;
                     (n, st1) = DupOff name st;
                     (v, st2) = DupOff val st1;
                     p1 = p\<lparr> h1_headers := h1_headers p @ [(n, v)] \<rparr>
                 in (True, (st2, if name = ''content-length''
                                 then p1\<lparr> h1_content_length := parse_length 0 val \<rparr> else p1)))"

text \<open>The blank line: the body's space is allocated, or the message is complete.\<close>

definition end_headers :: "h1_ctx \<Rightarrow> h1_ctx" where
  "end_headers sp =
     (case sp of (st, p) \<Rightarrow>
        let (st1, p1) =
          (if 0 < h1_content_length p \<and> h1_pool p
           then (case Alloc (h1_content_length p) st of
                   (None, st') \<Rightarrow> (st', p)
                 | (Some a, (q, r)) \<Rightarrow>
                     ((q, r), p\<lparr> h1_body := \<lparr> ro_off = wrap32 (a - RegionData r),
                                             ro_len = wrap32 (h1_content_length p) \<rparr> \<rparr>))
           else (st, p))
        in (st1, if 0 < h1_content_length p1 then p1\<lparr> h1_state := BODY \<rparr>
                 else p1\<lparr> h1_state := DONE, h1_message_complete := True \<rparr>))"

definition ProcessLine :: "string \<Rightarrow> h1_ctx \<Rightarrow> bool \<times> h1_ctx" where
  "ProcessLine line sp =
     (case h1_state (snd sp) of
        REQUEST_LINE \<Rightarrow> ParseRequestLine line sp
      | HEADER_LINES \<Rightarrow> if line = [] then (True, end_headers sp) else ParseHeaderLine line sp
      | _ \<Rightarrow> (False, sp))"

text \<open>
  In the body state \<open>h1_body_written\<close> stays below the content length and the length of \<open>h1_body\<close>, so
  the unsigned subtractions of the source do not wrap.
\<close>

definition WriteBody :: "string \<Rightarrow> h1_ctx \<Rightarrow> h1_ctx" where
  "WriteBody data sp =
     (case sp of ((q, r), p) \<Rightarrow>
        if data = [] \<or> ro_len (h1_body p) = 0 then sp
        else if \<not> h1_pool p then sp
        else
          let copy = min (length data) (ro_len (h1_body p) - h1_body_written p)
          in if copy = 0 then sp
             else ((q\<lparr> pool_mem := mem_write (RegionData r + ro_off (h1_body p) + h1_body_written p)
                          (take copy data) (pool_mem q) \<rparr>, r),
                   p\<lparr> h1_body_written := h1_body_written p + copy \<rparr>))"

section \<open>Feeding data\<close>

definition fail :: "h1_ctx \<Rightarrow> h1_ctx" where
  "fail sp = (fst sp, (snd sp)\<lparr> h1_state := ERROR_STATE \<rparr>)"

text \<open>
  After a line: an error ends parsing; otherwise the line buffer is emptied, and the loop goes
  on exactly when more header lines are expected.
\<close>

definition after_line :: "bool \<times> h1_ctx \<Rightarrow> bool \<times> h1_ctx" where
  "after_line res =
     (case res of (ok, sp) \<Rightarrow>
        if \<not> ok then (False, fail sp)
        else (h1_state (snd sp) \<notin> {BODY, DONE, ERROR_STATE}, (fst sp, (snd sp)\<lparr> h1_line := [] \<rparr>)))"

definition body_step :: "string \<Rightarrow> h1_ctx \<Rightarrow> nat \<times> h1_ctx" where
  "body_step rest sp =
     (let copy = min (h1_content_length (snd sp) - h1_body_written (snd sp)) (length rest);
          (st, p) = WriteBody (take copy rest) sp
      in (copy, (st, if h1_content_length p \<le> h1_body_written p
                     then p\<lparr> h1_state := DONE, h1_message_complete := True \<rparr> else p)))"

text \<open>The line before the first CR and the rest after it, when the next character is LF.\<close>

definition find_crlf :: "string \<Rightarrow> (string \<times> string) option" where
  "find_crlf rest =
     (case strchr (CHR 0x0D) rest of
        None \<Rightarrow> None
      | Some (before, after) \<Rightarrow>
          if after \<noteq> [] \<and> hd after = CHR 0x0A then Some (before, tl after) else None)"

lemma strchr_Some: "strchr c s = Some (a, b) \<longleftrightarrow> s = a @ c # b \<and> c \<notin> set a"
proof
  assume "strchr c s = Some (a, b)"
  then have c: "c \<in> set s" and a: "a = takeWhile (\<lambda>x. x \<noteq> c) s" and b: "b = tl (dropWhile (\<lambda>x. x \<noteq> c) s)"
    by (auto simp: strchr_def split: if_splits)
  then obtain x xs where d: "dropWhile (\<lambda>x. x \<noteq> c) s = x # xs"
    by (cases "dropWhile (\<lambda>x. x \<noteq> c) s") auto
  then have "x = c"
    by (simp add: dropWhile_eq_Cons_conv)
  then show "s = a @ c # b \<and> c \<notin> set a"
    using a b d takeWhile_dropWhile_id [of "\<lambda>x. x \<noteq> c" s] by (auto dest: set_takeWhileD)
next
  assume "s = a @ c # b \<and> c \<notin> set a"
  then show "strchr c s = Some (a, b)"
    by (auto simp: strchr_def takeWhile_append dropWhile_append)
qed

lemma strchr_None: "strchr c s = None \<longleftrightarrow> c \<notin> set s"
  by (simp add: strchr_def)

lemma find_crlf_Some:
  "find_crlf s = Some (a, b) \<longleftrightarrow> s = a @ CHR 0x0D # CHR 0x0A # b \<and> CHR 0x0D \<notin> set a"
proof
  assume "find_crlf s = Some (a, b)"
  then obtain r where "strchr (CHR 0x0D) s = Some (a, r)" "r \<noteq> []" "hd r = CHR 0x0A" "b = tl r"
    by (auto simp: find_crlf_def split: option.splits if_splits)
  then show "s = a @ CHR 0x0D # CHR 0x0A # b \<and> CHR 0x0D \<notin> set a"
    by (cases r) (simp_all add: strchr_Some)
next
  assume "s = a @ CHR 0x0D # CHR 0x0A # b \<and> CHR 0x0D \<notin> set a"
  then have "strchr (CHR 0x0D) s = Some (a, CHR 0x0A # b)"
    by (simp add: strchr_Some)
  then show "find_crlf s = Some (a, b)"
    by (simp add: find_crlf_def)
qed

text \<open>
  One iteration of the loop on the rest of the input: whether to go on, with what and in which
  state. In the body state at least one byte is consumed, as the content length is not reached
  yet; the model does not go on otherwise.
\<close>

definition feed_step :: "string \<Rightarrow> h1_ctx \<Rightarrow> bool \<times> string \<times> h1_ctx" where
  "feed_step rest sp =
     (case h1_state (snd sp) of
        BODY \<Rightarrow> let (copy, sp1) = body_step rest sp in (0 < copy, drop copy rest, sp1)
      | DONE \<Rightarrow> (False, rest, sp)
      | ERROR_STATE \<Rightarrow> (False, rest, sp)
      | _ \<Rightarrow>
          let line = h1_line (snd sp)
          in case find_crlf rest of
               Some (before, after) \<Rightarrow>
                 if kMaxLine - 1 \<le> length line + length before then (False, rest, fail sp)
                 else (let (more, sp1) = after_line (ProcessLine (c_str (line @ before)) sp)
                       in (more, after, sp1))
             | None \<Rightarrow>
                 if line \<noteq> [] \<and> last line = CHR 0x0D \<and> hd rest = CHR 0x0A
                 then (let (more, sp1) = after_line (ProcessLine (c_str (butlast line)) sp)
                       in (more, tl rest, sp1))
                 else
                   let copy = min (kMaxLine - 1 - length line) (length rest)
                   in if copy = 0 then (False, rest, fail sp)
                      else (False, drop copy rest, (fst sp, (snd sp)\<lparr> h1_line := line @ take copy rest \<rparr>)))"

lemma feed_step_shrinks:
  "feed_step rest sp = (True, rest', sp') \<Longrightarrow> rest \<noteq> [] \<Longrightarrow> length rest' < length rest"
  by (auto simp: feed_step_def find_crlf_Some Let_def
      split: H1State.splits option.splits if_splits prod.splits)

function feed_loop :: "string \<Rightarrow> h1_ctx \<Rightarrow> h1_ctx" where
  "feed_loop rest sp =
     (if rest = [] then sp
      else let (more, rest', sp') = feed_step rest sp
           in if more then feed_loop rest' sp' else sp')"
  by pat_completeness auto
termination
  by (relation "measure (\<lambda>(rest, sp). length rest)") (auto dest!: feed_step_shrinks [OF sym])

declare feed_loop.simps [simp del]

definition h2_preface :: string where
  "h2_preface = ''PRI * HTTP/2.0'' @ [CHR 0x0D]"

definition result_of :: "H1State \<Rightarrow> ParseResult" where
  "result_of s = (case s of DONE \<Rightarrow> Complete | ERROR_STATE \<Rightarrow> ParseError | _ \<Rightarrow> Incomplete)"

definition next_request :: "H1Parser \<Rightarrow> H1Parser" where
  "next_request p =
     (if h1_state p = DONE \<or> h1_state p = ERROR_STATE
      then p\<lparr> h1_state := REQUEST_LINE, h1_message_complete := False, h1_headers := [], h1_line := [],
              h1_content_length := 0, h1_body_written := 0 \<rparr>
      else p)"

definition Feed :: "string \<Rightarrow> h1_ctx \<Rightarrow> ParseResult \<times> h1_ctx" where
  "Feed data sp =
     (case sp of (st, p) \<Rightarrow>
        if h1_state p = REQUEST_LINE \<and> h1_line p = [] \<and> 15 \<le> length data \<and> take 15 data = h2_preface
        then (ParseError, (st, p\<lparr> h1_h2_detected := True \<rparr>))
        else
          let sp1 = feed_loop data (st, (next_request p)\<lparr> h1_extra := [] \<rparr>)
          in (result_of (h1_state (snd sp1)), sp1))"

section \<open>Reading the request\<close>

definition H1Path :: "h1_ctx \<Rightarrow> string" where
  "H1Path sp = (if h1_pool (snd sp) then ToView (fst sp) (h1_path (snd sp)) else [])"

definition H1Body :: "h1_ctx \<Rightarrow> string" where
  "H1Body sp = (if h1_pool (snd sp) then ToView (fst sp) (h1_body (snd sp)) else [])"

definition H1Header :: "string \<Rightarrow> h1_ctx \<Rightarrow> string" where
  "H1Header key sp =
     (if h1_pool (snd sp) then find_header (fst sp) key (h1_headers (snd sp)) else [])"

definition H1HeaderAt :: "int \<Rightarrow> h1_ctx \<Rightarrow> string \<times> string" where
  "H1HeaderAt i sp =
     (if i < 0 \<or> int (length (h1_headers (snd sp))) \<le> i then ([], [])
      else if h1_pool (snd sp)
        then (ToView (fst sp) (fst (h1_headers (snd sp) ! nat i)),
              ToView (fst sp) (snd (h1_headers (snd sp) ! nat i)))
        else ([], []))"


section \<open>One line at a time\<close>

lemma c_str_id: "CHR 0x00 \<notin> set l \<Longrightarrow> c_str l = l"
  by (simp add: c_str_def takeWhile_eq_all_conv) metis

lemma feed_line:
  assumes "h1_state (snd sp) = REQUEST_LINE \<or> h1_state (snd sp) = HEADER_LINES"
    and "h1_line (snd sp) = []" and "CHR 0x0D \<notin> set l" and "length l < 4095"
  shows "feed_loop (l @ CHR 0x0D # CHR 0x0A # rest) sp =
    (let (more, sp1) = after_line (ProcessLine (c_str l) sp) in if more then feed_loop rest sp1 else sp1)"
proof -
  have "find_crlf (l @ CHR 0x0D # CHR 0x0A # rest) = Some (l, rest)"
    using assms(3) by (simp add: find_crlf_Some)
  then show ?thesis
    using assms(1,2,4)
    by (subst feed_loop.simps) (auto simp: feed_step_def kMaxLine_def split: prod.splits)
qed

text \<open>A request as a client sends it, without a body.\<close>

definition crlf :: string where "crlf = [CHR 0x0D, CHR 0x0A]"

definition header_line :: "string \<times> string \<Rightarrow> string" where
  "header_line h = fst h @ '': '' @ snd h"

definition print_request :: "string \<Rightarrow> string \<Rightarrow> (string \<times> string) list \<Rightarrow> string" where
  "print_request m path hs =
     (m @ '' '' @ path @ '' HTTP/1.1'') @ crlf @ concat (map (\<lambda>h. header_line h @ crlf) hs) @ crlf"

definition plain :: "string \<Rightarrow> bool" where
  "plain s \<longleftrightarrow> CHR 0x0D \<notin> set s \<and> CHR 0x00 \<notin> set s"

definition wf_header :: "string \<times> string \<Rightarrow> bool" where
  "wf_header h \<longleftrightarrow> plain (fst h) \<and> plain (snd h) \<and> CHR '':'' \<notin> set (fst h)
     \<and> map tolower (fst h) = fst h \<and> fst h \<noteq> ''content-length''
     \<and> (snd h \<noteq> [] \<longrightarrow> hd (snd h) \<noteq> CHR '' '') \<and> length (header_line h) < 4095"

lemma dropWhile_spaces:
  "(v \<noteq> [] \<longrightarrow> hd v \<noteq> CHR '' '') \<Longrightarrow> dropWhile (\<lambda>c. c = CHR '' '') (CHR '' '' # v) = v"
  by (cases v) auto

lemma header_line_parts:
  assumes "wf_header h"
  shows "strchr (CHR '':'') (header_line h) = Some (fst h, CHR '' '' # snd h)"
    and "CHR 0x0D \<notin> set (header_line h)" and "c_str (header_line h) = header_line h"
    and "header_line h \<noteq> []"
  using assms by (auto simp: wf_header_def header_line_def strchr_Some plain_def intro!: c_str_id)

lemma feed_header:
  assumes "wf_header h" and "h1_state p = HEADER_LINES" and "h1_line p = []" and "h1_pool p"
    and "length (h1_headers p) < kMaxHeaders"
    and "DupOff (fst h) st = (n, st1)" and "DupOff (snd h) st1 = (v, st2)"
  shows "feed_loop (header_line h @ crlf @ rest) (st, p) =
    feed_loop rest (st2, p\<lparr> h1_headers := h1_headers p @ [(n, v)] \<rparr>)"
proof -
  note parts = header_line_parts [OF assms(1)]
  have drop: "dropWhile (\<lambda>c. c = CHR '' '') (CHR '' '' # snd h) = snd h"
    using assms(1) by (intro dropWhile_spaces) (simp add: wf_header_def)
  have "ProcessLine (c_str (header_line h)) (st, p) = (True, (st2, p\<lparr> h1_headers := h1_headers p @ [(n, v)] \<rparr>))"
    using assms parts drop by (simp add: ProcessLine_def ParseHeaderLine_def wf_header_def)
  then have "feed_loop (header_line h @ crlf @ rest) (st, p) =
      feed_loop rest (st2, p\<lparr> h1_headers := h1_headers p @ [(n, v)], h1_line := [] \<rparr>)"
    using assms(1,2,3) parts
    by (simp add: crlf_def feed_line wf_header_def after_line_def)
  moreover have "p\<lparr> h1_headers := h1_headers p @ [(n, v)], h1_line := [] \<rparr> =
      p\<lparr> h1_headers := h1_headers p @ [(n, v)] \<rparr>"
    using assms(3) by (cases p) simp
  ultimately show ?thesis
    by metis
qed

text \<open>What the stored references read as.\<close>

definition h1_view :: "h1_ctx \<Rightarrow> (string \<times> string) list" where
  "h1_view sp = map (\<lambda>(n, v). (ToView (fst sp) n, ToView (fst sp) v)) (h1_headers (snd sp))"

definition h1_offs :: "H1Parser \<Rightarrow> RegionOff set" where
  "h1_offs p = insert (h1_path p) (\<Union>(n, v) \<in> set (h1_headers p). {n, v})"

definition h1_inv :: "FreeSlot list \<Rightarrow> h1_ctx \<Rightarrow> bool" where
  "h1_inv others sp \<longleftrightarrow>
     region_inv others (fst sp) \<and> h1_pool (snd sp) \<and> length (h1_headers (snd sp)) \<le> kMaxHeaders
     \<and> length (h1_line (snd sp)) < kMaxLine
     \<and> (\<forall>ro \<in> h1_offs (snd sp). issued_off (fst sp) ro)"

lemma h1_view_keeps:
  assumes "h1_inv others (st, p)" and "region_keeps others st st'"
  shows "h1_view (st', p) = h1_view (st, p)" and "ToView st' (h1_path p) = ToView st (h1_path p)"
    and "\<forall>ro \<in> h1_offs p. issued_off st' ro"
proof -
  have k: "issued_off st' ro \<and> ToView st' ro = ToView st ro" if "ro \<in> h1_offs p" for ro
    using ToView_keeps [OF assms(2)] assms(1) that by (simp add: h1_inv_def)
  then show "h1_view (st', p) = h1_view (st, p)" and "ToView st' (h1_path p) = ToView st (h1_path p)"
    and "\<forall>ro \<in> h1_offs p. issued_off st' ro"
    by (auto simp: h1_view_def h1_offs_def)
qed

lemma h1_dup:
  assumes "h1_inv others (st, p)" and "length s < 2 ^ 63" and "room (align8 (length s) + k) st"
    and "DupOff s st = (ro, st')"
  shows "h1_inv others (st', p)" and "issued_off st' ro" and "ToView st' ro = s" and "room k st'"
    and "region_keeps others st st'"
proof -
  have inv: "region_inv others st"
    using assms(1) by (simp add: h1_inv_def)
  note spec = DupOff_spec [OF inv assms(2,4)]
  show "h1_inv others (st', p)"
    using assms(1) spec(1) h1_view_keeps(3) [OF assms(1) spec(2)] by (simp add: h1_inv_def)
  show "issued_off st' ro" and "region_keeps others st st'"
    using spec by blast+
  show "ToView st' ro = s" and "room k st'"
    using DupOff_room [OF inv assms(2,3,4)] by blast+
qed

definition headers_room :: "(string \<times> string) list \<Rightarrow> nat" where
  "headers_room hs = sum_list (map (\<lambda>(n, v). align8 (length n) + align8 (length v)) hs)"

lemma feed_headers:
  assumes "list_all wf_header hs" and "h1_inv others (st, p)" and "h1_state p = HEADER_LINES"
    and "h1_line p = []" and "length (h1_headers p) + length hs \<le> kMaxHeaders"
    and "room (headers_room hs) st"
  shows "\<exists>st' p'. feed_loop (concat (map (\<lambda>h. header_line h @ crlf) hs) @ rest) (st, p) =
      feed_loop rest (st', p')
    \<and> h1_inv others (st', p') \<and> h1_state p' = HEADER_LINES \<and> h1_line p' = []
    \<and> h1_view (st', p') = h1_view (st, p) @ hs
    \<and> ToView st' (h1_path p') = ToView st (h1_path p) \<and> h1_method p' = h1_method p
    \<and> h1_content_length p' = h1_content_length p"
  using assms
proof (induction hs arbitrary: st p)
  case Nil
  then show ?case
    by (intro exI [of _ st] exI [of _ p]) simp
next
  case (Cons h hs)
  obtain nm vl where h: "h = (nm, vl)"
    by (cases h)
  obtain n st1 where dn: "DupOff nm st = (n, st1)"
    by (cases "DupOff nm st")
  obtain v st2 where dv: "DupOff vl st1 = (v, st2)"
    by (cases "DupOff vl st1")
  have wf: "wf_header h" "list_all wf_header hs"
    using Cons.prems(1) by simp_all
  then have len: "length nm < 2 ^ 63" "length vl < 2 ^ 63"
    by (simp_all add: wf_header_def header_line_def h)
  have room: "room (align8 (length nm) + (align8 (length vl) + headers_room hs)) st"
    using Cons.prems(6) by (simp add: headers_room_def h add.assoc)
  note one = h1_dup [OF Cons.prems(2) len(1) room dn]
  note two = h1_dup [OF one(1) len(2) one(4) dv]
  let ?p = "p\<lparr> h1_headers := h1_headers p @ [(n, v)] \<rparr>"
  have n: "issued_off st2 n" "ToView st2 n = nm"
    using ToView_keeps [OF two(5) one(2)] one(3) by simp_all
  have lt: "length (h1_headers p) < kMaxHeaders"
    using Cons.prems(5) by simp
  have inv2: "h1_inv others (st2, ?p)"
    using two(1,2) n lt by (auto simp: h1_inv_def h1_offs_def)
  have view: "h1_view (st2, ?p) = h1_view (st, p) @ [h]"
    using h1_view_keeps(1) [OF Cons.prems(2) one(5)] h1_view_keeps(1) [OF one(1) two(5)] n two(3) h
    by (simp add: h1_view_def)
  have path: "ToView st2 (h1_path p) = ToView st (h1_path p)"
    using h1_view_keeps(2) [OF Cons.prems(2) one(5)] h1_view_keeps(2) [OF one(1) two(5)] by simp
  have "feed_loop (concat (map (\<lambda>h. header_line h @ crlf) (h # hs)) @ rest) (st, p) =
      feed_loop (concat (map (\<lambda>h. header_line h @ crlf) hs) @ rest) (st2, ?p)"
    using feed_header [OF wf(1) Cons.prems(3,4) _ lt] Cons.prems(2) dn dv h by (simp add: h1_inv_def)
  moreover have "room (headers_room hs) st2"
    using two(4) .
  ultimately show ?case
    using Cons.IH [OF wf(2) inv2] Cons.prems(3-5) view path by simp
qed


definition wf_request_line :: "string \<Rightarrow> string \<Rightarrow> bool" where
  "wf_request_line m path \<longleftrightarrow> m \<in> set known_methods \<and> plain path \<and> CHR '' '' \<notin> set path
     \<and> length (m @ '' '' @ path @ '' HTTP/1.1'') < 4095"

lemma feed_request_line:
  assumes "wf_request_line m path" and "h1_state p = REQUEST_LINE" and "h1_line p = []" and "h1_pool p"
    and "DupOff path st = (ro, st1)"
  shows "feed_loop ((m @ '' '' @ path @ '' HTTP/1.1'') @ crlf @ rest) (st, p) =
    feed_loop rest (st1, p\<lparr> h1_method := m, h1_path := ro, h1_version := ''HTTP/1.1'', h1_state := HEADER_LINES \<rparr>)"
proof -
  let ?l = "m @ '' '' @ path @ '' HTTP/1.1''"
  have m: "plain m" "CHR '' '' \<notin> set m"
    using assms(1) by (auto simp: wf_request_line_def known_methods_def plain_def)
  then have l: "CHR 0x0D \<notin> set ?l" "c_str ?l = ?l" "length ?l < 4095"
    using assms(1) by (auto simp: wf_request_line_def plain_def intro!: c_str_id)
  have parts: "strchr (CHR '' '') ?l = Some (m, path @ '' HTTP/1.1'')"
    "strchr (CHR '' '') (path @ '' HTTP/1.1'') = Some (path, ''HTTP/1.1'')"
    using m assms(1) by (simp_all add: strchr_Some wf_request_line_def)
  let ?p = "p\<lparr> h1_method := m, h1_path := ro, h1_version := ''HTTP/1.1'', h1_state := HEADER_LINES \<rparr>"
  have "ProcessLine (c_str ?l) (st, p) = (True, (st1, ?p))"
    unfolding l(2) using assms parts
    by (simp add: ProcessLine_def ParseRequestLine_def wf_request_line_def del: append_assoc)
  then have "feed_loop (?l @ crlf @ rest) (st, p) = feed_loop rest (st1, ?p\<lparr> h1_line := [] \<rparr>)"
    using feed_line [of "(st, p)" ?l rest] l assms(2,3)
    by (simp add: crlf_def after_line_def del: append_assoc)
  moreover have "?p\<lparr> h1_line := [] \<rparr> = ?p"
    using assms(3) by (cases p) simp
  ultimately show ?thesis
    by metis
qed

text \<open>C15. Parsing inverts printing: a request without a body that arrives in one piece, with a
  known method, well-formed header fields and at most 64 of them, is complete after one call
  and is read back with its method, its path and exactly its header fields in order.\<close>

theorem h1_request_roundtrip:
  assumes "h1_inv others (st, p)" and "h1_state p \<in> {REQUEST_LINE, DONE, ERROR_STATE}"
    and "h1_state p = REQUEST_LINE \<longrightarrow> h1_line p = [] \<and> h1_headers p = [] \<and> h1_content_length p = 0"
    and "wf_request_line m path" and "list_all wf_header hs" and "length hs \<le> kMaxHeaders"
    and "room (align8 (length path) + headers_room hs) st"
  shows "\<exists>sp'. Feed (print_request m path hs) (st, p) = (Complete, sp')
    \<and> h1_method (snd sp') = m \<and> H1Path sp' = path \<and> h1_view sp' = hs"
proof -
  define p0 where "p0 = (next_request p)\<lparr> h1_extra := [] \<rparr>"
  have p0: "h1_state p0 = REQUEST_LINE" "h1_line p0 = []" "h1_headers p0 = []" "h1_content_length p0 = 0"
      "h1_pool p0"
    using assms(1-3) by (auto simp: p0_def next_request_def h1_inv_def)
  have inv0: "h1_inv others (st, p0)"
    using assms(1) p0 by (auto simp: h1_inv_def h1_offs_def p0_def next_request_def)
  obtain ro st1 where d: "DupOff path st = (ro, st1)"
    by (cases "DupOff path st")
  have len: "length path < 2 ^ 63"
    using assms(4) by (simp add: wf_request_line_def)
  note one = h1_dup [OF inv0 len assms(7) d]
  let ?p = "p0\<lparr> h1_method := m, h1_path := ro, h1_version := ''HTTP/1.1'', h1_state := HEADER_LINES \<rparr>"
  have inv1: "h1_inv others (st1, ?p)"
    using one(1,2) p0 by (auto simp: h1_inv_def h1_offs_def)
  obtain st2 p2 where two:
    "feed_loop (concat (map (\<lambda>h. header_line h @ crlf) hs) @ crlf) (st1, ?p) = feed_loop crlf (st2, p2)"
    "h1_inv others (st2, p2)" "h1_state p2 = HEADER_LINES" "h1_line p2 = []"
    "h1_view (st2, p2) = h1_view (st1, ?p) @ hs" "ToView st2 (h1_path p2) = ToView st1 (h1_path ?p)"
    "h1_method p2 = h1_method ?p" "h1_content_length p2 = h1_content_length ?p"
    using feed_headers [OF assms(5) inv1 _ _ _ one(4), of crlf] p0 assms(6) by auto
  have "feed_loop crlf (st2, p2) = (st2, p2\<lparr> h1_state := DONE, h1_message_complete := True, h1_line := [] \<rparr>)"
    using feed_line [of "(st2, p2)" "[]" "[]"] two(3,4,8) p0(4)
    by (simp add: crlf_def c_str_def ProcessLine_def end_headers_def after_line_def)
  then have loop: "feed_loop (print_request m path hs) (st, p0) =
      (st2, p2\<lparr> h1_state := DONE, h1_message_complete := True, h1_line := [] \<rparr>)"
    unfolding print_request_def feed_request_line [OF assms(4) p0(1,2,5) d] two(1) by simp
  have "take 15 (print_request m path hs) \<noteq> h2_preface"
    using assms(4) by (auto simp: print_request_def h2_preface_def wf_request_line_def known_methods_def)
  then have "Feed (print_request m path hs) (st, p) =
      (Complete, (st2, p2\<lparr> h1_state := DONE, h1_message_complete := True, h1_line := [] \<rparr>))"
    using loop by (simp add: Feed_def p0_def result_of_def)
  then show ?thesis
    using two one(3) p0 by (auto simp: H1Path_def h1_view_def h1_inv_def)
qed

theorem h1_request_roundtrip_witness:
  "\<exists>sp'. Feed (print_request ''GET'' ''/index'' [(''host'', ''a.b'')])
      (fst sample_ctx, new_h1_parser\<lparr> h1_pool := True \<rparr>) = (Complete, sp')
    \<and> h1_method (snd sp') = ''GET'' \<and> H1Path sp' = ''/index'' \<and> h1_view sp' = [(''host'', ''a.b'')]"
proof (rule h1_request_roundtrip)
  show "h1_inv (map region_slot (tl (snd two_sessions))) (fst sample_ctx, new_h1_parser\<lparr> h1_pool := True \<rparr>)"
    using sample_ctx_inv
    by (simp add: h1_inv_def ctx_inv_def case_prod_unfold h1_offs_def new_h1_parser_def kMaxLine_def)
  show "list_all wf_header [(''host'', ''a.b'')]"
    by (simp add: wf_header_def plain_def header_line_def tolower_def)
  show "room (align8 (length ''/index'') + headers_room [(''host'', ''a.b'')]) (fst sample_ctx)"
    by (rule sample_ctx_room) (simp add: headers_room_def align8_def kAlign_def)
qed (simp_all add: new_h1_parser_def wf_request_line_def known_methods_def plain_def kMaxHeaders_def)

definition h1_bounded :: "H1Parser \<Rightarrow> bool" where
  "h1_bounded p \<longleftrightarrow> length (h1_line p) < kMaxLine \<and> length (h1_headers p) \<le> kMaxHeaders"

lemma ParseRequestLine_bounded:
  "h1_bounded p \<Longrightarrow> h1_bounded (snd (snd (ParseRequestLine line (st, p))))"
  by (auto simp: ParseRequestLine_def h1_bounded_def Let_def split: option.split prod.split)

lemma ParseHeaderLine_bounded:
  "h1_bounded p \<Longrightarrow> h1_bounded (snd (snd (ParseHeaderLine line (st, p))))"
  by (auto simp: ParseHeaderLine_def h1_bounded_def Let_def split: option.split prod.split)

lemma end_headers_bounded: "h1_bounded p \<Longrightarrow> h1_bounded (snd (end_headers (st, p)))"
  by (auto simp: end_headers_def h1_bounded_def Let_def split: option.split prod.split)

lemma ProcessLine_bounded:
  "h1_bounded (snd sp) \<Longrightarrow> h1_bounded (snd (snd (ProcessLine line sp)))"
  by (cases sp)
    (simp add: ProcessLine_def ParseRequestLine_bounded ParseHeaderLine_bounded end_headers_bounded
      split: H1State.split)

lemma after_line_bounded:
  assumes "h1_bounded (snd (snd res))"
  shows "h1_bounded (snd (snd (after_line res)))"
  using assms by (auto simp: after_line_def h1_bounded_def fail_def kMaxLine_def split: prod.splits)

lemma body_step_bounded:
  assumes "h1_bounded (snd sp)"
  shows "h1_bounded (snd (snd (body_step rest sp)))"
  using assms
  by (cases sp) (auto simp: body_step_def WriteBody_def h1_bounded_def Let_def split: prod.splits if_splits)

lemma feed_step_bounded:
  assumes "h1_bounded (snd sp)"
  shows "h1_bounded (snd (snd (snd (feed_step rest sp))))"
proof -
  have "h1_bounded (snd sp1)" if "after_line (ProcessLine l sp) = (more, sp1)" for l more sp1
    using after_line_bounded [OF ProcessLine_bounded [OF assms, of l]] that by simp
  moreover have "h1_bounded (snd sp1)" if "body_step rest sp = (k, sp1)" for k sp1
    using body_step_bounded [OF assms, of rest] that by simp
  moreover have "h1_bounded (snd (fail sp))"
    using assms by (simp add: h1_bounded_def fail_def)
  moreover have "h1_bounded ((snd sp)\<lparr> h1_line := h1_line (snd sp) @ take (min (kMaxLine - 1 - length (h1_line (snd sp))) (length rest)) rest \<rparr>)"
    using assms by (auto simp: h1_bounded_def kMaxLine_def)
  ultimately show ?thesis
    using assms
    by (auto simp: feed_step_def Let_def split: H1State.splits option.splits prod.splits)
qed

lemma feed_loop_bounded: "h1_bounded (snd sp) \<Longrightarrow> h1_bounded (snd (feed_loop rest sp))"
proof (induction rest sp rule: feed_loop.induct)
  case (1 rest sp)
  show ?case
    using "1.prems" "1.IH" feed_step_bounded [OF "1.prems", of rest]
    by (subst feed_loop.simps) (auto split: prod.splits)
qed



section \<open>Data that is lost\<close>

lemma end_headers_body:
  "0 < h1_content_length p \<Longrightarrow> h1_state (snd (end_headers (st, p))) = BODY
     \<and> h1_body_written (snd (end_headers (st, p))) = h1_body_written p"
  by (auto simp: end_headers_def Let_def split: prod.splits option.splits if_splits)

text \<open>C17. The part of a request body that arrives in the same read as the end of the headers is
  lost: parsing stops at the blank line, so feeding the blank line with any body bytes behind it
  has the same effect as feeding the blank line alone, and no byte of the body is stored.\<close>

theorem body_after_headers_dropped:
  assumes "h1_state p = HEADER_LINES" and "h1_line p = []" and "0 < h1_content_length p"
  shows "Feed (crlf @ body) (st, p) = Feed crlf (st, p)
    \<and> fst (Feed (crlf @ body) (st, p)) = Incomplete
    \<and> h1_state (snd (snd (Feed (crlf @ body) (st, p)))) = BODY
    \<and> h1_body_written (snd (snd (Feed (crlf @ body) (st, p)))) = h1_body_written p"
proof -
  define p0 where "p0 = p\<lparr> h1_extra := [] \<rparr>"
  have p0: "h1_state p0 = HEADER_LINES" "h1_line p0 = []" "0 < h1_content_length p0"
      "h1_body_written p0 = h1_body_written p"
    using assms by (simp_all add: p0_def)
  obtain st1 p1 where e: "end_headers (st, p0) = (st1, p1)" "h1_state p1 = BODY" "h1_body_written p1 = h1_body_written p0"
    using end_headers_body [OF p0(3), of st] by (metis prod.collapse snd_conv)
  have "feed_loop (crlf @ rest) (st, p0) = (st1, p1\<lparr> h1_line := [] \<rparr>)" for rest
    using feed_line [of "(st, p0)" "[]" rest] p0 e
    by (simp add: crlf_def c_str_def ProcessLine_def after_line_def)
  from this [of body] this [of "[]"] show ?thesis
    using assms e p0(4) by (simp add: Feed_def next_request_def p0_def result_of_def)
qed

theorem body_after_headers_dropped_witness:
  "fst (Feed (crlf @ ''a=1'') (fst sample_ctx,
     new_h1_parser\<lparr> h1_state := HEADER_LINES, h1_content_length := 3, h1_pool := True \<rparr>)) = Incomplete"
proof -
  let ?p = "new_h1_parser\<lparr> h1_state := HEADER_LINES, h1_content_length := 3, h1_pool := True \<rparr>"
  have "h1_state ?p = HEADER_LINES" "h1_line ?p = []" "0 < h1_content_length ?p"
    by (simp_all add: new_h1_parser_def)
  from body_after_headers_dropped [OF this] show ?thesis
    by blast
qed

lemma feed_unfinished_line:
  assumes "plain l" and "l \<noteq> []" and "length l < 4095" and "take 15 (l @ [CHR 0x0D]) \<noteq> h2_preface"
    and "h1_state p = REQUEST_LINE" and "h1_line p = []"
  shows "Feed (l @ [CHR 0x0D]) (st, p) = (Incomplete, (st, p\<lparr> h1_extra := [], h1_line := l @ [CHR 0x0D] \<rparr>))"
proof -
  have "find_crlf (l @ [CHR 0x0D]) = None"
    using assms(1) by (simp add: find_crlf_def plain_def strchr_Some [of _ _ l "[]", THEN iffD2])
  then have "feed_loop (l @ [CHR 0x0D]) (st, p\<lparr> h1_extra := [] \<rparr>) = (st, p\<lparr> h1_extra := [], h1_line := l @ [CHR 0x0D] \<rparr>)"
    using assms by (subst feed_loop.simps) (simp add: feed_step_def kMaxLine_def)
  then show ?thesis
    using assms(4,5) by (simp add: Feed_def next_request_def result_of_def)
qed

text \<open>A line that starts with the LF of the line before is joined to it.\<close>

lemma feed_joined_line:
  assumes "h1_state (snd sp) = REQUEST_LINE" and "h1_line (snd sp) = l @ [CHR 0x0D]" and "plain l2"
    and "length l + length l2 < 4090"
    and "ProcessLine (c_str (l @ CHR 0x0D # CHR 0x0A # l2)) sp = (True, (st1, p1))" and "h1_state p1 = HEADER_LINES"
  shows "feed_loop (CHR 0x0A # l2 @ crlf @ rest) sp = feed_loop rest (st1, p1\<lparr> h1_line := [] \<rparr>)"
proof -
  have "find_crlf (CHR 0x0A # l2 @ crlf @ rest) = Some (CHR 0x0A # l2, rest)"
    using assms(3) by (simp add: find_crlf_Some plain_def crlf_def)
  then have "feed_step (CHR 0x0A # l2 @ crlf @ rest) sp = (True, rest, (st1, p1\<lparr> h1_line := [] \<rparr>))"
    using assms by (simp add: feed_step_def kMaxLine_def after_line_def)
  then show ?thesis
    by (subst feed_loop.simps) simp
qed

text \<open>When a read ends between the CR and the LF of the request line, the first header field
  is lost: the LF is not recognised as the end of the line if a complete line follows it, and
  the header line becomes part of the request line's version.\<close>

theorem split_crlf_loses_header:
  assumes "wf_request_line m path" and "wf_header h"
    and "length (m @ '' '' @ path @ '' HTTP/1.1'') + length (header_line h) < 4090"
    and "h1_state p = REQUEST_LINE" and "h1_line p = []" and "h1_headers p = []" and "h1_content_length p = 0"
  shows "\<exists>sp1 sp2. Feed ((m @ '' '' @ path @ '' HTTP/1.1'') @ [CHR 0x0D]) (st, p) = (Incomplete, sp1)
    \<and> Feed (CHR 0x0A # header_line h @ crlf @ crlf) sp1 = (Complete, sp2) \<and> h1_headers (snd sp2) = []"
proof -
  define l where "l = m @ '' '' @ path @ '' HTTP/1.1''"
  define p1 where "p1 = p\<lparr> h1_extra := [], h1_line := l @ [CHR 0x0D] \<rparr>"
  have m: "plain m" "CHR '' '' \<notin> set m" "m \<in> set known_methods"
    using assms(1) by (auto simp: wf_request_line_def known_methods_def plain_def)
  have l: "plain l" "l \<noteq> []" "length l < 4095" and hl: "plain (header_line h)"
    using m assms(1-3) by (auto simp: l_def wf_request_line_def plain_def wf_header_def header_line_def)
  have "take 15 (l @ [CHR 0x0D]) \<noteq> h2_preface"
    using m(3) by (auto simp: l_def h2_preface_def known_methods_def)
  then have one: "Feed (l @ [CHR 0x0D]) (st, p) = (Incomplete, (st, p1))"
    unfolding p1_def using l assms(4,5) by (intro feed_unfinished_line)
  let ?line = "l @ CHR 0x0D # CHR 0x0A # header_line h"
  have line: "c_str ?line = ?line"
    using l(1) hl by (intro c_str_id) (auto simp: plain_def)
  have parts: "strchr (CHR '' '') ?line = Some (m, path @ '' HTTP/1.1'' @ CHR 0x0D # CHR 0x0A # header_line h)"
    "strchr (CHR '' '') (path @ '' HTTP/1.1'' @ CHR 0x0D # CHR 0x0A # header_line h) =
      Some (path, ''HTTP/1.1'' @ CHR 0x0D # CHR 0x0A # header_line h)"
    using m assms(1) by (simp_all add: strchr_Some wf_request_line_def l_def)
  obtain st3 p3 where pl: "ProcessLine (c_str ?line) (st, p1\<lparr> h1_extra := [] \<rparr>) = (True, (st3, p3))"
    and p3: "h1_state p3 = HEADER_LINES" "h1_headers p3 = []" "h1_content_length p3 = 0"
    unfolding line using parts m(3) assms(4,6,7)
    by (cases "DupOff path st"; cases "h1_pool p")
      (auto simp: ProcessLine_def ParseRequestLine_def p1_def Let_def)
  have "feed_loop (CHR 0x0A # header_line h @ crlf @ crlf) (st, p1\<lparr> h1_extra := [] \<rparr>) =
      feed_loop crlf (st3, p3\<lparr> h1_line := [] \<rparr>)"
    using pl p3(1) hl assms(3,4) by (intro feed_joined_line [where l = l]) (simp_all add: p1_def l_def)
  also have "\<dots> = (st3, p3\<lparr> h1_line := [], h1_state := DONE, h1_message_complete := True \<rparr>)"
    using feed_line [of "(st3, p3\<lparr> h1_line := [] \<rparr>)" "[]" "[]"] p3
    by (simp add: crlf_def c_str_def ProcessLine_def end_headers_def after_line_def)
  finally have "Feed (CHR 0x0A # header_line h @ crlf @ crlf) (st, p1) =
      (Complete, (st3, p3\<lparr> h1_line := [], h1_state := DONE, h1_message_complete := True \<rparr>))"
    using assms(4) by (simp add: Feed_def next_request_def p1_def result_of_def)
  with one p3(2) show ?thesis
    by (auto simp: l_def)
qed

theorem split_crlf_loses_header_witness:
  "\<exists>sp1 sp2. Feed (''GET / HTTP/1.1'' @ [CHR 0x0D]) (fst sample_ctx, new_h1_parser\<lparr> h1_pool := True \<rparr>) = (Incomplete, sp1)
    \<and> Feed (CHR 0x0A # header_line (''host'', ''a'') @ crlf @ crlf) sp1 = (Complete, sp2) \<and> h1_headers (snd sp2) = []"
proof -
  have "wf_request_line ''GET'' ''/''" "wf_header (''host'', ''a'')"
    by (simp_all add: wf_request_line_def known_methods_def plain_def wf_header_def header_line_def tolower_def)
  from split_crlf_loses_header [OF this, of "new_h1_parser\<lparr> h1_pool := True \<rparr>" "fst sample_ctx"] show ?thesis
    by (simp add: new_h1_parser_def header_line_def)
qed

end
