(* ===== verification/H1_Session.thy ===== *)
theory H1_Session
  imports H1_Parser
begin

text \<open>
  The HTTP/1.1 session (\<^verbatim>\<open>http/http1.1/session.hpp\<close> and \<^verbatim>\<open>.cpp\<close>): one iteration of its loop per
  read. Raw and pre-request middleware and the routed handlers are parameters; they may store
  text in the region. Writes succeed: a failed write throws and ends the session.
\<close>

section \<open>Responses as the session writes them\<close>

text \<open>
  A file response has its range length (0 without a range), its size and the file's content
  from the range's offset; a stream response its initial payload and the payloads of the timer
  ticks.
\<close>

datatype response_kind =
  PlainResponse
| FileResponse nat nat string
| StreamResponse string "string list"
| WebSocketResponse

record H1Response =
  rp_header_wire :: string
  rp_body_wire :: string
  rp_kind :: response_kind

definition write_parts :: "H1Response \<Rightarrow> string" where
  "write_parts r = rp_header_wire r @ rp_body_wire r"

text \<open>The file loop: blocks of at most 64 KiB until the length is sent or the file ends.\<close>

function send_file :: "nat \<Rightarrow> string \<Rightarrow> string" where
  "send_file remaining file =
     (if remaining = 0 \<or> file = [] then []
      else let n = min (min remaining 65536) (length file)
           in take n file @ send_file (remaining - n) (drop n file))"
  by pat_completeness auto
termination
  by (relation "measure fst") auto

declare send_file.simps [simp del]

definition Send :: "H1Response \<Rightarrow> string" where
  "Send r =
     (case rp_kind r of
        FileResponse range_len file_size file \<Rightarrow>
          rp_header_wire r @ send_file (if 0 < range_len then range_len else file_size) file
      | StreamResponse init ticks \<Rightarrow> rp_header_wire r @ init @ concat ticks
      | _ \<Rightarrow> write_parts r)"

definition error_status :: "int \<Rightarrow> string" where
  "error_status code =
     (if code = 400 then ''400 Bad Request''
      else if code = 413 then ''413 Payload Too Large''
      else if code = 426 then ''426 Upgrade Required''
      else ''500 Internal Server Error'')"

definition error_length :: "int \<Rightarrow> string" where
  "error_length code =
     (if code = 400 then ''12'' else if code = 413 then ''21''
      else if code = 426 then ''48'' else ''22'')"

definition error_body :: "int \<Rightarrow> string" where
  "error_body code =
     (if code = 400 then ''Bad Request'' @ crlf
      else if code = 413 then ''Payload Too Large'' @ crlf
      else if code = 426 then ''HTTP/2 is not supported yet. Use HTTP/1.1.'' @ crlf
      else ''Internal Server Error'' @ crlf)"

definition WriteError :: "int \<Rightarrow> string" where
  "WriteError code =
     ''HTTP/1.1 '' @ error_status code @ crlf
     @ ''Content-Type: text/plain'' @ crlf
     @ ''Content-Length: '' @ error_length code @ crlf
     @ ''Connection: close'' @ crlf
     @ crlf
     @ error_body code"

section \<open>The session loop\<close>

record H11Session =
  s1_region :: region_state
  s1_parser :: H1Parser
  s1_sent :: string
  s1_max_body :: nat

definition new_h11_session :: "region_state \<Rightarrow> nat \<Rightarrow> H11Session" where
  "new_h11_session st max_body =
     \<lparr> s1_region = InitRegion True st, s1_parser = new_h1_parser, s1_sent = [], s1_max_body = max_body \<rparr>"

datatype routed =
  StreamHandler H1Response "string list"
| Handled H1Response

definition put :: "string \<Rightarrow> H11Session \<Rightarrow> H11Session" where
  "put out s = s\<lparr> s1_sent := s1_sent s @ out \<rparr>"

text \<open>The start of an iteration: the region is reset, the input parsed.\<close>

definition receive :: "string \<Rightarrow> H11Session \<Rightarrow> ParseResult \<times> H11Session" where
  "receive input s =
     (let (q, r) = s1_region s;
          (res, (st, p)) = Feed input ((q, ResetRegion r), (s1_parser s)\<lparr> h1_pool := True \<rparr>)
      in (res, s\<lparr> s1_region := st, s1_parser := p \<rparr>))"

definition keep_alive :: "H11Session \<Rightarrow> bool" where
  "keep_alive s \<longleftrightarrow> H1Header ''connection'' (s1_region s, s1_parser s) \<noteq> ''close''"

definition is_stream :: "H1Response \<Rightarrow> bool" where
  "is_stream r \<longleftrightarrow> (case rp_kind r of StreamResponse _ _ \<Rightarrow> True | _ \<Rightarrow> False)"

text \<open>Sending a response; the connection stays open unless it streamed or the client asked to close.\<close>

definition respond :: "H1Response \<Rightarrow> H11Session \<Rightarrow> bool \<times> H11Session" where
  "respond r s = (\<not> is_stream r \<and> keep_alive s, put (Send r) s)"

definition route_request :: "(h1_ctx \<Rightarrow> routed \<times> region_state) \<Rightarrow> H11Session \<Rightarrow> bool \<times> H11Session" where
  "route_request handler s =
     (let (out, st) = handler (s1_region s, s1_parser s); s1 = s\<lparr> s1_region := st \<rparr>
      in case out of
           StreamHandler sse chunks \<Rightarrow> (False, put (Send sse @ concat chunks) s1)
         | Handled r \<Rightarrow>
             if rp_kind r = WebSocketResponse
             then (False, (put (write_parts r) s1)\<lparr> s1_region := (fst st, ResetRegion (snd st)) \<rparr>)
             else respond r s1)"

definition iteration ::
  "(string \<Rightarrow> H1Response option) \<Rightarrow> (h1_ctx \<Rightarrow> H1Response option \<times> region_state)
    \<Rightarrow> (h1_ctx \<Rightarrow> routed \<times> region_state) \<Rightarrow> string \<Rightarrow> H11Session \<Rightarrow> bool \<times> H11Session" where
  "iteration process_raw execute_pre handler input s0 =
     (let s = s0\<lparr> s1_region := (fst (s1_region s0), ResetRegion (snd (s1_region s0))),
                  s1_parser := (s1_parser s0)\<lparr> h1_pool := True \<rparr> \<rparr>
      in case process_raw input of
           Some r \<Rightarrow> (False, put (write_parts r) s)
         | None \<Rightarrow>
             (case receive input s0 of (res, s1) \<Rightarrow>
                if res = Incomplete then (True, s1)
                else if res = ParseError
                  then (False, put (WriteError (if h1_h2_detected (s1_parser s1) then 426 else 400)) s1)
                else if 0 < s1_max_body s1 \<and> s1_max_body s1 < h1_content_length (s1_parser s1)
                  then (False, put (WriteError 413) s1)
                else
                  let (pre, st) = execute_pre (s1_region s1, s1_parser s1); s2 = s1\<lparr> s1_region := st \<rparr>
                  in case pre of
                       Some r \<Rightarrow> respond r s2
                     | None \<Rightarrow> route_request handler s2))"

fun StartH1 ::
  "(string \<Rightarrow> H1Response option) \<Rightarrow> (h1_ctx \<Rightarrow> H1Response option \<times> region_state)
    \<Rightarrow> (h1_ctx \<Rightarrow> routed \<times> region_state) \<Rightarrow> string list \<Rightarrow> H11Session \<Rightarrow> H11Session" where
  "StartH1 process_raw execute_pre handler [] s = s"
| "StartH1 process_raw execute_pre handler (input # inputs) s =
     (let (more, s1) = iteration process_raw execute_pre handler input s
      in if more then StartH1 process_raw execute_pre handler inputs s1 else s1)"

section \<open>What the session sends\<close>

lemma send_file_take: "send_file k content = take k content"
proof (induction k content rule: send_file.induct)
  case (1 k content)
  show ?case
  proof (cases "k = 0 \<or> content = []")
    case True
    then show ?thesis
      by (subst send_file.simps) auto
  next
    case False
    define n where "n = min (min k 65536) (length content)"
    have "send_file k content = take n content @ take (k - n) (drop n content)"
      using "1.IH" [OF False n_def] False by (subst send_file.simps) (simp add: n_def Let_def)
    also have "\<dots> = take (n + (k - n)) content"
      by (simp only: take_add)
    finally show ?thesis
      by (simp add: n_def)
  qed
qed

text \<open>Every canned error response announces a length that its body does not have: the value
  of Content-Length differs from the number of body bytes for each of the four responses.\<close>

theorem error_length_wrong:
  "digits_value (error_length code) \<noteq> length (error_body code)"
proof -
  have "digits_value ''12'' = 12" "digits_value ''21'' = 21" "digits_value ''48'' = 48" "digits_value ''22'' = 22"
    by code_simp+
  then show ?thesis
    by (simp add: error_length_def error_body_def crlf_def)
qed


section \<open>Requests that arrive in two reads\<close>

lemma DupOff_fresh:
  assumes "region_inv others st" and "s \<noteq> []" and "length s < 2 ^ 32" and "room (align8 (length s)) st"
    and "DupOff s st = (ro, st')"
  shows "ro = \<lparr> ro_off = sr_used (snd st), ro_len = length s \<rparr>"
proof -
  have len: "length s < 2 ^ 63"
    using assms(3) by simp
  have view: "ToView st' ro = s"
    using DupOff_room(1) [OF assms(1) len, of 0] assms(4,5) by simp
  then have "ro \<noteq> no_off"
    using assms(2) by auto
  then obtain a n where d: "Dup s st = (Some (a, n), st')"
    and ro: "ro = \<lparr> ro_off = wrap32 (a - RegionData (snd st')), ro_len = wrap32 n \<rparr>"
    using assms(5) by (auto simp: DupOff_def split: prod.splits option.splits)
  have "sr_used (snd st) < 2 ^ 32"
    using region_inv_bounds [of others "fst st" "snd st"] assms(1) by (simp add: kPoolSize_def)
  then show ?thesis
    using Dup_spec(3) [OF assms(1) len d refl] assms(3) by (auto simp: ro RegionData_def)
qed


lemma region_inv_reset: "region_inv others (q, r) \<Longrightarrow> region_inv others (q, ResetRegion r)"
  by (simp add: region_inv_def ResetRegion_def)

lemma mem_read_take: "k \<le> n \<Longrightarrow> mem_read m a k = take k (mem_read m a n)"
  by (simp add: mem_read_def take_map)

text \<open>The first read brings the request line, the second the only header field and the blank line.\<close>

lemma receive_request_line:
  assumes "region_inv others (s1_region s)" and "h1_state (s1_parser s) = REQUEST_LINE"
    and "h1_line (s1_parser s) = []" and "wf_request_line m path" and "path \<noteq> []"
    and "align8 (length path) + k \<le> sr_cap (snd (s1_region s))"
  shows "\<exists>st1 p1. receive ((m @ '' '' @ path @ '' HTTP/1.1'') @ crlf) s =
      (Incomplete, s\<lparr> s1_region := st1, s1_parser := p1 \<rparr>)
    \<and> region_inv others st1 \<and> k \<le> sr_cap (snd st1) \<and> h1_state p1 = HEADER_LINES \<and> h1_line p1 = []
    \<and> h1_headers p1 = h1_headers (s1_parser s) \<and> h1_content_length p1 = h1_content_length (s1_parser s)
    \<and> h1_path p1 = \<lparr> ro_off = 0, ro_len = length path \<rparr>"
proof -
  let ?l = "m @ '' '' @ path @ '' HTTP/1.1''"
  obtain q r where qr: "s1_region s = (q, r)"
    by (cases "s1_region s")
  let ?st = "(q, ResetRegion r)"
  have inv: "region_inv others ?st"
    using assms(1) qr by (simp add: region_inv_reset)
  obtain ro st1 where d: "DupOff path ?st = (ro, st1)"
    by (cases "DupOff path ?st")
  have len: "length path < 2 ^ 63" "length path < 2 ^ 32"
    using assms(4) by (simp_all add: wf_request_line_def)
  have room: "room (align8 (length path) + k) ?st"
    using assms(6) qr by (simp add: room_def ResetRegion_def)
  then have "room (align8 (length path)) ?st"
    by (simp add: room_def)
  then have ro: "ro = \<lparr> ro_off = 0, ro_len = length path \<rparr>"
    using DupOff_fresh [OF inv assms(5) len(2) _ d] by (simp add: ResetRegion_def)
  define p0 where "p0 = (s1_parser s)\<lparr> h1_pool := True, h1_extra := [] \<rparr>"
  define p1 where "p1 = p0\<lparr> h1_method := m, h1_path := ro, h1_version := ''HTTP/1.1'', h1_state := HEADER_LINES \<rparr>"
  have "take 15 (?l @ crlf) \<noteq> h2_preface"
    using assms(4) by (auto simp: h2_preface_def wf_request_line_def known_methods_def)
  moreover have "feed_loop (?l @ crlf @ []) (?st, p0) = feed_loop [] (st1, p1)"
    unfolding p1_def using assms(2,3) by (intro feed_request_line [OF assms(4) _ _ _ d]) (simp_all add: p0_def)
  ultimately have "receive (?l @ crlf) s = (Incomplete, s\<lparr> s1_region := st1, s1_parser := p1 \<rparr>)"
    using assms(2) by (simp add: receive_def qr Feed_def next_request_def p0_def p1_def result_of_def
        feed_loop.simps [of "[]"] del: append_assoc)
  moreover have "region_inv others st1" "k \<le> sr_cap (snd st1)"
    using DupOff_spec(1) [OF inv len(1) d] DupOff_room(2) [OF inv len(1) room d] by (simp_all add: room_def)
  ultimately show ?thesis
    using assms(3) ro by (intro exI [of _ st1] exI [of _ p1] conjI) (simp_all add: p1_def p0_def)
qed

lemma receive_last_header:
  assumes "region_inv others (s1_region s)" and "h1_state (s1_parser s) = HEADER_LINES"
    and "h1_line (s1_parser s) = []" and "h1_headers (s1_parser s) = []" and "h1_content_length (s1_parser s) = 0"
    and "wf_header h" and "fst h \<noteq> []" and "headers_room [h] \<le> sr_cap (snd (s1_region s))"
  shows "\<exists>s2. receive (header_line h @ crlf @ crlf) s = (Complete, s2)
    \<and> h1_pool (s1_parser s2) \<and> h1_path (s1_parser s2) = h1_path (s1_parser s)
    \<and> ToView (s1_region s2) \<lparr> ro_off = 0, ro_len = length (fst h) \<rparr> = fst h"
proof -
  obtain q r where qr: "s1_region s = (q, r)"
    by (cases "s1_region s")
  let ?st = "(q, ResetRegion r)"
  have inv: "region_inv others ?st"
    using assms(1) qr by (simp add: region_inv_reset)
  obtain n st1 where dn: "DupOff (fst h) ?st = (n, st1)"
    by (cases "DupOff (fst h) ?st")
  obtain v st2 where dv: "DupOff (snd h) st1 = (v, st2)"
    by (cases "DupOff (snd h) st1")
  have len: "length (fst h) < 2 ^ 63" "length (fst h) < 2 ^ 32" "length (snd h) < 2 ^ 63"
    using assms(6) by (simp_all add: wf_header_def header_line_def)
  have room: "room (align8 (length (fst h)) + align8 (length (snd h))) ?st" "room (align8 (length (fst h))) ?st"
    using assms(8) qr by (simp_all add: room_def ResetRegion_def headers_room_def case_prod_unfold)
  have n: "n = \<lparr> ro_off = 0, ro_len = length (fst h) \<rparr>"
    using DupOff_fresh [OF inv assms(7) len(2) room(2) dn] by (simp add: ResetRegion_def)
  note one = DupOff_spec [OF inv len(1) dn] and two = DupOff_spec [OF _ len(3) dv]
  have "ToView st2 n = fst h"
    using ToView_keeps [OF two(2) [OF one(1)] one(3)] DupOff_room(1) [OF inv len(1) room(1) dn] by simp
  define p0 where "p0 = (s1_parser s)\<lparr> h1_pool := True, h1_extra := [] \<rparr>"
  define p1 where "p1 = p0\<lparr> h1_headers := h1_headers p0 @ [(n, v)] \<rparr>"
  have "feed_loop (header_line h @ crlf @ crlf) (?st, p0) = feed_loop crlf (st2, p1)"
    unfolding p1_def using assms(2-4,6) dn dv
    by (intro feed_header) (simp_all add: p0_def kMaxHeaders_def)
  also have "\<dots> = (st2, p1\<lparr> h1_state := DONE, h1_message_complete := True, h1_line := [] \<rparr>)"
    using feed_line [of "(st2, p1)" "[]" "[]"] assms(2,3,5)
    by (simp add: crlf_def c_str_def ProcessLine_def end_headers_def after_line_def p1_def p0_def)
  finally have "receive (header_line h @ crlf @ crlf) s =
      (Complete, s\<lparr> s1_region := st2, s1_parser := p1\<lparr> h1_state := DONE, h1_message_complete := True, h1_line := [] \<rparr> \<rparr>)"
    using assms(2) by (simp add: receive_def qr Feed_def next_request_def p0_def result_of_def)
  then show ?thesis
    using \<open>ToView st2 n = fst h\<close> n by (simp add: p1_def p0_def)
qed

text \<open>A request whose request line and header fields arrive in two reads is misread: the
  region is reset before the second read, so the first header name is stored over the path and
  the handler sees the beginning of the header name as the path of the request.\<close>

theorem split_request_path_overwritten:
  assumes "region_inv others (s1_region s)" and "h1_state (s1_parser s) = REQUEST_LINE"
    and "h1_line (s1_parser s) = []" and "h1_headers (s1_parser s) = []" and "h1_content_length (s1_parser s) = 0"
    and "wf_request_line m path" and "path \<noteq> []" and "wf_header h" and "length path \<le> length (fst h)"
    and "align8 (length path) + headers_room [h] \<le> sr_cap (snd (s1_region s))"
  shows "\<exists>s1 s2. receive ((m @ '' '' @ path @ '' HTTP/1.1'') @ crlf) s = (Incomplete, s1)
    \<and> receive (header_line h @ crlf @ crlf) s1 = (Complete, s2)
    \<and> H1Path (s1_region s2, s1_parser s2) = take (length path) (fst h)"
proof -
  from receive_request_line [OF assms(1-3,6,7,10)] obtain st1 p1 where one:
    "receive ((m @ '' '' @ path @ '' HTTP/1.1'') @ crlf) s = (Incomplete, s\<lparr> s1_region := st1, s1_parser := p1 \<rparr>)"
    "region_inv others st1" "headers_room [h] \<le> sr_cap (snd st1)" "h1_state p1 = HEADER_LINES" "h1_line p1 = []"
    "h1_headers p1 = []" "h1_content_length p1 = 0" "h1_path p1 = \<lparr> ro_off = 0, ro_len = length path \<rparr>"
    using assms(4,5) by auto
  have "fst h \<noteq> []"
    using assms(7,9) by auto
  then obtain s2 where two: "receive (header_line h @ crlf @ crlf) (s\<lparr> s1_region := st1, s1_parser := p1 \<rparr>) = (Complete, s2)"
    "h1_pool (s1_parser s2)" "h1_path (s1_parser s2) = h1_path p1"
    "ToView (s1_region s2) \<lparr> ro_off = 0, ro_len = length (fst h) \<rparr> = fst h"
    using receive_last_header [of others "s\<lparr> s1_region := st1, s1_parser := p1 \<rparr>" h] one assms(8) by auto
  have "H1Path (s1_region s2, s1_parser s2) = take (length path) (fst h)"
    using two(2-4) one(8) mem_read_take [OF assms(9)]
    by (cases "s1_region s2") (simp add: H1Path_def ToView_def)
  with one(1) two(1) show ?thesis
    by blast
qed

theorem split_request_path_overwritten_witness:
  "\<exists>s1 s2. receive (''GET /etc HTTP/1.1'' @ crlf) (new_h11_session (fst sample_ctx) 0) = (Incomplete, s1)
    \<and> receive (header_line (''x-evil'', ''1'') @ crlf @ crlf) s1 = (Complete, s2)
    \<and> H1Path (s1_region s2, s1_parser s2) = ''x-ev''"
proof -
  let ?s = "new_h11_session (fst sample_ctx) 0"
  have inv: "region_inv (map region_slot (tl (snd two_sessions))) (s1_region ?s)"
    using sample_ctx_inv
    by (simp add: new_h11_session_def sample_ctx_def two_sessions_eq InitRegion_def ctx_inv_def region_inv_def)
  have cap: "sr_cap (snd (s1_region ?s)) = 65536"
    by (simp add: new_h11_session_def sample_ctx_def two_sessions_eq InitRegion_def)
  have wf: "wf_request_line ''GET'' ''/etc''" "wf_header (''x-evil'', ''1'')"
    by (simp_all add: wf_request_line_def known_methods_def plain_def wf_header_def header_line_def tolower_def)
  from split_request_path_overwritten [OF inv _ _ _ _ wf(1) _ wf(2)] cap show ?thesis
    by (simp add: new_h11_session_def new_h1_parser_def headers_room_def align8_def kAlign_def)
qed

end
