(* ===== verification/Ws_Frame.thy ===== *)
theory Ws_Frame
  imports Web_Prelude
begin

unbundle bit_operations_syntax

text \<open>
  WebSocket framing (\<^verbatim>\<open>net/ws_frame.hpp\<close>), the connection object with its automatic pong and
  close replies (\<^verbatim>\<open>net/ws_connection.hpp\<close>) and the frame relay (\<^verbatim>\<open>net/ws_relay.hpp\<close>).

  The input side of a stream is the list of the pieces in which its bytes arrive, up to the
  end of the connection; a read past the last piece is the error the code checks for. The
  output side is the list of bytes written. Writes are taken to succeed.
\<close>

section \<open>Reading from a stream\<close>

type_synonym arrivals = "byte list list"

text \<open>\<^verbatim>\<open>async_read_some\<close> hands out at most \<open>n\<close> bytes of the next piece.\<close>

fun read_some :: "nat \<Rightarrow> 'a list list \<Rightarrow> ('a list \<times> 'a list list) option" where
  "read_some n [] = None"
| "read_some n (c # s) = Some (take n c, if n < length c then drop n c # s else s)"

lemma read_some_measure:
  "read_some n s = Some (bs, s') \<Longrightarrow> 0 < n \<Longrightarrow>
     sum_list (map length s') + length s' < sum_list (map length s) + length s"
  by (cases s) (auto split: if_splits)

function read_loop :: "nat \<Rightarrow> byte list \<Rightarrow> arrivals \<Rightarrow> byte list \<times> arrivals" where
  "read_loop n buf s =
     (if n \<le> length buf then (buf, s)
      else case read_some (n - length buf) s of
             None \<Rightarrow> ([], s)
           | Some (bs, s') \<Rightarrow> read_loop n (buf @ bs) s')"
  by pat_completeness auto
termination read_loop
  by (relation "measure (\<lambda>(n, buf, s). sum_list (map length s) + length s)")
    (auto dest: read_some_measure)

declare read_loop.simps [simp del]

definition ReadExactly :: "nat \<Rightarrow> arrivals \<Rightarrow> byte list \<times> arrivals" where
  "ReadExactly n s = (if n = 0 then ([], s) else read_loop n [] s)"

text \<open>
  What \<open>ReadExactly\<close> returns depends on the bytes only, never on how they were cut into
  pieces: either the next \<open>n\<close> bytes, or the empty string with everything consumed.
\<close>

lemma read_loop_spec:
  "length buf \<le> n \<Longrightarrow> \<exists>s'. read_loop n buf s =
     (if n \<le> length buf + length (concat s) then buf @ take (n - length buf) (concat s) else [], s')
     \<and> concat s' = drop (n - length buf) (concat s)"
proof (induction n buf s rule: read_loop.induct)
  case (1 n buf s)
  show ?case
  proof (cases "n \<le> length buf")
    case True
    with 1(2) show ?thesis
      by (simp add: read_loop.simps)
  next
    case less: False
    show ?thesis
    proof (cases s)
      case Nil
      with less show ?thesis
        by (simp add: read_loop.simps)
    next
      case (Cons c t)
      let ?m = "n - length buf"
      define s' where "s' = (if ?m < length c then drop ?m c # t else t)"
      have some: "read_some ?m s = Some (take ?m c, s')"
        by (simp add: Cons s'_def)
      have "\<exists>s''. read_loop n (buf @ take ?m c) s' =
          (if n \<le> length (buf @ take ?m c) + length (concat s')
           then (buf @ take ?m c) @ take (n - length (buf @ take ?m c)) (concat s') else [], s'')
          \<and> concat s'' = drop (n - length (buf @ take ?m c)) (concat s')"
        using less some by (intro 1(1)) auto
      moreover have "read_loop n buf s = read_loop n (buf @ take ?m c) s'"
        using less some by (subst read_loop.simps) simp
      ultimately show ?thesis
        using less by (auto simp: Cons s'_def min_def split: if_splits)
    qed
  qed
qed

lemma ReadExactly_spec:
  obtains s' where
    "ReadExactly n s = (if n \<le> length (concat s) then take n (concat s) else [], s')"
    "concat s' = drop n (concat s)"
proof (cases "n = 0")
  case True
  with that show ?thesis
    by (simp add: ReadExactly_def)
next
  case False
  with that read_loop_spec [of "[]" n s] show ?thesis
    by (auto simp: ReadExactly_def)
qed

lemma ReadExactly_prefix:
  assumes "concat s = bs @ rest" and "length bs = n"
  obtains s' where "ReadExactly n s = (bs, s')" "concat s' = rest"
  using ReadExactly_spec [of n s] assms by auto

section \<open>Frames\<close>

text \<open>
  The enumeration has a fixed underlying type; \<open>OtherOp\<close> holds the values without an
  enumerator that the cast from the wire can produce.
\<close>

datatype WsOpcode = Continuation | Text | Binary | Close | Ping | Pong | OtherOp byte

fun opcode_byte :: "WsOpcode \<Rightarrow> byte" where
  "opcode_byte Continuation = 0x0" | "opcode_byte Text = 0x1" | "opcode_byte Binary = 0x2"
| "opcode_byte Close = 0x8" | "opcode_byte Ping = 0x9" | "opcode_byte Pong = 0xA"
| "opcode_byte (OtherOp b) = b"

definition ws_opcode :: "byte \<Rightarrow> WsOpcode" where
  "ws_opcode b =
     (if b = 0x0 then Continuation else if b = 0x1 then Text else if b = 0x2 then Binary
      else if b = 0x8 then Close else if b = 0x9 then Ping else if b = 0xA then Pong
      else OtherOp b)"

record WsFrame =
  fin :: bool
  opcode :: WsOpcode
  payload :: "byte list"

definition empty_frame :: WsFrame where
  "empty_frame = \<lparr> fin = True, opcode = Binary, payload = [] \<rparr>"

definition UnmaskPayload :: "byte list \<Rightarrow> byte list \<Rightarrow> byte list" where
  "UnmaskPayload p mask_key =
     map (\<lambda>i. (p ! i) XOR (mask_key ! (i AND 3))) [0..<length p]"

definition kMaxPayload :: u64 where "kMaxPayload = 1024 * 1024"

text \<open>Extended payload length; \<open>None\<close> is a failed read.\<close>

definition read_length :: "byte \<Rightarrow> arrivals \<Rightarrow> u64 option \<times> arrivals" where
  "read_length b1 s =
     (let len = ucast (b1 AND 0x7F) :: u64
      in if len = 126
         then (let (ext, s1) = ReadExactly 2 s
               in (if length ext < 2 then None
                   else Some (push_bit 8 (ucast (ext ! 0)) OR ucast (ext ! 1)), s1))
         else if len = 127
         then (let (ext, s1) = ReadExactly 8 s
               in (if length ext < 8 then None
                   else Some (fold (\<lambda>b len. push_bit 8 len OR ucast b) ext 0), s1))
         else (Some len, s))"

definition read_mask :: "bool \<Rightarrow> arrivals \<Rightarrow> byte list option \<times> arrivals" where
  "read_mask masked s =
     (if masked
      then (let (mk, s1) = ReadExactly 4 s in (if length mk < 4 then None else Some mk, s1))
      else (Some [0, 0, 0, 0], s))"

definition read_payload ::
  "WsFrame \<Rightarrow> u64 \<Rightarrow> bool \<Rightarrow> byte list \<Rightarrow> arrivals \<Rightarrow> WsFrame \<times> arrivals" where
  "read_payload frame len masked mask_key s =
     (if kMaxPayload < len then (frame, s)
      else if 0 < len
      then (let (p, s1) = ReadExactly (unat len) s
            in if length p < unat len then (empty_frame, s1)
               else (frame\<lparr> payload := if masked then UnmaskPayload p mask_key else p \<rparr>, s1))
      else (frame, s))"

definition ReadFrame :: "arrivals \<Rightarrow> WsFrame \<times> arrivals" where
  "ReadFrame s =
     (let (h, s1) = ReadExactly 2 s
      in if length h < 2 then (empty_frame, s1)
         else
           let frame = \<lparr> fin = (h ! 0 AND 0x80 \<noteq> 0), opcode = ws_opcode (h ! 0 AND 0x0F),
                         payload = [] \<rparr>;
               masked = (h ! 1 AND 0x80 \<noteq> 0)
           in case read_length (h ! 1) s1 of
                (None, s2) \<Rightarrow> (frame, s2)
              | (Some len, s2) \<Rightarrow>
                  (case read_mask masked s2 of
                     (None, s3) \<Rightarrow> (frame, s3)
                   | (Some mask_key, s3) \<Rightarrow> read_payload frame len masked mask_key s3))"

definition WriteFrame :: "WsOpcode \<Rightarrow> byte list \<Rightarrow> bool \<Rightarrow> bool \<Rightarrow> byte list" where
  "WriteFrame op p f masked =
     (let b0 = (if f then 0x80 else 0x00) OR opcode_byte op;
          len = of_nat (length p) :: u64;
          b1 = (if masked then 0x80 else 0x00) :: byte;
          header =
            (if len < 126 then [b0, b1 OR ucast len]
             else if len \<le> 0xFFFF
             then [b0, b1 OR 126, ucast (drop_bit 8 len AND 0xFF), ucast (len AND 0xFF)]
             else [b0, b1 OR 127]
               @ map (\<lambda>i. ucast (drop_bit (i * 8) len AND 0xFF)) [7, 6, 5, 4, 3, 2, 1, 0]);
          mk = [0x00, 0x00, 0x00, 0x00]
      in if masked then header @ mk @ UnmaskPayload p mk else header @ p)"

definition WriteCloseFrame :: "u16 \<Rightarrow> byte list \<Rightarrow> byte list" where
  "WriteCloseFrame code reason =
     WriteFrame Close (ucast (drop_bit 8 code AND 0xFF) # ucast (code AND 0xFF) # reason) True False"

section \<open>The relay\<close>

text \<open>
  One direction of the relay. The first argument lists what successive loads of the cancel
  flag return: the other direction may set it at any time. When the list ends the relay is
  still running; \<open>Cancelled\<close> and \<open>ReadError\<close> are its exits without, and \<open>Closed\<close> its
  exit with a store to the flag.
\<close>

datatype relay_status = Running | Cancelled | ReadError | Closed

primrec WsRelayDirectional ::
  "bool list \<Rightarrow> bool \<Rightarrow> arrivals \<Rightarrow> byte list \<Rightarrow> relay_status \<times> arrivals \<times> byte list" where
  "WsRelayDirectional [] mask_to s out = (Running, s, out)"
| "WsRelayDirectional (c # cs) mask_to s out =
     (if c then (Cancelled, s, out)
      else case ReadFrame s of (frame, s') \<Rightarrow>
        if payload frame = [] \<and> \<not> fin frame then (ReadError, s', out)
        else if opcode frame = Close
        then (Closed, s', out @ WriteFrame Close (payload frame) True mask_to)
        else WsRelayDirectional cs mask_to s'
               (out @ WriteFrame (opcode frame) (payload frame) (fin frame) mask_to))"

section \<open>The connection object\<close>

text \<open>
  \<open>late k\<close> says whether the idle timer had expired when the \<open>k\<close>-th \<open>ReadFrame\<close>
  returned; \<open>conn_reads\<close> counts those calls and stands for no field of the class.
\<close>

record WsConnection =
  conn_in :: arrivals
  conn_out :: "byte list"
  conn_closed :: bool
  idle_timeout :: nat
  conn_reads :: nat

definition new_ws_connection :: "arrivals \<Rightarrow> nat \<Rightarrow> WsConnection" where
  "new_ws_connection s idle =
     \<lparr> conn_in = s, conn_out = [], conn_closed = False, idle_timeout = idle, conn_reads = 0 \<rparr>"

definition timeout_text :: "byte list" where
  "timeout_text = [0x74, 0x69, 0x6D, 0x65, 0x6F, 0x75, 0x74]"

definition close_code :: "byte list \<Rightarrow> u16" where
  "close_code p = (if 2 \<le> length p then be16 (p ! 0) (p ! 1) else 1000)"

definition write_conn :: "byte list \<Rightarrow> WsConnection \<Rightarrow> WsConnection" where
  "write_conn bs w = w\<lparr> conn_out := conn_out w @ bs \<rparr>"

text \<open>A frame that is not the one to return: the two \<^verbatim>\<open>continue\<close> branches of the loop.\<close>

definition control_reply :: "WsFrame \<Rightarrow> WsConnection \<Rightarrow> WsConnection" where
  "control_reply frame w =
     (if opcode frame = Ping then write_conn (WriteFrame Pong (payload frame) True False) w else w)"

lemma ReadExactly_shrinks:
  assumes "ReadExactly n s = (bs, s')"
  shows "length (concat s') \<le> length (concat s)"
    and "bs \<noteq> [] \<Longrightarrow> length (concat s') < length (concat s)"
proof -
  obtain s'' where
    "ReadExactly n s = (if n \<le> length (concat s) then take n (concat s) else [], s'')"
    "concat s'' = drop n (concat s)"
    by (rule ReadExactly_spec)
  with assms show "length (concat s') \<le> length (concat s)"
    and "bs \<noteq> [] \<Longrightarrow> length (concat s') < length (concat s)"
    by (auto split: if_splits)
qed

lemma read_parts_shrink:
  "read_length b s = (r, s') \<Longrightarrow> length (concat s') \<le> length (concat s)"
  "read_mask m s = (k, s') \<Longrightarrow> length (concat s') \<le> length (concat s)"
  "read_payload f len m key s = (f', s') \<Longrightarrow> length (concat s') \<le> length (concat s)"
  by (auto simp: read_length_def read_mask_def read_payload_def Let_def
      dest: ReadExactly_shrinks(1) split: if_splits prod.splits)

lemma ReadFrame_shrinks:
  assumes "ReadFrame s = (fr, s')" and "opcode fr \<noteq> Binary"
  shows "length (concat s') < length (concat s)"
proof -
  obtain h s1 where h: "ReadExactly 2 s = (h, s1)"
    by fastforce
  have "\<not> length h < 2"
    using assms h by (auto simp: ReadFrame_def empty_frame_def)
  then have "length (concat s1) < length (concat s)"
    using ReadExactly_shrinks(2) [OF h] by fastforce
  moreover have "length (concat s') \<le> length (concat s1)"
    using assms(1) h \<open>\<not> length h < 2\<close> read_parts_shrink
    by (fastforce simp: ReadFrame_def Let_def split: prod.splits option.splits)
  ultimately show ?thesis
    by simp
qed

function Read :: "(nat \<Rightarrow> bool) \<Rightarrow> WsConnection \<Rightarrow> WsFrame \<times> WsConnection" where
  "Read late w =
     (case ReadFrame (conn_in w) of (frame, s') \<Rightarrow>
        let w1 = w\<lparr> conn_in := s', conn_reads := Suc (conn_reads w) \<rparr>
        in if 0 < idle_timeout w \<and> late (conn_reads w)
           then (empty_frame, write_conn (WriteCloseFrame 1002 timeout_text) (w1\<lparr> conn_closed := True \<rparr>))
           else if payload frame = [] \<and> \<not> fin frame then (empty_frame, w1)
           else if opcode frame = Ping \<or> opcode frame = Pong then Read late (control_reply frame w1)
           else if opcode frame = Close
           then (empty_frame, (write_conn (WriteCloseFrame (close_code (payload frame))
                    (drop 2 (payload frame))) w1)\<lparr> conn_closed := True \<rparr>)
           else (frame, w1))"
  by pat_completeness auto
termination Read
  by (relation "measure (\<lambda>(late, w). length (concat (conn_in w)))")
    (auto simp: control_reply_def write_conn_def dest!: sym [of "(_, _)"] dest: ReadFrame_shrinks)

declare Read.simps [simp del]

definition SendWs :: "WsOpcode \<Rightarrow> byte list \<Rightarrow> bool \<Rightarrow> WsConnection \<Rightarrow> WsConnection" where
  "SendWs op p f w = write_conn (WriteFrame op p f False) w"

definition CloseWs :: "u16 \<Rightarrow> byte list \<Rightarrow> WsConnection \<Rightarrow> WsConnection" where
  "CloseWs code reason w =
     (if conn_closed w then w
      else write_conn (WriteCloseFrame code reason) (w\<lparr> conn_closed := True \<rparr>))"

section \<open>Frames survive the wire\<close>

text \<open>Opcodes that fit the four bits of the first header byte.\<close>

definition wf_opcode :: "WsOpcode \<Rightarrow> bool" where
  "wf_opcode op \<longleftrightarrow>
     (case op of OtherOp b \<Rightarrow> b AND 0x0F = b \<and> b \<notin> {0x0, 0x1, 0x2, 0x8, 0x9, 0xA} | _ \<Rightarrow> True)"

lemma ws_opcode_byte [simp]: "wf_opcode op \<Longrightarrow> ws_opcode (opcode_byte op) = op"
  by (cases op) (auto simp: ws_opcode_def wf_opcode_def)

lemma opcode_nibble: "wf_opcode op \<Longrightarrow> opcode_byte op AND 0x0F = opcode_byte op"
  by (cases op) (auto simp: wf_opcode_def)

lemma low_bits_flag:
  fixes b m :: byte
  assumes "b AND m = b" and "m AND 0x80 = 0"
  shows "((if f then 0x80 else 0x00) OR b) AND m = b"
    and "((if f then 0x80 else 0x00) OR b) AND 0x80 = (if f then 0x80 else 0)"
proof -
  have "b AND 0x80 = (b AND m) AND 0x80"
    using assms(1) by simp
  also have "\<dots> = 0"
    using assms(2) by (simp add: and.assoc)
  finally have "b AND 0x80 = 0" .
  moreover have "0x80 AND m = 0"
    using assms(2) by (simp add: and.commute)
  ultimately show "((if f then 0x80 else 0x00) OR b) AND m = b"
    and "((if f then 0x80 else 0x00) OR b) AND 0x80 = (if f then 0x80 else 0)"
    using assms(1) by (simp_all add: bit.conj_disj_distrib2)
qed

lemma and_FF_byte: "ucast (v AND 0xFF :: u64) = (ucast v :: byte)"
proof -
  have "ucast (v AND mask 8) = (ucast v :: byte)"
    by (rule bit_word_eqI) (auto simp: bit_simps)
  then show ?thesis
    by (simp add: mask_eq_exp_minus_1)
qed

lemma length_step:
  fixes v :: u64
  shows "push_bit 8 (drop_bit (8 * Suc j) v) OR ucast (byte_of j v) = drop_bit (8 * j) v"
proof (rule bit_word_eqI)
  fix n
  show "bit (push_bit 8 (drop_bit (8 * Suc j) v) OR ucast (byte_of j v)) n = bit (drop_bit (8 * j) v) n"
    using bit_imp_le_length [of v "8 * j + n"]
    by (cases "n < 8") (auto simp: bit_simps byte_of_bit algebra_simps)
qed

lemma length_bytes8:
  "fold (\<lambda>b len. push_bit 8 len OR ucast b)
     (map (\<lambda>i. byte_of i (v :: u64)) [7, 6, 5, 4, 3, 2, 1, 0]) 0 = v"
proof -
  have top: "drop_bit (8 * Suc 7) v = 0"
    by (rule bit_word_eqI) (auto simp: bit_simps dest: bit_imp_le_length)
  show ?thesis
    using length_step [of 7 v] length_step [of 6 v] length_step [of 5 v] length_step [of 4 v]
      length_step [of 3 v] length_step [of 2 v] length_step [of 1 v] length_step [of 0 v]
    unfolding top by simp
qed

lemma length_bytes2:
  fixes v :: u64
  assumes "unat v < 2 ^ 16"
  shows "push_bit 8 (ucast (byte_of 1 v)) OR ucast (byte_of 0 v) = v"
proof -
  have "drop_bit (8 * Suc 1) v = 0"
    using bit_small [OF _ assms] by (intro bit_word_eqI) (force simp: bit_simps)
  then show ?thesis
    using length_step [of 1 v] length_step [of 0 v] by simp
qed

lemma unmask_unmask: "UnmaskPayload (UnmaskPayload p k) k = p"
  by (rule nth_equalityI) (simp_all add: UnmaskPayload_def xor.assoc)

lemma length_unmask [simp]: "length (UnmaskPayload p k) = length p"
  by (simp add: UnmaskPayload_def)

lemma read_length_short:
  assumes "unat c < 126" and "b AND 0x7F = c"
  shows "read_length b s = (Some (ucast c), s)"
proof -
  have "(ucast c :: u64) \<noteq> 126" "(ucast c :: u64) \<noteq> 127"
    using assms(1) by (auto dest!: arg_cong [where f = unat] simp: unat_ucast_up)
  with assms(2) show ?thesis
    by (simp add: read_length_def)
qed

lemma read_length_2:
  assumes "b AND 0x7F = 126" and "concat s = [x, y] @ rest"
  obtains s' where "read_length b s = (Some (push_bit 8 (ucast x) OR ucast y), s')" "concat s' = rest"
proof (rule ReadExactly_prefix [OF assms(2), of 2])
  fix s'
  assume "ReadExactly 2 s = ([x, y], s')" "concat s' = rest"
  then show thesis
    using that assms(1) by (simp add: read_length_def)
qed simp

lemma read_length_8:
  assumes "b AND 0x7F = 127" and "concat s = ext @ rest" and "length ext = 8"
  obtains s' where "read_length b s = (Some (fold (\<lambda>b len. push_bit 8 len OR ucast b) ext 0), s')"
    "concat s' = rest"
proof (rule ReadExactly_prefix [OF assms(2,3)])
  fix s'
  assume "ReadExactly 8 s = (ext, s')" "concat s' = rest"
  then show thesis
    using that assms(1,3) by (simp add: read_length_def)
qed

text \<open>The length field of a written frame: the second header byte and the extended length.\<close>

definition length_field :: "nat \<Rightarrow> byte \<times> byte list" where
  "length_field n =
     (let len = of_nat n :: u64
      in if len < 126 then (ucast len, [])
         else if len \<le> 0xFFFF then (126, [byte_of 1 len, byte_of 0 len])
         else (127, map (\<lambda>i. byte_of i len) [7, 6, 5, 4, 3, 2, 1, 0]))"

lemma WriteFrame_parts:
  "length_field (length p) = (c, ext) \<Longrightarrow>
   WriteFrame op p f m =
     [(if f then 0x80 else 0x00) OR opcode_byte op, (if m then 0x80 else 0x00) OR c] @ ext
     @ (if m then [0, 0, 0, 0] @ UnmaskPayload p [0, 0, 0, 0] else p)"
  by (auto simp: WriteFrame_def length_field_def Let_def and_FF_byte byte_of_def mult.commute
      split: if_splits)

lemma small_len_byte:
  assumes "(len :: u64) < 126"
  shows "unat (ucast len :: byte) = unat len" and "(ucast len :: byte) AND 0x7F = ucast len"
proof -
  have l: "unat len < 126"
    using assms by (simp add: word_less_nat_alt)
  then show u: "unat (ucast len :: byte) = unat len"
    by (simp add: unsigned_ucast_eq take_bit_nat_eq_self_iff)
  have "unat (ucast len :: byte) < 2 ^ 7"
    using u l by simp
  then show "(ucast len :: byte) AND 0x7F = ucast len"
    using bit_small [of "ucast len :: byte" _ 7] bit_7f
    by (intro bit_word_eqI) (auto simp: bit_and_iff)
qed

lemma length_field_read:
  assumes "length_field n = (c, ext)" and "n < 2 ^ 64" and "concat s = ext @ rest"
  shows "c AND 0x7F = c"
    and "\<exists>s'. read_length ((if m then 0x80 else 0x00) OR c) s = (Some (of_nat n), s')
           \<and> concat s' = rest"
proof -
  let ?len = "of_nat n :: u64" and ?b = "(if m then 0x80 else 0x00) OR c"
  show c: "c AND 0x7F = c"
    using assms(1) small_len_byte(2) [of ?len]
    by (auto simp: length_field_def Let_def split: if_splits)
  have b: "?b AND 0x7F = c"
    using low_bits_flag(1) [OF c, of m] by simp
  consider "?len < 126" "c = ucast ?len" "ext = []"
    | "?len \<le> 0xFFFF" "c = 126" "ext = [byte_of 1 ?len, byte_of 0 ?len]"
    | "c = 127" "ext = map (\<lambda>i. byte_of i ?len) [7, 6, 5, 4, 3, 2, 1, 0]"
    using assms(1) by (auto simp: length_field_def Let_def split: if_splits)
  then show "\<exists>s'. read_length ?b s = (Some ?len, s') \<and> concat s' = rest"
  proof cases
    case 1
    have "unat c < 126"
      using 1 small_len_byte(1) [OF 1(1)] by (simp add: word_less_nat_alt)
    moreover have "(ucast c :: u64) = ?len"
      using 1 small_len_byte(1) [OF 1(1)] by (intro word_unat_eq_iff [THEN iffD2]) (simp add: unat_ucast_up)
    ultimately show ?thesis
      using 1 assms(3) read_length_short [OF _ b] by simp
  next
    case 2
    then have "unat ?len < 2 ^ 16"
      by (simp add: word_le_nat_alt)
    from length_bytes2 [OF this] show ?thesis
      using read_length_2 [of ?b s "byte_of 1 ?len" "byte_of 0 ?len" rest] b 2 assms(3)
      by metis
  next
    case 3
    then have "length ext = 8" "?b AND 0x7F = 127"
      using b by simp_all
    then obtain s' where "read_length ?b s = (Some (fold (\<lambda>b len. push_bit 8 len OR ucast b) ext 0), s')"
      "concat s' = rest"
      using read_length_8 [of ?b s ext rest] assms(3) by blast
    then show ?thesis
      unfolding 3(2) length_bytes8 by blast
  qed
qed

definition wf_ws_frame :: "WsFrame \<Rightarrow> bool" where
  "wf_ws_frame fr \<longleftrightarrow> wf_opcode (opcode fr) \<and> length (payload fr) \<le> 1024 * 1024"

lemma read_payload_exact:
  assumes "concat s = q @ rest" and "length q \<le> 1024 * 1024" and "payload fr = []"
  shows "\<exists>s'. read_payload fr (of_nat (length q)) m k s
           = (fr\<lparr> payload := if m then UnmaskPayload q k else q \<rparr>, s') \<and> concat s' = rest"
proof (cases "q = []")
  case True
  with assms(1,3) show ?thesis
    by (simp add: read_payload_def kMaxPayload_def UnmaskPayload_def)
next
  case False
  have u: "unat (of_nat (length q) :: u64) = length q"
    using assms(2) by simp
  have "\<not> kMaxPayload < (of_nat (length q) :: u64)" "0 < (of_nat (length q) :: u64)"
    using assms(2) False u by (simp_all add: word_less_nat_alt kMaxPayload_def)
  moreover obtain s' where "ReadExactly (length q) s = (q, s')" "concat s' = rest"
    using ReadExactly_prefix [OF assms(1) refl] by blast
  ultimately show ?thesis
    by (simp add: read_payload_def u)
qed

lemma read_mask_exact:
  assumes "concat s = (if m then [0, 0, 0, 0] else []) @ rest"
  shows "\<exists>s'. read_mask m s = (Some [0, 0, 0, 0], s') \<and> concat s' = rest"
proof (cases m)
  case True
  then have "concat s = [0, 0, 0, 0] @ rest"
    using assms by simp
  then obtain s' where "ReadExactly 4 s = ([0, 0, 0, 0], s')" "concat s' = rest"
    by (rule ReadExactly_prefix [where n = 4]) simp_all
  with True show ?thesis
    by (simp add: read_mask_def)
qed (use assms in \<open>simp add: read_mask_def\<close>)

lemma ReadFrame_WriteFrame:
  assumes "wf_ws_frame fr" and "concat s = WriteFrame (opcode fr) (payload fr) (fin fr) m @ rest"
  shows "\<exists>s'. ReadFrame s = (fr, s') \<and> concat s' = rest"
proof -
  let ?p = "payload fr" and ?b0 = "(if fin fr then 0x80 else 0x00) OR opcode_byte (opcode fr)"
  obtain c ext where lf: "length_field (length ?p) = (c, ext)"
    by fastforce
  let ?b1 = "(if m then 0x80 else 0x00) OR c"
  have op: "wf_opcode (opcode fr)" and len: "length ?p \<le> 1024 * 1024"
    using assms(1) by (auto simp: wf_ws_frame_def)
  define body where "body = (if m then UnmaskPayload ?p [0, 0, 0, 0] else ?p)"
  have "concat s = [?b0, ?b1] @ ext @ (if m then [0, 0, 0, 0] else []) @ body @ rest"
    using assms(2) WriteFrame_parts [OF lf] by (simp add: body_def)
  from ReadExactly_prefix [OF this, of 2] obtain s1 where s1: "ReadExactly 2 s = ([?b0, ?b1], s1)"
    "concat s1 = ext @ (if m then [0, 0, 0, 0] else []) @ body @ rest"
    by auto
  have c: "c AND 0x7F = c" and
    "\<exists>s2. read_length ?b1 s1 = (Some (of_nat (length ?p)), s2)
       \<and> concat s2 = (if m then [0, 0, 0, 0] else []) @ body @ rest"
    using length_field_read(1) [OF lf _ s1(2)] length_field_read(2) [OF lf _ s1(2), of m] len
    by simp_all
  then obtain s2 where s2: "read_length ?b1 s1 = (Some (of_nat (length ?p)), s2)"
    "concat s2 = (if m then [0, 0, 0, 0] else []) @ body @ rest"
    by blast
  obtain s3 where s3: "read_mask m s2 = (Some [0, 0, 0, 0], s3)" "concat s3 = body @ rest"
    using read_mask_exact [OF s2(2)] by blast
  let ?fr = "\<lparr> fin = fin fr, opcode = opcode fr, payload = [] \<rparr>"
  have "length body = length ?p"
    by (simp add: body_def)
  then obtain s4 where s4: "concat s4 = rest" "read_payload ?fr (of_nat (length ?p)) m [0, 0, 0, 0] s3
      = (?fr\<lparr> payload := if m then UnmaskPayload body [0, 0, 0, 0] else body \<rparr>, s4)"
    using read_payload_exact [OF s3(2), of ?fr m "[0, 0, 0, 0]"] len by auto
  have "?b0 AND 0x80 \<noteq> 0 \<longleftrightarrow> fin fr" "ws_opcode (?b0 AND 0x0F) = opcode fr"
    "?b1 AND 0x80 \<noteq> 0 \<longleftrightarrow> m"
    using low_bits_flag [OF opcode_nibble [OF op], of "fin fr"] low_bits_flag [OF c, of m] op
    by simp_all
  with s1(1) s2(1) s3(1) s4 show ?thesis
    by (auto simp: ReadFrame_def body_def unmask_unmask)
qed

section \<open>Message streams\<close>

text \<open>
  \<open>message_stream\<close> is what a reader of framed messages may rely on: a written message is read
  back whole, whatever the pieces it arrives in, and nothing behind it is consumed. Readers of
  many messages then see exactly the messages written.
\<close>

primrec gets :: "(arrivals \<Rightarrow> 'm \<times> arrivals) \<Rightarrow> nat \<Rightarrow> arrivals \<Rightarrow> 'm list \<times> arrivals" where
  "gets get 0 s = ([], s)"
| "gets get (Suc n) s = (case get s of (x, s1) \<Rightarrow> case gets get n s1 of (xs, s2) \<Rightarrow> (x # xs, s2))"

locale message_stream =
  fixes put :: "'m \<Rightarrow> byte list"
    and get :: "arrivals \<Rightarrow> 'm \<times> arrivals"
    and valid :: "'m \<Rightarrow> bool"
  assumes get_put: "valid x \<Longrightarrow> concat s = put x @ rest \<Longrightarrow> \<exists>s'. get s = (x, s') \<and> concat s' = rest"
begin

lemma gets_puts:
  "list_all valid xs \<Longrightarrow> concat s = concat (map put xs) @ rest \<Longrightarrow>
     \<exists>s'. gets get (length xs) s = (xs, s') \<and> concat s' = rest"
proof (induction xs arbitrary: s)
  case (Cons x xs)
  then obtain s1 where "get s = (x, s1)" "concat s1 = concat (map put xs) @ rest"
    using get_put [of x s "concat (map put xs) @ rest"] by auto
  with Cons.IH [of s1] Cons.prems(1) show ?case
    by auto
qed simp

lemma put_prefix_free:
  assumes "valid x" and "valid y" and "put x @ r = put y @ r'"
  shows "x = y \<and> r = r'"
proof -
  let ?s = "[put x @ r]"
  obtain s1 where "get ?s = (x, s1)" "concat s1 = r"
    using get_put [OF assms(1), of ?s r] by auto
  moreover obtain s2 where "get ?s = (y, s2)" "concat s2 = r'"
    using get_put [OF assms(2), of ?s r'] assms(3) by auto
  ultimately show ?thesis
    by simp
qed

end

text \<open>The bytes of a frame as \<open>WriteFrame\<close> puts them on the wire.\<close>

definition ws_frame_bytes :: "bool \<Rightarrow> WsFrame \<Rightarrow> byte list" where
  "ws_frame_bytes masked fr = WriteFrame (opcode fr) (payload fr) (fin fr) masked"

interpretation ws_wire: message_stream "ws_frame_bytes masked" ReadFrame wf_ws_frame for masked
  by unfold_locales (rule ReadFrame_WriteFrame, simp_all add: ws_frame_bytes_def)

text \<open>C18. Frames written one after the other, masked or not, are read back one by one with their
  final flag, opcode and payload, however the network cuts the bytes into pieces, and no byte
  behind the last frame is consumed.\<close>

theorem ws_frames_roundtrip:
  assumes "list_all wf_ws_frame frs"
    and "concat s = concat (map (ws_frame_bytes masked) frs) @ rest"
  shows "\<exists>s'. gets ReadFrame (length frs) s = (frs, s') \<and> concat s' = rest"
  using ws_wire.gets_puts assms by blast

definition hello_frames :: "WsFrame list" where
  "hello_frames =
     [\<lparr> fin = False, opcode = Text, payload = [0x68, 0x69] \<rparr>,
      \<lparr> fin = True, opcode = Continuation, payload = [0x21] \<rparr>]"

lemma hello_frames_wf: "list_all wf_ws_frame hello_frames"
  by (simp add: hello_frames_def wf_ws_frame_def wf_opcode_def)

lemma length_hello: "length hello_frames = 2"
  by (simp add: hello_frames_def)

lemma hello_bytes:
  "concat (map (ws_frame_bytes True) hello_frames) =
     [0x01, 0x82, 0, 0, 0, 0, 0x68, 0x69, 0x80, 0x81, 0, 0, 0, 0, 0x21]"
  "concat (map (ws_frame_bytes False) hello_frames) = [0x01, 0x02, 0x68, 0x69, 0x80, 0x01, 0x21]"
  by code_simp+

theorem ws_frames_roundtrip_witness:
  "\<exists>s'. gets ReadFrame 2
      [[0x01], [0x82, 0, 0], [0, 0, 0x68, 0x69, 0x80], [0x81, 0, 0, 0, 0, 0x21], [7]]
    = (hello_frames, s') \<and> concat s' = [7]"
  using ws_frames_roundtrip [of hello_frames
      "[[0x01], [0x82, 0, 0], [0, 0, 0x68, 0x69, 0x80], [0x81, 0, 0, 0, 0, 0x21], [7]]" True "[7]"]
  by (simp add: hello_frames_wf hello_bytes length_hello)

section \<open>The relay forwards frames\<close>

text \<open>Frames the relay takes for a message: not an unfinished frame without payload.\<close>

definition relayed :: "WsFrame \<Rightarrow> bool" where
  "relayed fr \<longleftrightarrow> wf_ws_frame fr \<and> opcode fr \<noteq> Close \<and> (payload fr \<noteq> [] \<or> fin fr)"

lemma relay_message:
  assumes "relayed fr" and "concat s = ws_frame_bytes m fr @ rest"
  obtains s' where "concat s' = rest"
    "WsRelayDirectional (False # cs) mask_to s out = WsRelayDirectional cs mask_to s' (out @ ws_frame_bytes mask_to fr)"
proof -
  obtain s' where "ReadFrame s = (fr, s')" "concat s' = rest"
    using ws_wire.get_put [of fr s m rest] assms by (auto simp: relayed_def)
  with assms(1) that [of s'] show thesis
    by (auto simp: relayed_def ws_frame_bytes_def)
qed

lemma relay_messages:
  "list_all relayed frs \<Longrightarrow> concat s = concat (map (ws_frame_bytes m) frs) @ rest \<Longrightarrow>
   \<exists>s'. concat s' = rest \<and>
     WsRelayDirectional (replicate (length frs) False @ cs) mask_to s out =
     WsRelayDirectional cs mask_to s' (out @ concat (map (ws_frame_bytes mask_to) frs))"
proof (induction frs arbitrary: s out)
  case (Cons fr frs)
  obtain s1 where s1: "concat s1 = concat (map (ws_frame_bytes m) frs) @ rest"
    "WsRelayDirectional (False # replicate (length frs) False @ cs) mask_to s out =
       WsRelayDirectional (replicate (length frs) False @ cs) mask_to s1 (out @ ws_frame_bytes mask_to fr)"
    using relay_message [of fr s m "concat (map (ws_frame_bytes m) frs) @ rest"
        "replicate (length frs) False @ cs"] Cons.prems by auto
  with Cons.IH [OF _ s1(1), of "out @ ws_frame_bytes mask_to fr"] Cons.prems(1) show ?case
    by (simp del: WsRelayDirectional.simps)
qed auto

lemma ReadFrame_eof:
  assumes "concat s = []"
  obtains s' where "ReadFrame s = (empty_frame, s')" "concat s' = []"
proof -
  obtain s' where "ReadExactly 2 s = ([], s')" "concat s' = []"
    using ReadExactly_spec [of 2 s] assms by auto
  then show thesis
    using that by (simp add: ReadFrame_def)
qed

lemma relay_eof:
  "concat s = [] \<Longrightarrow> \<exists>s'. concat s' = [] \<and>
     WsRelayDirectional (replicate n False) mask_to s out =
       (Running, s', out @ concat (replicate n (ws_frame_bytes mask_to empty_frame)))"
proof (induction n arbitrary: s out)
  case (Suc n)
  obtain s1 where "ReadFrame s = (empty_frame, s1)" "concat s1 = []"
    using ReadFrame_eof [OF Suc.prems] by blast
  with Suc.IH [of s1 "out @ ws_frame_bytes mask_to empty_frame"] show ?case
    by (simp add: ws_frame_bytes_def empty_frame_def)
qed simp

text \<open>C19. The relay forwards every frame of a conversation in order, adding or removing only the
  mask, passes on the Close frame that ends it, sets the cancel flag and stops.\<close>

theorem relay_forwards_conversation:
  assumes "list_all relayed frs" and "wf_ws_frame c" and "opcode c = Close" and "fin c"
    and "concat s = concat (map (ws_frame_bytes m) frs) @ ws_frame_bytes m c @ rest"
  shows "\<exists>s'. WsRelayDirectional (replicate (length frs) False @ [False]) mask_to s out =
           (Closed, s', out @ concat (map (ws_frame_bytes mask_to) frs) @ ws_frame_bytes mask_to c)
         \<and> concat s' = rest"
proof -
  obtain s1 where s1: "concat s1 = ws_frame_bytes m c @ rest"
    "WsRelayDirectional (replicate (length frs) False @ [False]) mask_to s out =
     WsRelayDirectional [False] mask_to s1 (out @ concat (map (ws_frame_bytes mask_to) frs))"
    using relay_messages [OF assms(1,5), of "[False]"] by blast
  then obtain s' where "ReadFrame s1 = (c, s')" "concat s' = rest"
    using ws_wire.get_put [of c s1 m rest] assms(2) by auto
  with assms(3,4) s1(2) show ?thesis
    by (simp add: ws_frame_bytes_def)
qed

lemma hello_relayed: "list_all relayed hello_frames"
  by (simp add: hello_frames_def relayed_def wf_ws_frame_def wf_opcode_def)

lemma closing_frame:
  "ws_frame_bytes True \<lparr> fin = True, opcode = Close, payload = [] \<rparr> = [0x88, 0x80, 0, 0, 0, 0]"
  "ws_frame_bytes False \<lparr> fin = True, opcode = Close, payload = [] \<rparr> = [0x88, 0x00]"
  by code_simp+

theorem relay_forwards_conversation_witness:
  "\<exists>s'. WsRelayDirectional [False, False, False] True
      [[0x01, 0x02, 0x68], [0x69, 0x80, 0x01, 0x21, 0x88, 0x00]] [] =
    (Closed, s', [0x01, 0x82, 0, 0, 0, 0, 0x68, 0x69, 0x80, 0x81, 0, 0, 0, 0, 0x21, 0x88, 0x80, 0, 0, 0, 0])
    \<and> concat s' = []"
  using relay_forwards_conversation [of hello_frames "\<lparr> fin = True, opcode = Close, payload = [] \<rparr>"
      "[[0x01, 0x02, 0x68], [0x69, 0x80, 0x01, 0x21, 0x88, 0x00]]" False "[]" True "[]"]
  by (simp add: hello_relayed length_hello hello_bytes closing_frame wf_ws_frame_def wf_opcode_def
      numeral_2_eq_2 del: WsRelayDirectional.simps)

text \<open>When the source connection ends without a Close frame the relay does not stop: an error
  frame has its final flag set, the test for a read error asks for a cleared one, and the relay
  writes an empty binary frame to the peer in every further iteration.\<close>

theorem relay_floods_after_eof:
  assumes "list_all relayed frs" and "concat s = concat (map (ws_frame_bytes m) frs)"
  shows "\<exists>s'. WsRelayDirectional (replicate (length frs) False @ replicate n False) mask_to s out =
           (Running, s', out @ concat (map (ws_frame_bytes mask_to) frs)
              @ concat (replicate n (ws_frame_bytes mask_to empty_frame)))"
proof -
  have eq: "concat s = concat (map (ws_frame_bytes m) frs) @ []"
    using assms(2) by simp
  obtain s1 where s1: "concat s1 = []"
    "WsRelayDirectional (replicate (length frs) False @ replicate n False) mask_to s out =
     WsRelayDirectional (replicate n False) mask_to s1 (out @ concat (map (ws_frame_bytes mask_to) frs))"
    using relay_messages [OF assms(1) eq] by blast
  then show ?thesis
    using relay_eof [OF s1(1), of n mask_to "out @ concat (map (ws_frame_bytes mask_to) frs)"] by auto
qed

theorem relay_floods_after_eof_witness:
  "\<exists>s'. WsRelayDirectional [False, False, False, False] False [[0x01, 0x02, 0x68, 0x69, 0x80, 0x01, 0x21]] [] =
     (Running, s', [0x01, 0x02, 0x68, 0x69, 0x80, 0x01, 0x21, 0x82, 0x00, 0x82, 0x00])"
proof -
  have "ws_frame_bytes False empty_frame = [0x82, 0x00]"
    by code_simp
  then show ?thesis
    using relay_floods_after_eof [of hello_frames "[[0x01, 0x02, 0x68, 0x69, 0x80, 0x01, 0x21]]" False 2 False "[]"]
    by (simp add: hello_relayed length_hello hello_bytes numeral_2_eq_2 del: WsRelayDirectional.simps)
qed

section \<open>The connection answers control frames\<close>

definition control :: "WsFrame \<Rightarrow> bool" where
  "control fr \<longleftrightarrow> wf_ws_frame fr \<and> opcode fr \<in> {Ping, Pong} \<and> (payload fr \<noteq> [] \<or> fin fr)"

definition pongs :: "WsFrame list \<Rightarrow> byte list" where
  "pongs frs =
     concat (map (\<lambda>fr. WriteFrame Pong (payload fr) True False) (filter (\<lambda>fr. opcode fr = Ping) frs))"

lemma Read_control:
  assumes "control fr" and "concat (conn_in w) = ws_frame_bytes m fr @ rest"
  obtains w' where "Read (\<lambda>_. False) w = Read (\<lambda>_. False) w'" "concat (conn_in w') = rest"
    "conn_out w' = conn_out w @ pongs [fr]" "conn_closed w' = conn_closed w"
proof -
  obtain s' where rf: "ReadFrame (conn_in w) = (fr, s')" "concat s' = rest"
    using ws_wire.get_put [of fr "conn_in w" m rest] assms by (auto simp: control_def)
  let ?w = "control_reply fr (w\<lparr> conn_in := s', conn_reads := Suc (conn_reads w) \<rparr>)"
  have "Read (\<lambda>_. False) w = Read (\<lambda>_. False) ?w"
    using rf assms(1) by (subst Read.simps) (auto simp: control_def)
  then show thesis
    using that [of ?w] rf(2) assms(1)
    by (auto simp: control_def control_reply_def write_conn_def pongs_def)
qed

lemma Read_controls:
  "list_all control cfs \<Longrightarrow> concat (conn_in w) = concat (map (ws_frame_bytes m) cfs) @ rest \<Longrightarrow>
   \<exists>w'. Read (\<lambda>_. False) w = Read (\<lambda>_. False) w' \<and> concat (conn_in w') = rest
     \<and> conn_out w' = conn_out w @ pongs cfs \<and> conn_closed w' = conn_closed w"
proof (induction cfs arbitrary: w)
  case (Cons fr cfs)
  then obtain w1 where "Read (\<lambda>_. False) w = Read (\<lambda>_. False) w1"
    "concat (conn_in w1) = concat (map (ws_frame_bytes m) cfs) @ rest"
    "conn_out w1 = conn_out w @ pongs [fr]" "conn_closed w1 = conn_closed w"
    using Read_control [of fr w m "concat (map (ws_frame_bytes m) cfs) @ rest"] by auto
  with Cons.IH [of w1] Cons.prems(1) show ?case
    by (auto simp: pongs_def)
qed (auto simp: pongs_def)

lemma Read_data:
  assumes "wf_ws_frame fr" and "opcode fr \<notin> {Ping, Pong, Close}" and "payload fr \<noteq> [] \<or> fin fr"
    and "concat (conn_in w) = ws_frame_bytes m fr @ rest"
  obtains w' where "Read (\<lambda>_. False) w = (fr, w')" "concat (conn_in w') = rest"
    "conn_out w' = conn_out w" "conn_closed w' = conn_closed w"
proof -
  obtain s' where "ReadFrame (conn_in w) = (fr, s')" "concat s' = rest"
    using ws_wire.get_put [of fr "conn_in w" m rest] assms(1,4) by auto
  with assms(2,3) that [of "w\<lparr> conn_in := s', conn_reads := Suc (conn_reads w) \<rparr>"] show thesis
    by (auto simp: Read.simps [of "\<lambda>_. False" w])
qed

text \<open>\<open>Read\<close> returns the next data frame and nothing else: Ping frames before it are answered
  with Pong frames of the same payload, in order, Pong frames are dropped, and the bytes behind
  the data frame are left on the stream.\<close>

theorem read_answers_control_frames:
  assumes "list_all control cfs" and "wf_ws_frame fr" and "opcode fr \<notin> {Ping, Pong, Close}"
    and "payload fr \<noteq> [] \<or> fin fr"
    and "concat (conn_in w) = concat (map (ws_frame_bytes m) cfs) @ ws_frame_bytes m fr @ rest"
  shows "\<exists>w'. Read (\<lambda>_. False) w = (fr, w') \<and> concat (conn_in w') = rest
     \<and> conn_out w' = conn_out w @ pongs cfs \<and> conn_closed w' = conn_closed w"
proof -
  obtain w1 where w1: "Read (\<lambda>_. False) w = Read (\<lambda>_. False) w1"
    "concat (conn_in w1) = ws_frame_bytes m fr @ rest"
    "conn_out w1 = conn_out w @ pongs cfs" "conn_closed w1 = conn_closed w"
    using Read_controls [OF assms(1,5)] by blast
  with Read_data [OF assms(2-4) w1(2)] show ?thesis
    by metis
qed

theorem read_answers_control_frames_witness:
  "\<exists>w'. Read (\<lambda>_. False) (new_ws_connection [[0x89, 0x01], [0x70, 0x82], [0x01, 0x21]] 0)
      = (\<lparr> fin = True, opcode = Binary, payload = [0x21] \<rparr>, w')
    \<and> conn_out w' = [0x8A, 0x01, 0x70] \<and> \<not> conn_closed w'"
proof -
  have bytes: "ws_frame_bytes False \<lparr> fin = True, opcode = Ping, payload = [0x70] \<rparr> = [0x89, 0x01, 0x70]"
    "ws_frame_bytes False \<lparr> fin = True, opcode = Binary, payload = [0x21] \<rparr> = [0x82, 0x01, 0x21]"
    "pongs [\<lparr> fin = True, opcode = Ping, payload = [0x70] \<rparr>] = [0x8A, 0x01, 0x70]"
    by code_simp+
  show ?thesis
    using read_answers_control_frames [of "[\<lparr> fin = True, opcode = Ping, payload = [0x70] \<rparr>]"
        "\<lparr> fin = True, opcode = Binary, payload = [0x21] \<rparr>"
        "new_ws_connection [[0x89, 0x01], [0x70, 0x82], [0x01, 0x21]] 0" False "[]"]
    by (auto simp: bytes control_def wf_ws_frame_def wf_opcode_def new_ws_connection_def)
qed

end
