(* ===== verification/Frame_Layer.thy ===== *)
theory Frame_Layer
  imports Web_Prelude
begin

unbundle bit_operations_syntax

text \<open>
  The binary frame layer of HTTP/2 (\<^verbatim>\<open>http/http2/parser/BFL.hpp\<close>): frame headers, the
  fixed-size payloads, SETTINGS lists and the padding arithmetic of HEADERS and DATA.
  A decoder takes the bytes readable at its pointer and returns \<open>None\<close> when it would
  read past them (the precondition stated in the header file); an encoder returns the
  bytes it stores. Every fixed-size format is an interpretation of \<open>wire_codec\<close>.
\<close>

section \<open>Data\<close>

text \<open>
  The enumerations have a fixed underlying type, so a cast from the wire keeps values
  that have no enumerator; \<open>OTHER_TYPE\<close> and \<open>OTHER_ERROR\<close> hold those.
\<close>

datatype H2FrameType =
  DATA | HEADERS | PRIORITY | RST_STREAM | SETTINGS | PUSH_PROMISE | PING | GOAWAY
| WINDOW_UPDATE | CONTINUATION | OTHER_TYPE byte

fun type_byte :: "H2FrameType \<Rightarrow> byte" where
  "type_byte DATA = 0" | "type_byte HEADERS = 1" | "type_byte PRIORITY = 2"
| "type_byte RST_STREAM = 3" | "type_byte SETTINGS = 4" | "type_byte PUSH_PROMISE = 5"
| "type_byte PING = 6" | "type_byte GOAWAY = 7" | "type_byte WINDOW_UPDATE = 8"
| "type_byte CONTINUATION = 9" | "type_byte (OTHER_TYPE b) = b"

definition frame_type :: "byte \<Rightarrow> H2FrameType" where
  "frame_type b =
     (if b = 0 then DATA else if b = 1 then HEADERS else if b = 2 then PRIORITY
      else if b = 3 then RST_STREAM else if b = 4 then SETTINGS else if b = 5 then PUSH_PROMISE
      else if b = 6 then PING else if b = 7 then GOAWAY else if b = 8 then WINDOW_UPDATE
      else if b = 9 then CONTINUATION else OTHER_TYPE b)"

datatype H2Error =
  NO_ERROR | PROTOCOL_ERROR | INTERNAL_ERROR | FLOW_CONTROL_ERROR | SETTINGS_TIMEOUT
| STREAM_CLOSED | FRAME_SIZE_ERROR | REFUSED_STREAM | CANCEL | COMPRESSION_ERROR
| CONNECT_ERROR | ENHANCE_YOUR_CALM | INADEQUATE_SECURITY | HTTP_1_1_REQUIRED
| OTHER_ERROR u32

fun error_code :: "H2Error \<Rightarrow> u32" where
  "error_code NO_ERROR = 0" | "error_code PROTOCOL_ERROR = 1" | "error_code INTERNAL_ERROR = 2"
| "error_code FLOW_CONTROL_ERROR = 3" | "error_code SETTINGS_TIMEOUT = 4"
| "error_code STREAM_CLOSED = 5" | "error_code FRAME_SIZE_ERROR = 6"
| "error_code REFUSED_STREAM = 7" | "error_code CANCEL = 8" | "error_code COMPRESSION_ERROR = 9"
| "error_code CONNECT_ERROR = 10" | "error_code ENHANCE_YOUR_CALM = 11"
| "error_code INADEQUATE_SECURITY = 12" | "error_code HTTP_1_1_REQUIRED = 13"
| "error_code (OTHER_ERROR v) = v"

definition h2_error :: "u32 \<Rightarrow> H2Error" where
  "h2_error v =
     (if v = 0 then NO_ERROR else if v = 1 then PROTOCOL_ERROR else if v = 2 then INTERNAL_ERROR
      else if v = 3 then FLOW_CONTROL_ERROR else if v = 4 then SETTINGS_TIMEOUT
      else if v = 5 then STREAM_CLOSED else if v = 6 then FRAME_SIZE_ERROR
      else if v = 7 then REFUSED_STREAM else if v = 8 then CANCEL
      else if v = 9 then COMPRESSION_ERROR else if v = 10 then CONNECT_ERROR
      else if v = 11 then ENHANCE_YOUR_CALM else if v = 12 then INADEQUATE_SECURITY
      else if v = 13 then HTTP_1_1_REQUIRED else OTHER_ERROR v)"

definition FLAG_END_STREAM :: byte where "FLAG_END_STREAM = 0x01"
definition FLAG_ACK :: byte where "FLAG_ACK = 0x01"
definition FLAG_END_HEADERS :: byte where "FLAG_END_HEADERS = 0x04"
definition FLAG_PADDED :: byte where "FLAG_PADDED = 0x08"
definition FLAG_PRIORITY :: byte where "FLAG_PRIORITY = 0x20"

lemmas flag_defs =
  FLAG_END_STREAM_def FLAG_ACK_def FLAG_END_HEADERS_def FLAG_PADDED_def FLAG_PRIORITY_def

definition has_flag :: "byte \<Rightarrow> byte \<Rightarrow> bool" where
  "has_flag flags f \<longleftrightarrow> flags AND f \<noteq> 0"

definition kFrameHeaderSize :: nat where "kFrameHeaderSize = 9"
definition kH2PrefaceLen :: nat where "kH2PrefaceLen = 24"

record H2FrameHeader =
  fh_length :: u32
  fh_type :: H2FrameType
  fh_flags :: byte
  fh_stream_id :: u32

record H2PriorityPayload =
  pp_exclusive :: bool
  pp_stream_dependency :: u32
  pp_weight :: byte

record H2Settings =
  header_table_size :: "u32 option"
  enable_push :: "u32 option"
  max_concurrent_streams :: "u32 option"
  initial_window_size :: "u32 option"
  max_frame_size :: "u32 option"
  max_header_list_size :: "u32 option"
  enable_connect_protocol :: "u32 option"

record H2GoAway =
  last_stream_id :: u32
  ga_error_code :: H2Error

section \<open>Encoders and decoders\<close>

fun DecodeFrameHeader :: "byte list \<Rightarrow> H2FrameHeader option" where
  "DecodeFrameHeader (d0 # d1 # d2 # d3 # d4 # d5 # d6 # d7 # d8 # _) =
     Some \<lparr> fh_length = be24 d0 d1 d2, fh_type = frame_type d3, fh_flags = d4,
            fh_stream_id = be32 (d5 AND 0x7f) d6 d7 d8 \<rparr>"
| "DecodeFrameHeader _ = None"

definition EncodeFrameHeader :: "H2FrameHeader \<Rightarrow> byte list" where
  "EncodeFrameHeader hdr =
     [byte_of 2 (fh_length hdr), byte_of 1 (fh_length hdr), byte_of 0 (fh_length hdr),
      type_byte (fh_type hdr), fh_flags hdr,
      byte_of 3 (fh_stream_id hdr) AND 0x7f, byte_of 2 (fh_stream_id hdr),
      byte_of 1 (fh_stream_id hdr), byte_of 0 (fh_stream_id hdr)]"

fun DecodePriority :: "byte list \<Rightarrow> H2PriorityPayload option" where
  "DecodePriority (d0 # d1 # d2 # d3 # d4 # _) =
     Some \<lparr> pp_exclusive = (d0 AND 0x80 \<noteq> 0),
            pp_stream_dependency = be32 (d0 AND 0x7f) d1 d2 d3, pp_weight = d4 + 1 \<rparr>"
| "DecodePriority _ = None"

definition EncodePriority :: "H2PriorityPayload \<Rightarrow> byte list" where
  "EncodePriority p =
     (let sd = pp_stream_dependency p AND 0x7fffffff;
          sd = (if pp_exclusive p then sd OR 0x80000000 else sd)
      in [byte_of 3 sd, byte_of 2 sd, byte_of 1 sd, byte_of 0 sd, pp_weight p - 1])"

fun DecodeRstStream :: "byte list \<Rightarrow> H2Error option" where
  "DecodeRstStream (d0 # d1 # d2 # d3 # _) = Some (h2_error (be32 d0 d1 d2 d3))"
| "DecodeRstStream _ = None"

definition EncodeRstStream :: "H2Error \<Rightarrow> byte list" where
  "EncodeRstStream ec =
     (let v = error_code ec in [byte_of 3 v, byte_of 2 v, byte_of 1 v, byte_of 0 v])"

fun DecodePushPromise :: "byte list \<Rightarrow> u32 option" where
  "DecodePushPromise (d0 # d1 # d2 # d3 # _) = Some (be32 (d0 AND 0x7f) d1 d2 d3)"
| "DecodePushPromise _ = None"

definition EncodePushPromise :: "u32 \<Rightarrow> byte list" where
  "EncodePushPromise pid = [byte_of 3 pid AND 0x7f, byte_of 2 pid, byte_of 1 pid, byte_of 0 pid]"

text \<open>A PING carries eight opaque bytes, copied with \<^verbatim>\<open>memcpy\<close> in both directions.\<close>

definition DecodePing :: "byte list \<Rightarrow> byte list option" where
  "DecodePing data = (if 8 \<le> length data then Some (take 8 data) else None)"

definition EncodePing :: "byte list \<Rightarrow> byte list" where
  "EncodePing p = take 8 p"

fun DecodeGoAway :: "byte list \<Rightarrow> H2GoAway option" where
  "DecodeGoAway (d0 # d1 # d2 # d3 # d4 # d5 # d6 # d7 # _) =
     Some \<lparr> last_stream_id = be32 (d0 AND 0x7f) d1 d2 d3,
            ga_error_code = h2_error (be32 d4 d5 d6 d7) \<rparr>"
| "DecodeGoAway _ = None"

definition EncodeGoAway :: "H2GoAway \<Rightarrow> byte list" where
  "EncodeGoAway g =
     (let ec = error_code (ga_error_code g) in
      [byte_of 3 (last_stream_id g) AND 0x7f, byte_of 2 (last_stream_id g),
       byte_of 1 (last_stream_id g), byte_of 0 (last_stream_id g),
       byte_of 3 ec, byte_of 2 ec, byte_of 1 ec, byte_of 0 ec])"

fun DecodeWindowUpdate :: "byte list \<Rightarrow> u32 option" where
  "DecodeWindowUpdate (d0 # d1 # d2 # d3 # _) = Some (be32 (d0 AND 0x7f) d1 d2 d3)"
| "DecodeWindowUpdate _ = None"

definition EncodeWindowUpdate :: "u32 \<Rightarrow> byte list" where
  "EncodeWindowUpdate inc = [byte_of 3 inc AND 0x7f, byte_of 2 inc, byte_of 1 inc, byte_of 0 inc]"

subsection \<open>SETTINGS\<close>

definition no_settings :: H2Settings where
  "no_settings = \<lparr> header_table_size = None, enable_push = None, max_concurrent_streams = None,
     initial_window_size = None, max_frame_size = None, max_header_list_size = None,
     enable_connect_protocol = None \<rparr>"

text \<open>The \<^verbatim>\<open>switch\<close> on the setting identifier; unknown identifiers are skipped.\<close>

definition apply_setting :: "u16 \<Rightarrow> u32 \<Rightarrow> H2Settings \<Rightarrow> H2Settings" where
  "apply_setting i v s =
     (if i = 1 then s\<lparr>header_table_size := Some v\<rparr>
      else if i = 2 then s\<lparr>enable_push := Some v\<rparr>
      else if i = 3 then s\<lparr>max_concurrent_streams := Some v\<rparr>
      else if i = 4 then s\<lparr>initial_window_size := Some v\<rparr>
      else if i = 5 then s\<lparr>max_frame_size := Some v\<rparr>
      else if i = 6 then s\<lparr>max_header_list_size := Some v\<rparr>
      else if i = 8 then s\<lparr>enable_connect_protocol := Some v\<rparr>
      else s)"

text \<open>The loop \<^verbatim>\<open>for (i = 0; i + 6 <= len; i += 6)\<close> over the payload's \<^verbatim>\<open>len\<close> bytes.\<close>

fun decode_settings_loop :: "H2Settings \<Rightarrow> byte list \<Rightarrow> H2Settings" where
  "decode_settings_loop s (d0 # d1 # d2 # d3 # d4 # d5 # rest) =
     decode_settings_loop (apply_setting (be16 d0 d1) (be32 d2 d3 d4 d5) s) rest"
| "decode_settings_loop s _ = s"

definition DecodeSettings :: "byte list \<Rightarrow> H2Settings" where
  "DecodeSettings data = decode_settings_loop no_settings data"

definition emit_setting :: "u16 \<Rightarrow> u32 option \<Rightarrow> byte list" where
  "emit_setting i v =
     (case v of None \<Rightarrow> []
      | Some x \<Rightarrow> [byte_of 1 i, byte_of 0 i, byte_of 3 x, byte_of 2 x, byte_of 1 x, byte_of 0 x])"

definition EncodeSettings :: "H2Settings \<Rightarrow> byte list" where
  "EncodeSettings s =
     emit_setting 1 (header_table_size s) @ emit_setting 2 (enable_push s)
     @ emit_setting 3 (max_concurrent_streams s) @ emit_setting 4 (initial_window_size s)
     @ emit_setting 5 (max_frame_size s) @ emit_setting 6 (max_header_list_size s)
     @ emit_setting 8 (enable_connect_protocol s)"

subsection \<open>Padding arithmetic\<close>

text \<open>
  \<^verbatim>\<open>size_t\<close> values as 64-bit words: \<^verbatim>\<open>hdr.length - overhead\<close> is computed at 64 bits,
  \<^verbatim>\<open>hdr.length - 1\<close> in \<open>DataLength\<close> at 32 bits (both operands are at most
  \<^verbatim>\<open>unsigned int\<close>) and widened afterwards. \<open>None\<close> is the read of \<^verbatim>\<open>payload[0]\<close>
  past the readable bytes.
\<close>

definition HeadersBlockStart :: "H2FrameHeader \<Rightarrow> u64" where
  "HeadersBlockStart hdr =
     (if has_flag (fh_flags hdr) FLAG_PADDED then 1 else 0)
     + (if has_flag (fh_flags hdr) FLAG_PRIORITY then 5 else 0)"

definition HeadersBlockLength :: "H2FrameHeader \<Rightarrow> byte list \<Rightarrow> u64 option" where
  "HeadersBlockLength hdr payload =
     (let padded = has_flag (fh_flags hdr) FLAG_PADDED;
          prio = has_flag (fh_flags hdr) FLAG_PRIORITY;
          overhead = (if padded then 1 else 0) + 5 * (if prio then 1 else 0) :: u64
      in if padded
         then (case payload of [] \<Rightarrow> None
               | p0 # _ \<Rightarrow>
                   let pad_len = ucast p0 :: u64; raw = ucast (fh_length hdr) - overhead
                   in Some (if pad_len \<le> raw then raw - pad_len else 0))
         else Some (ucast (fh_length hdr) - overhead))"

definition DataOffset :: "H2FrameHeader \<Rightarrow> u64" where
  "DataOffset hdr = (if has_flag (fh_flags hdr) FLAG_PADDED then 1 else 0)"

definition DataLength :: "H2FrameHeader \<Rightarrow> byte list \<Rightarrow> u64 option" where
  "DataLength hdr payload =
     (if has_flag (fh_flags hdr) FLAG_PADDED
      then (case payload of [] \<Rightarrow> None
            | p0 # _ \<Rightarrow>
                let pad_len = ucast p0 :: u64; raw = ucast (fh_length hdr - 1) :: u64
                in Some (if pad_len \<le> raw then raw - pad_len else 0))
      else Some (ucast (fh_length hdr)))"

section \<open>Enumerations on the wire\<close>

definition wf_type :: "H2FrameType \<Rightarrow> bool" where
  "wf_type t \<longleftrightarrow> (case t of OTHER_TYPE b \<Rightarrow> 9 < b | _ \<Rightarrow> True)"

definition wf_error :: "H2Error \<Rightarrow> bool" where
  "wf_error e \<longleftrightarrow> (case e of OTHER_ERROR v \<Rightarrow> 13 < v | _ \<Rightarrow> True)"

lemma frame_type_byte [simp]: "wf_type t \<Longrightarrow> frame_type (type_byte t) = t"
  by (cases t) (auto simp: frame_type_def wf_type_def)

lemma type_byte_frame_type [simp]: "type_byte (frame_type b) = b"
  by (simp add: frame_type_def)

lemma wf_type_frame_type: "wf_type (frame_type b)"
proof (cases "9 < b")
  case True
  then show ?thesis
    by (auto simp: wf_type_def frame_type_def)
next
  case False
  then have "unat b \<in> {0, 1, 2, 3, 4, 5, 6, 7, 8, 9}"
    by (auto simp: word_le_nat_alt not_less)
  then have "b \<in> {0, 1, 2, 3, 4, 5, 6, 7, 8, 9}"
    by (auto dest: unat_eqD)
  then show ?thesis
    by (auto simp: wf_type_def frame_type_def)
qed

lemma h2_error_code [simp]: "wf_error e \<Longrightarrow> h2_error (error_code e) = e"
  by (cases e) (auto simp: h2_error_def wf_error_def)

lemma error_code_h2_error [simp]: "error_code (h2_error v) = v"
  by (simp add: h2_error_def)

section \<open>The fixed-size formats are codecs\<close>

definition wf_frame_header :: "H2FrameHeader \<Rightarrow> bool" where
  "wf_frame_header h \<longleftrightarrow>
     unat (fh_length h) < 2 ^ 24 \<and> unat (fh_stream_id h) < 2 ^ 31 \<and> wf_type (fh_type h)"

definition wf_id :: "u32 \<Rightarrow> bool" where
  "wf_id v \<longleftrightarrow> unat v < 2 ^ 31"

definition wf_goaway :: "H2GoAway \<Rightarrow> bool" where
  "wf_goaway g \<longleftrightarrow> wf_id (last_stream_id g) \<and> wf_error (ga_error_code g)"

interpretation frame_header_codec:
  wire_codec EncodeFrameHeader DecodeFrameHeader 9 wf_frame_header
proof
  fix bs :: "byte list"
  show "9 \<le> length bs \<Longrightarrow> DecodeFrameHeader bs = DecodeFrameHeader (take 9 bs)"
    by (cases bs rule: DecodeFrameHeader.cases) auto
  show "length bs < 9 \<Longrightarrow> DecodeFrameHeader bs = None"
    by (cases bs rule: DecodeFrameHeader.cases) auto
qed (auto simp: EncodeFrameHeader_def wf_frame_header_def wire_simps)

lemma DecodeFrameHeader_wf: "DecodeFrameHeader bs = Some h \<Longrightarrow> wf_frame_header h"
  by (cases bs rule: DecodeFrameHeader.cases)
    (auto simp: wf_frame_header_def be24_bound [simplified] be31_bound [simplified]
       wf_type_frame_type)

lemma EncodeFrameHeader_of_decode:
  assumes "DecodeFrameHeader bs = Some h"
  shows "EncodeFrameHeader h = take 5 bs @ (bs ! 5 AND 0x7f) # take 3 (drop 6 bs)"
  using assms
  by (cases bs rule: DecodeFrameHeader.cases) (auto simp: EncodeFrameHeader_def wire_simps)

interpretation rst_stream_codec: wire_codec EncodeRstStream DecodeRstStream 4 wf_error
proof
  fix bs :: "byte list"
  show "4 \<le> length bs \<Longrightarrow> DecodeRstStream bs = DecodeRstStream (take 4 bs)"
    by (cases bs rule: DecodeRstStream.cases) auto
  show "length bs < 4 \<Longrightarrow> DecodeRstStream bs = None"
    by (cases bs rule: DecodeRstStream.cases) auto
qed (auto simp: EncodeRstStream_def Let_def wire_simps)

interpretation push_promise_codec: wire_codec EncodePushPromise DecodePushPromise 4 wf_id
proof
  fix bs :: "byte list"
  show "4 \<le> length bs \<Longrightarrow> DecodePushPromise bs = DecodePushPromise (take 4 bs)"
    by (cases bs rule: DecodePushPromise.cases) auto
  show "length bs < 4 \<Longrightarrow> DecodePushPromise bs = None"
    by (cases bs rule: DecodePushPromise.cases) auto
qed (auto simp: EncodePushPromise_def wf_id_def wire_simps)

interpretation window_update_codec: wire_codec EncodeWindowUpdate DecodeWindowUpdate 4 wf_id
proof
  fix bs :: "byte list"
  show "4 \<le> length bs \<Longrightarrow> DecodeWindowUpdate bs = DecodeWindowUpdate (take 4 bs)"
    by (cases bs rule: DecodeWindowUpdate.cases) auto
  show "length bs < 4 \<Longrightarrow> DecodeWindowUpdate bs = None"
    by (cases bs rule: DecodeWindowUpdate.cases) auto
qed (auto simp: EncodeWindowUpdate_def wf_id_def wire_simps)

interpretation ping_codec: wire_codec EncodePing DecodePing 8 "\<lambda>p. length p = 8"
  by unfold_locales (auto simp: EncodePing_def DecodePing_def)

interpretation goaway_codec: wire_codec EncodeGoAway DecodeGoAway 8 wf_goaway
proof
  fix bs :: "byte list"
  show "8 \<le> length bs \<Longrightarrow> DecodeGoAway bs = DecodeGoAway (take 8 bs)"
    by (cases bs rule: DecodeGoAway.cases) auto
  show "length bs < 8 \<Longrightarrow> DecodeGoAway bs = None"
    by (cases bs rule: DecodeGoAway.cases) auto
qed (auto simp: EncodeGoAway_def wf_goaway_def wf_id_def Let_def wire_simps)

lemma top_byte_31:
  fixes sd :: u32
  assumes "unat sd < 2 ^ 31"
  shows "byte_of 3 sd AND 0x80 = 0"
proof -
  have "\<not> bit (byte_of 3 sd) 7"
    using bit_small [OF _ assms, of 31] by (auto simp: byte_of_bit)
  then have "byte_of 3 sd AND 2 ^ 7 = 0"
    by (simp only: and_exp_eq_0_iff_not_bit not_False_eq_True)
  then show ?thesis
    by simp
qed

lemma exclusive_bytes [wire_simps]:
  "byte_of 3 (0x80000000 :: u32) = 0x80" "byte_of 2 (0x80000000 :: u32) = 0"
  "byte_of 1 (0x80000000 :: u32) = 0" "byte_of 0 (0x80000000 :: u32) = 0"
  by (simp_all add: byte_of_def)

lemma or_80_and_7f: "(x OR 0x80) AND 0x7f = (x AND 0x7f :: byte)"
  by (simp add: bit.conj_disj_distrib2)

lemma or_80_and_80: "(x OR 0x80) AND 0x80 \<noteq> (0 :: byte)"
proof -
  have "(x OR 0x80) AND 0x80 = (0x80 :: byte)"
    by (simp add: bit.conj_disj_distrib2)
  then show ?thesis by simp
qed

lemma and_mask31:
  fixes sd :: u32
  assumes "unat sd < 2 ^ 31"
  shows "sd AND 0x7fffffff = sd"
proof -
  have "bit (take_bit 31 sd) n = bit sd n" for n
    using bit_small [OF _ assms, of n] by (auto simp: bit_take_bit_iff)
  then have "take_bit 31 sd = sd"
    by (auto intro: bit_word_eqI)
  then show ?thesis
    by (simp add: take_bit_eq_mask mask_eq_exp_minus_1)
qed

lemma priority_roundtrip:
  assumes "wf_id (pp_stream_dependency p)"
  shows "DecodePriority (EncodePriority p) = Some p"
proof -
  obtain e sd w where p: "p = \<lparr>pp_exclusive = e, pp_stream_dependency = sd, pp_weight = w\<rparr>"
    by (cases p)
  then have small: "unat sd < 2 ^ 31"
    using assms by (simp add: wf_id_def)
  show ?thesis
    using be31_bytes [OF small, unfolded One_nat_def] p
    by (simp add: EncodePriority_def byte_of_or and_mask31 [OF small] top_byte_31 [OF small]
        or_80_and_80 or_80_and_7f exclusive_bytes exclusive_bytes [unfolded One_nat_def])
qed

interpretation priority_codec:
  wire_codec EncodePriority DecodePriority 5 "\<lambda>p. wf_id (pp_stream_dependency p)"
proof
  fix bs :: "byte list"
  show "5 \<le> length bs \<Longrightarrow> DecodePriority bs = DecodePriority (take 5 bs)"
    by (cases bs rule: DecodePriority.cases) auto
  show "length bs < 5 \<Longrightarrow> DecodePriority bs = None"
    by (cases bs rule: DecodePriority.cases) auto
qed (simp_all only: priority_roundtrip, simp add: EncodePriority_def Let_def)

section \<open>SETTINGS\<close>

lemma decode_emit [simp]:
  "decode_settings_loop s (emit_setting i v @ rest) =
     decode_settings_loop (case v of None \<Rightarrow> s | Some x \<Rightarrow> apply_setting i x s) rest"
  by (cases v) (simp_all add: emit_setting_def wire_simps)

lemma length_emit: "length (emit_setting i v) = (if v = None then 0 else 6)"
  by (auto simp: emit_setting_def split: option.splits)

lemmas decode_emit_last [simp] = decode_emit [where rest = "[]", simplified]

lemma settings_roundtrip_all: "DecodeSettings (EncodeSettings s) = s"
  unfolding DecodeSettings_def EncodeSettings_def
  by (cases s) (auto simp: no_settings_def apply_setting_def split: option.splits)

section \<open>Padding\<close>

text \<open>Bytes of the payload that are not the header block: pad length, priority fields, padding.\<close>

definition block_overhead :: "H2FrameHeader \<Rightarrow> nat" where
  "block_overhead hdr =
     (if has_flag (fh_flags hdr) FLAG_PADDED then 1 else 0)
     + (if has_flag (fh_flags hdr) FLAG_PRIORITY then 5 else 0)"

definition pad_length :: "H2FrameHeader \<Rightarrow> byte list \<Rightarrow> nat" where
  "pad_length hdr payload =
     (if has_flag (fh_flags hdr) FLAG_PADDED then unat (hd payload) else 0)"

lemma unat_block_start: "unat (HeadersBlockStart hdr) = block_overhead hdr"
  by (simp add: HeadersBlockStart_def block_overhead_def)

lemma block_overhead_le: "block_overhead hdr \<le> 6"
  by (simp add: block_overhead_def)

lemma block_overhead_word:
  "(if has_flag (fh_flags hdr) FLAG_PADDED then 1 else 0)
     + 5 * (if has_flag (fh_flags hdr) FLAG_PRIORITY then 1 else 0) = (of_nat (block_overhead hdr) :: u64)"
  by (simp add: block_overhead_def)

lemma unat_overhead: "unat (of_nat (block_overhead hdr) :: u64) = block_overhead hdr"
  using block_overhead_le [of hdr] by simp

lemma HeadersBlockLength_cases:
  "HeadersBlockLength hdr payload =
     (if has_flag (fh_flags hdr) FLAG_PADDED \<and> payload = [] then None
      else let raw = ucast (fh_length hdr) - of_nat (block_overhead hdr)
           in Some (if pad_length hdr payload \<le> unat raw then raw - of_nat (pad_length hdr payload) else 0))"
proof (cases payload)
  case Nil
  then show ?thesis
    by (simp add: HeadersBlockLength_def block_overhead_def Let_def pad_length_def)
next
  case (Cons p0 ps)
  have "(ucast p0 :: u64) \<le> r \<longleftrightarrow> unat p0 \<le> unat r" for r
    by (simp add: word_le_nat_alt unat_ucast_up)
  moreover have "of_nat (unat p0) = (ucast p0 :: u64)"
    by (simp add: of_nat_unat)
  ultimately show ?thesis
    using Cons by (simp add: HeadersBlockLength_def block_overhead_def Let_def pad_length_def)
qed

lemma block_exact:
  assumes len: "HeadersBlockLength hdr payload = Some n"
    and fits: "block_overhead hdr + pad_length hdr payload \<le> unat (fh_length hdr)"
  shows "unat (HeadersBlockStart hdr) + unat n + pad_length hdr payload = unat (fh_length hdr)"
proof -
  let ?raw = "ucast (fh_length hdr) - of_nat (block_overhead hdr) :: u64"
  have raw: "unat ?raw = unat (fh_length hdr) - block_overhead hdr"
    using fits by (simp add: unat_sub_if' unat_ucast_up unat_overhead)
  have pad: "unat (of_nat (pad_length hdr payload) :: u64) = pad_length hdr payload"
    using fits unat_u32_lt [of "fh_length hdr"] by simp
  have "n = ?raw - of_nat (pad_length hdr payload)"
    using len fits raw by (simp add: HeadersBlockLength_cases Let_def split: if_splits)
  then have "unat n = unat ?raw - pad_length hdr payload"
    using raw pad fits by (simp add: unat_sub_if')
  then show ?thesis
    using raw fits by (simp add: unat_block_start)
qed

lemma block_wraps:
  assumes len: "HeadersBlockLength hdr payload = Some n"
    and short: "unat (fh_length hdr) < block_overhead hdr"
  shows "2 ^ 63 \<le> unat n"
proof -
  let ?raw = "ucast (fh_length hdr) - of_nat (block_overhead hdr) :: u64"
  have raw: "unat ?raw = 2 ^ 64 + unat (fh_length hdr) - block_overhead hdr"
    using short by (simp add: unat_sub_if' unat_ucast_up unat_overhead)
  have pad: "pad_length hdr payload < 256"
    using unat_byte_lt [of "hd payload"] by (simp add: pad_length_def)
  then have padw: "unat (of_nat (pad_length hdr payload) :: u64) = pad_length hdr payload"
    by simp
  have "n = ?raw - of_nat (pad_length hdr payload)"
    using len pad raw block_overhead_le [of hdr]
    by (simp add: HeadersBlockLength_cases Let_def split: if_splits)
  then have "unat n = unat ?raw - pad_length hdr payload"
    using raw pad padw block_overhead_le [of hdr] by (simp add: unat_sub_if')
  then show ?thesis
    using raw pad block_overhead_le [of hdr] by simp
qed

section \<open>Properties\<close>

text \<open>C1. A frame header the decoder accepts is well formed (24-bit length, 31-bit stream
  identifier, a type no enumerator of which is aliased), re-encodes to the nine bytes it was
  read from with only the reserved bit cleared, and decodes to itself again in front of any
  bytes that follow it.\<close>

theorem frame_header_canonical:
  assumes "DecodeFrameHeader bs = Some h"
  shows "wf_frame_header h
    \<and> EncodeFrameHeader h = take 5 bs @ (bs ! 5 AND 0x7f) # take 3 (drop 6 bs)
    \<and> DecodeFrameHeader (EncodeFrameHeader h @ rest) = Some h"
  using assms EncodeFrameHeader_of_decode DecodeFrameHeader_wf
    frame_header_codec.dec_enc_append by blast

theorem frame_header_canonical_witness:
  "DecodeFrameHeader (EncodeFrameHeader
     \<lparr>fh_length = 5, fh_type = OTHER_TYPE 0xfe, fh_flags = 1, fh_stream_id = 3\<rparr> @ [7]) =
   Some \<lparr>fh_length = 5, fh_type = OTHER_TYPE 0xfe, fh_flags = 1, fh_stream_id = 3\<rparr>"
  using frame_header_canonical [of "[0, 0, 5, 0xfe, 1, 0x80, 0, 0, 3]" _ "[7]"]
  by (simp add: frame_type_def be24_def be32_def)

text \<open>Encoding a SETTINGS record and decoding the payload gives the record back, whichever
  of its entries are present, and the payload is a multiple of six bytes.\<close>

theorem settings_roundtrip:
  "DecodeSettings (EncodeSettings s) = s \<and> length (EncodeSettings s) mod 6 = 0"
  using settings_roundtrip_all [of s] by (simp add: EncodeSettings_def length_emit)

text \<open>When a HEADERS frame is long enough for its pad length, priority fields and padding,
  the header block the code selects ends exactly where the padding starts: overhead, block
  and padding add up to the frame length.\<close>

theorem headers_block_exact:
  assumes "HeadersBlockLength hdr payload = Some n"
    and "block_overhead hdr + pad_length hdr payload \<le> unat (fh_length hdr)"
  shows "unat (HeadersBlockStart hdr) + unat n + pad_length hdr payload = unat (fh_length hdr)"
  using assms by (rule block_exact)

theorem headers_block_exact_witness:
  "HeadersBlockLength
     \<lparr>fh_length = 10, fh_type = HEADERS, fh_flags = 0x28, fh_stream_id = 1\<rparr> [2] = Some 2
   \<and> unat (HeadersBlockStart \<lparr>fh_length = 10, fh_type = HEADERS, fh_flags = 0x28, fh_stream_id = 1\<rparr>)
     + 2 + 2 = 10"
  using headers_block_exact
    [of "\<lparr>fh_length = 10, fh_type = HEADERS, fh_flags = 0x28, fh_stream_id = 1\<rparr>" "[2]" 2]
  by (simp add: HeadersBlockLength_def HeadersBlockStart_def block_overhead_def pad_length_def
      has_flag_def flag_defs)

text \<open>A HEADERS frame shorter than its flags require is not rejected: the subtraction wraps
  at 64 bits and the block length handed to the HPACK decoder is at least \<open>2 ^ 63\<close>, for a
  payload of at most five bytes.\<close>

theorem headers_block_wraps:
  assumes "HeadersBlockLength hdr payload = Some n"
    and "unat (fh_length hdr) < block_overhead hdr"
  shows "2 ^ 63 \<le> unat n"
  using assms by (rule block_wraps)

theorem headers_block_wraps_witness:
  "HeadersBlockLength
     \<lparr>fh_length = 0, fh_type = HEADERS, fh_flags = 0x20, fh_stream_id = 1\<rparr> [] = Some (- 5)
   \<and> 2 ^ 63 \<le> unat (- 5 :: u64)"
  using headers_block_wraps
    [of "\<lparr>fh_length = 0, fh_type = HEADERS, fh_flags = 0x20, fh_stream_id = 1\<rparr>" "[]" "- 5"]
  by (simp add: HeadersBlockLength_def block_overhead_def has_flag_def flag_defs)

end
