(* ===== verification/Stream_Manager.thy ===== *)
theory Stream_Manager
  imports Web_Prelude
begin

text \<open>
  The HTTP/2 stream table and the queue of complete requests
  (\<^verbatim>\<open>http/http2/parser/stream_manager.hpp\<close> and \<^verbatim>\<open>.cpp\<close>). Stream identifiers are
  \<^verbatim>\<open>int32_t\<close> values that are only compared and tested for parity, so they are integers here;
  the counters keep their 32 bits. The hash map of states is a partial function.

  The queue half is an interpretation of the interface \<open>pending_queue\<close>, under which draining
  is proved to return the requests in the order they became complete.
\<close>

section \<open>Interface of a sequential work queue\<close>

locale pending_queue =
  fixes queue :: "'s \<Rightarrow> 'a list"
    and enqueue :: "'a \<Rightarrow> 's \<Rightarrow> 's"
    and dequeue :: "'s \<Rightarrow> 'a \<times> 's"
    and nothing :: 'a
  assumes queue_enqueue: "queue (enqueue x s) = queue s @ [x]"
    and dequeue_empty: "queue s = [] \<Longrightarrow> dequeue s = (nothing, s)"
    and dequeue_front: "queue s = x # xs \<Longrightarrow> fst (dequeue s) = x \<and> queue (snd (dequeue s)) = xs"
begin

primrec enqueue_all :: "'a list \<Rightarrow> 's \<Rightarrow> 's" where
  "enqueue_all [] s = s"
| "enqueue_all (x # xs) s = enqueue_all xs (enqueue x s)"

primrec take_out :: "nat \<Rightarrow> 's \<Rightarrow> 'a list \<times> 's" where
  "take_out 0 s = ([], s)"
| "take_out (Suc n) s = (let (x, s') = dequeue s; (ys, s'') = take_out n s' in (x # ys, s''))"

lemma queue_enqueue_all: "queue (enqueue_all xs s) = queue s @ xs"
  by (induction xs arbitrary: s) (simp_all add: queue_enqueue)

lemma take_out_front:
  "n \<le> length (queue s) \<Longrightarrow>
     fst (take_out n s) = take n (queue s) \<and> queue (snd (take_out n s)) = drop n (queue s)"
proof (induction n arbitrary: s)
  case 0
  then show ?case by simp
next
  case (Suc n)
  then obtain x xs where q: "queue s = x # xs"
    by (cases "queue s") auto
  obtain y s' where d: "dequeue s = (y, s')"
    by (cases "dequeue s")
  with dequeue_front [OF q] have "y = x" and s': "queue s' = xs"
    by auto
  moreover have "n \<le> length (queue s')"
    using Suc.prems q s' by simp
  ultimately show ?case
    using Suc.IH [of s'] q d by (auto simp: split_beta)
qed

lemma drain_in_order:
  "queue s = [] \<Longrightarrow> fst (take_out (length xs) (enqueue_all xs s)) = xs"
  using take_out_front [of "length xs" "enqueue_all xs s"] by (simp add: queue_enqueue_all)

end

section \<open>State and operations\<close>

datatype H2StreamState = Idle | Open | HalfClosedRemote | HalfClosedLocal | Closed

record H2StreamManager =
  sm_states :: "int \<rightharpoonup> H2StreamState"
  sm_pending :: "int list"
  sm_max_concurrent :: u32
  sm_active_count :: u32
  sm_last_client_stream_id :: int

definition new_stream_manager :: H2StreamManager where
  "new_stream_manager = \<lparr> sm_states = Map.empty, sm_pending = [], sm_max_concurrent = 100,
     sm_active_count = 0, sm_last_client_stream_id = 0 \<rparr>"

definition OnStreamOpen :: "int \<Rightarrow> H2StreamManager \<Rightarrow> bool \<times> H2StreamManager" where
  "OnStreamOpen sid m =
     (if even sid then (False, m)
      else if sid \<le> sm_last_client_stream_id m then (False, m)
      else if sm_max_concurrent m \<le> sm_active_count m then (False, m)
      else (True, m\<lparr> sm_last_client_stream_id := sid,
                     sm_states := (sm_states m)(sid \<mapsto> Open),
                     sm_active_count := sm_active_count m + 1 \<rparr>))"

definition OnStreamEndStream :: "int \<Rightarrow> H2StreamManager \<Rightarrow> H2StreamManager" where
  "OnStreamEndStream sid m =
     (case sm_states m sid of None \<Rightarrow> m
      | Some st \<Rightarrow>
          if st = Open then m\<lparr> sm_states := (sm_states m)(sid \<mapsto> HalfClosedRemote) \<rparr> else m)"

definition OnStreamClose :: "int \<Rightarrow> H2StreamManager \<Rightarrow> H2StreamManager" where
  "OnStreamClose sid m =
     (case sm_states m sid of None \<Rightarrow> m
      | Some st \<Rightarrow>
          if st \<noteq> Closed
          then (let m' = m\<lparr> sm_states := (sm_states m)(sid \<mapsto> Closed) \<rparr>
                in if 0 < sm_active_count m' then m'\<lparr> sm_active_count := sm_active_count m' - 1 \<rparr> else m')
          else m)"

definition RemoveStream :: "int \<Rightarrow> H2StreamManager \<Rightarrow> H2StreamManager" where
  "RemoveStream sid m =
     (case sm_states m sid of None \<Rightarrow> m
      | Some st \<Rightarrow>
          let m' = (if st \<noteq> Closed then OnStreamClose sid m else m)
          in m'\<lparr> sm_states := (sm_states m')(sid := None) \<rparr>)"

definition GetState :: "H2StreamManager \<Rightarrow> int \<Rightarrow> H2StreamState" where
  "GetState m sid = (case sm_states m sid of None \<Rightarrow> Idle | Some st \<Rightarrow> st)"

definition IsActive :: "H2StreamManager \<Rightarrow> int \<Rightarrow> bool" where
  "IsActive m sid =
     (case sm_states m sid of None \<Rightarrow> False
      | Some st \<Rightarrow> st = Open \<or> st = HalfClosedRemote \<or> st = HalfClosedLocal)"

definition Enqueue :: "int \<Rightarrow> H2StreamManager \<Rightarrow> H2StreamManager" where
  "Enqueue sid m = m\<lparr> sm_pending := sm_pending m @ [sid] \<rparr>"

definition Dequeue :: "H2StreamManager \<Rightarrow> int \<times> H2StreamManager" where
  "Dequeue m =
     (case sm_pending m of [] \<Rightarrow> (0, m) | sid # rest \<Rightarrow> (sid, m\<lparr> sm_pending := rest \<rparr>))"

definition PendingCount :: "H2StreamManager \<Rightarrow> nat" where
  "PendingCount m = length (sm_pending m)"

definition HasPending :: "H2StreamManager \<Rightarrow> bool" where
  "HasPending m \<longleftrightarrow> sm_pending m \<noteq> []"

definition SetMaxConcurrent :: "u32 \<Rightarrow> H2StreamManager \<Rightarrow> H2StreamManager" where
  "SetMaxConcurrent n m = m\<lparr> sm_max_concurrent := n \<rparr>"

definition CanCreateStream :: "H2StreamManager \<Rightarrow> bool" where
  "CanCreateStream m \<longleftrightarrow> sm_active_count m < sm_max_concurrent m"

definition GcClosed :: "H2StreamManager \<Rightarrow> H2StreamManager" where
  "GcClosed m =
     m\<lparr> sm_states := (\<lambda>sid. if sm_states m sid = Some Closed then None else sm_states m sid) \<rparr>"

lemmas stream_ops_defs =
  OnStreamOpen_def OnStreamEndStream_def OnStreamClose_def RemoveStream_def Enqueue_def
  Dequeue_def SetMaxConcurrent_def GcClosed_def

interpretation stream_queue: pending_queue sm_pending Enqueue Dequeue 0
  by unfold_locales (auto simp: Enqueue_def Dequeue_def)

section \<open>Invariant\<close>

definition live :: "(int \<rightharpoonup> H2StreamState) \<Rightarrow> int set" where
  "live sts = {sid. \<exists>st. sts sid = Some st \<and> st \<noteq> Closed}"

definition sm_inv :: "H2StreamManager \<Rightarrow> bool" where
  "sm_inv m \<longleftrightarrow>
     finite (dom (sm_states m))
     \<and> unat (sm_active_count m) = card (live (sm_states m))
     \<and> (\<forall>sid \<in> dom (sm_states m). odd sid \<and> sid \<le> sm_last_client_stream_id m)
     \<and> 0 \<le> sm_last_client_stream_id m"

lemma live_subset: "live sts \<subseteq> dom sts"
  by (auto simp: live_def)

lemma live_update:
  "live (sts(sid \<mapsto> st)) = (if st = Closed then live sts - {sid} else insert sid (live sts))"
  by (auto simp: live_def)

lemma live_remove: "live (sts(sid := None)) = live sts - {sid}"
  by (auto simp: live_def)

lemma in_live: "sts sid = Some st \<Longrightarrow> sid \<in> live sts \<longleftrightarrow> st \<noteq> Closed"
  by (auto simp: live_def)

lemma sm_inv_new: "sm_inv new_stream_manager"
  by (simp add: sm_inv_def new_stream_manager_def live_def)

lemma finite_live: "sm_inv m \<Longrightarrow> finite (live (sm_states m))"
  using live_subset finite_subset by (fastforce simp: sm_inv_def)

lemma OnStreamOpen_inv: "sm_inv m \<Longrightarrow> sm_inv (snd (OnStreamOpen sid m))"
proof -
  assume inv: "sm_inv m"
  show ?thesis
  proof (cases "fst (OnStreamOpen sid m)")
    case False
    then show ?thesis
      using inv by (auto simp: OnStreamOpen_def split: if_splits)
  next
    case True
    then have new: "sid \<notin> dom (sm_states m)" and "sm_last_client_stream_id m < sid" "odd sid"
      and below: "sm_active_count m < sm_max_concurrent m"
      using inv by (auto simp: OnStreamOpen_def sm_inv_def split: if_splits)
    have "k \<le> sm_last_client_stream_id m" if "sm_states m k = Some st" for k st
      using inv that unfolding sm_inv_def by blast
    then have "k \<le> sid" if "sm_states m k = Some st" for k st
      using \<open>sm_last_client_stream_id m < sid\<close> that by fastforce
    then show ?thesis
      using inv True new finite_live [OF inv] unat_suc_below [OF below] live_subset [of "sm_states m"]
      by (auto simp: OnStreamOpen_def sm_inv_def live_update card_insert_if subset_iff
          split: if_splits)
  qed
qed

lemma OnStreamOpen_invD: "OnStreamOpen sid m = (ok, m') \<Longrightarrow> sm_inv m \<Longrightarrow> sm_inv m'"
  using OnStreamOpen_inv [of m sid] by simp

lemma OnStreamEndStream_inv: "sm_inv m \<Longrightarrow> sm_inv (OnStreamEndStream sid m)"
  by (auto simp: OnStreamEndStream_def sm_inv_def live_update insert_absorb in_live
      split: option.splits)

lemma active_pos:
  assumes "sm_inv m" and "sm_states m sid = Some st" and "st \<noteq> Closed"
  shows "0 < sm_active_count m"
proof -
  have "0 < card (live (sm_states m))"
    using assms finite_live [OF assms(1)] in_live [of "sm_states m" sid st]
    by (auto simp: card_gt_0_iff)
  then show ?thesis
    using assms(1) by (auto simp: sm_inv_def word_less_nat_alt)
qed

lemma OnStreamClose_inv: "sm_inv m \<Longrightarrow> sm_inv (OnStreamClose sid m)"
proof -
  assume inv: "sm_inv m"
  show ?thesis
  proof (cases "sid \<in> live (sm_states m)")
    case False
    then show ?thesis
      using inv by (auto simp: OnStreamClose_def in_live split: option.splits)
  next
    case True
    then obtain st where st: "sm_states m sid = Some st" "st \<noteq> Closed"
      by (auto simp: live_def)
    then have pos: "0 < sm_active_count m"
      using active_pos inv by blast
    have "unat (sm_active_count m - 1) = card (live (sm_states m) - {sid})"
      using inv True pos finite_live [OF inv]
      by (simp add: sm_inv_def unat_pred word_less_nat_alt)
    then show ?thesis
      using inv st pos by (auto simp: OnStreamClose_def sm_inv_def live_update)
  qed
qed


lemma RemoveStream_inv: "sm_inv m \<Longrightarrow> sm_inv (RemoveStream sid m)"
proof (cases "sm_states m sid")
  case (Some st)
  assume inv: "sm_inv m"
  let ?m = "if st \<noteq> Closed then OnStreamClose sid m else m"
  have "sm_inv ?m" and "sm_states ?m sid = Some Closed"
    using inv Some OnStreamClose_inv [of m sid]
    by simp (auto simp: Some OnStreamClose_def Let_def)
  then have "sid \<notin> live (sm_states ?m)" "sm_inv ?m"
    by (simp_all add: in_live)
  then show ?thesis
    using Some by (auto simp: RemoveStream_def Let_def sm_inv_def live_remove)
qed (simp add: RemoveStream_def)

lemma GcClosed_inv: "sm_inv m \<Longrightarrow> sm_inv (GcClosed m)"
proof -
  assume inv: "sm_inv m"
  have "dom (sm_states (GcClosed m)) \<subseteq> dom (sm_states m)"
    and "live (sm_states (GcClosed m)) = live (sm_states m)"
    by (auto simp: GcClosed_def live_def split: if_splits)
  with inv show ?thesis
    by (auto simp: sm_inv_def GcClosed_def intro: finite_subset)
qed

lemma queue_ops_inv:
  "sm_inv m \<Longrightarrow> sm_inv (Enqueue sid m)"
  "sm_inv m \<Longrightarrow> sm_inv (snd (Dequeue m))"
  "sm_inv m \<Longrightarrow> sm_inv (SetMaxConcurrent n m)"
  by (auto simp: sm_inv_def Enqueue_def Dequeue_def SetMaxConcurrent_def split: list.splits)

lemmas sm_inv_ops [intro] =
  sm_inv_new OnStreamOpen_inv OnStreamEndStream_inv OnStreamClose_inv RemoveStream_inv
  GcClosed_inv queue_ops_inv

section \<open>The stream state machine\<close>

text \<open>
  One step of the table: any operation the session calls, with any arguments. \<open>sm_reach\<close>
  records the identifiers that were opened, newest first.
\<close>

inductive sm_step :: "H2StreamManager \<Rightarrow> H2StreamManager \<Rightarrow> bool" where
  end_stream: "sm_step m (OnStreamEndStream sid m)"
| close: "sm_step m (OnStreamClose sid m)"
| remove: "sm_step m (RemoveStream sid m)"
| gc: "sm_step m (GcClosed m)"
| enqueue: "sm_step m (Enqueue sid m)"
| dequeue: "sm_step m (snd (Dequeue m))"
| set_max: "sm_step m (SetMaxConcurrent n m)"
| refuse: "OnStreamOpen sid m = (False, m') \<Longrightarrow> sm_step m m'"

inductive sm_reach :: "int list \<Rightarrow> H2StreamManager \<Rightarrow> bool" where
  start: "sm_reach [] new_stream_manager"
| step: "sm_reach opened m \<Longrightarrow> sm_step m m' \<Longrightarrow> sm_reach opened m'"
| opened: "sm_reach opened m \<Longrightarrow> OnStreamOpen sid m = (True, m') \<Longrightarrow> sm_reach (sid # opened) m'"

lemma sm_step_inv: "sm_step m m' \<Longrightarrow> sm_inv m \<Longrightarrow> sm_inv m'"
  by (induction rule: sm_step.induct) (auto dest: OnStreamOpen_invD)

lemma sm_step_last: "sm_step m m' \<Longrightarrow> sm_last_client_stream_id m' = sm_last_client_stream_id m"
  by (induction rule: sm_step.induct)
    (auto simp: stream_ops_defs Let_def split: option.splits list.splits if_splits)

lemma sm_step_dom: "sm_step m m' \<Longrightarrow> dom (sm_states m') \<subseteq> dom (sm_states m)"
  by (induction rule: sm_step.induct)
    (auto simp: stream_ops_defs Let_def split: option.splits list.splits if_splits)

lemma sm_reach_inv: "sm_reach opened m \<Longrightarrow> sm_inv m"
  by (induction rule: sm_reach.induct) (auto dest: sm_step_inv OnStreamOpen_invD)

lemma sm_reach_opened:
  "sm_reach opened m \<Longrightarrow>
     sorted_wrt (>) opened \<and> list_all odd opened
     \<and> (\<forall>sid \<in> set opened. 0 < sid \<and> sid \<le> sm_last_client_stream_id m)
     \<and> 0 \<le> sm_last_client_stream_id m \<and> dom (sm_states m) \<subseteq> set opened"
proof (induction rule: sm_reach.induct)
  case start
  then show ?case by (simp add: new_stream_manager_def)
next
  case (step opened m m')
  then show ?case
    using sm_step_last [OF step.hyps(2)] sm_step_dom [OF step.hyps(2)] by auto
next
  case (opened opened m sid m')
  then have "sm_last_client_stream_id m < sid" "odd sid"
    "m' = m\<lparr>sm_last_client_stream_id := sid, sm_states := (sm_states m)(sid \<mapsto> Open),
           sm_active_count := sm_active_count m + 1\<rparr>"
    by (auto simp: OnStreamOpen_def split: if_splits)
  then show ?case
    using opened.IH by fastforce
qed

lemma sm_reach_no_idle: "sm_reach opened m \<Longrightarrow> Idle \<notin> ran (sm_states m)"
proof (induction rule: sm_reach.induct)
  case (step opened m m')
  have "sm_step m m' \<Longrightarrow> Idle \<notin> ran (sm_states m) \<Longrightarrow> Idle \<notin> ran (sm_states m')"
    by (induction rule: sm_step.induct)
      (auto simp: stream_ops_defs Let_def ran_def split: option.splits list.splits if_splits)
  with step show ?case by blast
qed (auto simp: new_stream_manager_def OnStreamOpen_def ran_def split: if_splits)

text \<open>Progress of one stream: open, then half closed by the peer, then closed.\<close>

fun phase :: "H2StreamState \<Rightarrow> nat" where
  "phase Idle = 0" | "phase Open = 1" | "phase HalfClosedRemote = 2"
| "phase HalfClosedLocal = 2" | "phase Closed = 3"

lemma sm_step_phase:
  "sm_step m m' \<Longrightarrow> sm_states m sid = Some st \<Longrightarrow> sm_states m' sid = Some st' \<Longrightarrow>
     phase st \<le> phase st'"
  by (induction rule: sm_step.induct)
    (auto simp: stream_ops_defs Let_def split: option.splits list.splits if_splits;
     cases st; simp)+

lemma IsActive_live: "IsActive m sid \<longleftrightarrow> GetState m sid \<notin> {Idle, Closed}"
  unfolding IsActive_def GetState_def
  by (cases "sm_states m sid") (auto, (metis H2StreamState.exhaust)+)

section \<open>Properties\<close>

text \<open>C2. In every state the session can bring the stream table to, the active counter equals
  the number of streams that are not closed, every stream in the table was opened by the
  client with an odd identifier, and the identifiers were opened in strictly increasing
  order, so that no identifier is ever used twice.\<close>

theorem stream_table_consistent:
  assumes "sm_reach opened m"
  shows "unat (sm_active_count m) = card {sid. IsActive m sid}
    \<and> dom (sm_states m) \<subseteq> set opened \<and> list_all odd opened
    \<and> sorted_wrt (>) opened \<and> distinct opened"
proof -
  have "{sid. IsActive m sid} = live (sm_states m)" if "Idle \<notin> ran (sm_states m)"
    using that by (auto simp: IsActive_live GetState_def live_def ran_def split: option.splits)
  moreover have "Idle \<notin> ran (sm_states m)"
    using assms by (rule sm_reach_no_idle)
  moreover have "distinct opened" if "sorted_wrt (>) opened"
    using that by (induction opened) auto
  ultimately show ?thesis
    using sm_reach_inv [OF assms] sm_reach_opened [OF assms] by (simp add: sm_inv_def)
qed

theorem stream_table_consistent_witness:
  "1 = card {sid. IsActive (new_stream_manager\<lparr>sm_last_client_stream_id := 1,
     sm_states := [1 \<mapsto> Open], sm_active_count := 1\<rparr>) sid}"
proof -
  let ?m = "new_stream_manager\<lparr>sm_last_client_stream_id := 1, sm_states := [1 \<mapsto> Open],
    sm_active_count := 1\<rparr>"
  have "OnStreamOpen 1 new_stream_manager = (True, ?m)"
    by (simp add: OnStreamOpen_def new_stream_manager_def)
  from stream_table_consistent [OF sm_reach.opened [OF sm_reach.start this]] show ?thesis
    by simp
qed

text \<open>A stream is opened exactly when its identifier is odd, larger than every identifier
  seen before, and a concurrency slot is free; it is then open, and a refused open changes
  nothing.\<close>

theorem stream_open_iff:
  "(fst (OnStreamOpen sid m) \<longleftrightarrow>
      odd sid \<and> sm_last_client_stream_id m < sid \<and> CanCreateStream m)
   \<and> GetState (snd (OnStreamOpen sid m)) k =
       (if k = sid \<and> fst (OnStreamOpen sid m) then Open else GetState m k)"
  by (auto simp: OnStreamOpen_def GetState_def CanCreateStream_def)

text \<open>Requests leave the pending queue in the order in which they were completed.\<close>

theorem requests_processed_in_order:
  assumes "sm_pending m = []"
  shows "fst (stream_queue.take_out (length sids) (stream_queue.enqueue_all sids m)) = sids"
  using assms by (rule stream_queue.drain_in_order)

theorem requests_processed_in_order_witness:
  "fst (stream_queue.take_out (length [1, 5, 3 :: int])
     (stream_queue.enqueue_all [1, 5, 3] new_stream_manager)) = [1, 5, 3]"
  by (rule requests_processed_in_order) (simp add: new_stream_manager_def)

end
