(* ===== verification/Flow_Control.thy ===== *)
theory Flow_Control
  imports Web_Prelude
begin

text \<open>
  HTTP/2 receive windows (\<^verbatim>\<open>http/http2/parser/flow_control.hpp\<close> and \<^verbatim>\<open>.cpp\<close>). Credits are
  \<^verbatim>\<open>int32_t\<close> and counters \<^verbatim>\<open>uint32_t\<close>; both are 32-bit words here, so the wrap-around of
  the unsigned counters and the two's-complement reading of the credits (\<open>sint\<close>) are the
  machine's. Signed overflow of a credit is undefined in C++; the theorems that need it state
  the bounds under which it does not occur.
\<close>

section \<open>State and operations\<close>

record WindowState =
  credit :: u32
  consumed :: u32

record H2FlowControl =
  initial_window_size_c :: u32
  conn_w :: WindowState
  streams_w :: "u32 \<rightharpoonup> WindowState"

definition new_flow_control :: "u32 \<Rightarrow> H2FlowControl" where
  "new_flow_control initial =
     \<lparr> initial_window_size_c = initial, conn_w = \<lparr> credit = initial, consumed = 0 \<rparr>,
       streams_w = Map.empty \<rparr>"

definition add_credit :: "u32 \<Rightarrow> WindowState \<Rightarrow> WindowState" where
  "add_credit d ws = ws\<lparr> credit := credit ws + d \<rparr>"

definition SetInitialWindow :: "u32 \<Rightarrow> H2FlowControl \<Rightarrow> H2FlowControl" where
  "SetInitialWindow sz fc =
     (let delta = sz - initial_window_size_c fc
      in fc\<lparr> initial_window_size_c := sz,
             conn_w := add_credit delta (conn_w fc),
             streams_w := (\<lambda>sid. map_option (add_credit delta) (streams_w fc sid)) \<rparr>)"

definition SetPeerInitialWindow :: "u32 \<Rightarrow> H2FlowControl \<Rightarrow> H2FlowControl" where
  "SetPeerInitialWindow sz fc = SetInitialWindow sz fc"

text \<open>
  \<open>GetOrCreate\<close> returns a reference into the table: the model returns the window and the
  table that now holds it, and \<open>put_window\<close> is the assignment through the reference.
\<close>

definition GetOrCreate :: "u32 \<Rightarrow> H2FlowControl \<Rightarrow> WindowState \<times> H2FlowControl" where
  "GetOrCreate sid fc =
     (if sid = 0 then (conn_w fc, fc)
      else case streams_w fc sid of
             Some ws \<Rightarrow> (ws, fc)
           | None \<Rightarrow>
               let ws = \<lparr> credit = initial_window_size_c fc, consumed = 0 \<rparr>
               in (ws, fc\<lparr> streams_w := (streams_w fc)(sid \<mapsto> ws) \<rparr>))"

definition put_window :: "u32 \<Rightarrow> WindowState \<Rightarrow> H2FlowControl \<Rightarrow> H2FlowControl" where
  "put_window sid ws fc =
     (if sid = 0 then fc\<lparr> conn_w := ws \<rparr> else fc\<lparr> streams_w := (streams_w fc)(sid \<mapsto> ws) \<rparr>)"

definition ConsumeBytes :: "u32 \<Rightarrow> u32 \<Rightarrow> H2FlowControl \<Rightarrow> H2FlowControl" where
  "ConsumeBytes sid n fc =
     (let (ws, fc) = GetOrCreate sid fc;
          fc = put_window sid \<lparr> credit = credit ws - n, consumed = consumed ws + n \<rparr> fc
      in if sid \<noteq> 0
         then fc\<lparr> conn_w := \<lparr> credit = credit (conn_w fc) - n, consumed = consumed (conn_w fc) + n \<rparr> \<rparr>
         else fc)"

definition ShouldUpdate :: "H2FlowControl \<Rightarrow> u32 \<Rightarrow> bool" where
  "ShouldUpdate fc sid =
     (if sid = 0 then initial_window_size_c fc div 2 \<le> consumed (conn_w fc)
      else case streams_w fc sid of None \<Rightarrow> False
           | Some ws \<Rightarrow> initial_window_size_c fc div 2 \<le> consumed ws)"

definition PopCredit :: "u32 \<Rightarrow> H2FlowControl \<Rightarrow> u32 \<times> H2FlowControl" where
  "PopCredit sid fc =
     (let (ws, fc) = GetOrCreate sid fc; c = consumed ws
      in (c, put_window sid \<lparr> credit = credit ws + c, consumed = 0 \<rparr> fc))"

definition positive_credit :: "WindowState \<Rightarrow> u32" where
  "positive_credit ws = (if 0 < sint (credit ws) then credit ws else 0)"

definition Available :: "H2FlowControl \<Rightarrow> u32 \<Rightarrow> u32" where
  "Available fc sid =
     (if sid = 0 then positive_credit (conn_w fc)
      else case streams_w fc sid of None \<Rightarrow> initial_window_size_c fc
           | Some ws \<Rightarrow> min (positive_credit ws) (positive_credit (conn_w fc)))"

section \<open>Conservation of credit\<close>

text \<open>
  The window a stream would have if every consumed byte were given back. For streams it is
  always the current initial window, whatever sequence of operations ran; for the connection it
  moves with SETTINGS although the protocol keeps it fixed.
\<close>

definition full_window :: "WindowState \<Rightarrow> u32" where
  "full_window ws = credit ws + consumed ws"

definition fc_inv :: "H2FlowControl \<Rightarrow> bool" where
  "fc_inv fc \<longleftrightarrow>
     (\<forall>ws \<in> insert (conn_w fc) (ran (streams_w fc)). full_window ws = initial_window_size_c fc)
     \<and> streams_w fc 0 = None"

lemma fc_inv_new: "fc_inv (new_flow_control n)"
  by (simp add: fc_inv_def new_flow_control_def full_window_def)

lemma fc_inv_stream: "fc_inv fc \<Longrightarrow> streams_w fc sid = Some ws \<Longrightarrow> full_window ws = initial_window_size_c fc"
  by (auto simp: fc_inv_def ran_def)

lemma fc_inv_SetInitialWindow: "fc_inv fc \<Longrightarrow> fc_inv (SetInitialWindow sz fc)"
  by (auto simp: fc_inv_def SetInitialWindow_def Let_def full_window_def add_credit_def ran_def
      algebra_simps)

lemma GetOrCreate_inv:
  "fc_inv fc \<Longrightarrow> GetOrCreate sid fc = (ws, fc') \<Longrightarrow>
     fc_inv fc' \<and> full_window ws = initial_window_size_c fc'
     \<and> initial_window_size_c fc' = initial_window_size_c fc \<and> conn_w fc' = conn_w fc"
  by (fastforce simp: fc_inv_def GetOrCreate_def Let_def full_window_def ran_def
      split: if_splits option.splits)

lemma put_window_inv:
  "fc_inv fc \<Longrightarrow> full_window ws = initial_window_size_c fc \<Longrightarrow> fc_inv (put_window sid ws fc)"
  by (auto simp: fc_inv_def put_window_def ran_def)

lemma put_window_fields [simp]:
  "initial_window_size_c (put_window sid ws fc) = initial_window_size_c fc"
  "sid \<noteq> 0 \<Longrightarrow> conn_w (put_window sid ws fc) = conn_w fc"
  by (simp_all add: put_window_def)

lemma fc_inv_conn: "fc_inv fc \<Longrightarrow> full_window ws = initial_window_size_c fc \<Longrightarrow> fc_inv (fc\<lparr> conn_w := ws \<rparr>)"
  by (simp add: fc_inv_def)

lemma fc_inv_conn_window: "fc_inv fc \<Longrightarrow> full_window (conn_w fc) = initial_window_size_c fc"
  by (simp add: fc_inv_def)

lemma fc_inv_ConsumeBytes: "fc_inv fc \<Longrightarrow> fc_inv (ConsumeBytes sid n fc)"
proof -
  assume inv: "fc_inv fc"
  obtain ws fc1 where g: "GetOrCreate sid fc = (ws, fc1)"
    by (cases "GetOrCreate sid fc")
  note fc1 = GetOrCreate_inv [OF inv g]
  let ?fc2 = "put_window sid \<lparr> credit = credit ws - n, consumed = consumed ws + n \<rparr> fc1"
  have fc2: "fc_inv ?fc2"
    using fc1 by (intro put_window_inv) (auto simp: full_window_def)
  then have "full_window (conn_w ?fc2) = initial_window_size_c ?fc2"
    by (rule fc_inv_conn_window)
  then show ?thesis
    using fc2 g by (auto simp: ConsumeBytes_def Let_def full_window_def intro!: fc_inv_conn)
qed

lemma fc_inv_PopCredit: "fc_inv fc \<Longrightarrow> fc_inv (snd (PopCredit sid fc))"
  using GetOrCreate_inv [of fc sid]
  by (cases "GetOrCreate sid fc") (auto simp: PopCredit_def full_window_def intro!: put_window_inv)


section \<open>Histories\<close>

datatype fc_op = Consume u32 u32 | Pop u32 | SetInitial u32

fun run_fc :: "fc_op list \<Rightarrow> H2FlowControl \<Rightarrow> H2FlowControl" where
  "run_fc [] fc = fc"
| "run_fc (Consume sid n # ops) fc = run_fc ops (ConsumeBytes sid n fc)"
| "run_fc (Pop sid # ops) fc = run_fc ops (snd (PopCredit sid fc))"
| "run_fc (SetInitial sz # ops) fc = run_fc ops (SetInitialWindow sz fc)"

lemma run_fc_inv: "fc_inv fc \<Longrightarrow> fc_inv (run_fc ops fc)"
  by (induction ops fc rule: run_fc.induct)
    (simp_all add: fc_inv_ConsumeBytes fc_inv_PopCredit fc_inv_SetInitialWindow)

text \<open>The window of an entity as the code sees it, created on first use.\<close>

definition window_of :: "H2FlowControl \<Rightarrow> u32 \<Rightarrow> WindowState" where
  "window_of fc sid = fst (GetOrCreate sid fc)"

lemma window_of_inv: "fc_inv fc \<Longrightarrow> full_window (window_of fc sid) = initial_window_size_c fc"
  using GetOrCreate_inv [of fc sid] by (cases "GetOrCreate sid fc") (auto simp: window_of_def)

lemma window_of_simps:
  "window_of fc 0 = conn_w fc"
  "sid \<noteq> 0 \<Longrightarrow> window_of fc sid =
     (case streams_w fc sid of None \<Rightarrow> \<lparr>credit = initial_window_size_c fc, consumed = 0\<rparr> | Some ws \<Rightarrow> ws)"
  by (auto simp: window_of_def GetOrCreate_def Let_def split: option.splits)

lemma window_of_ConsumeBytes:
  "window_of (ConsumeBytes sid n fc) k =
     (if k = sid \<or> k = 0
      then \<lparr>credit = credit (window_of fc k) - n, consumed = consumed (window_of fc k) + n\<rparr>
      else window_of fc k)"
  by (auto simp: window_of_def ConsumeBytes_def GetOrCreate_def put_window_def Let_def
      split: option.splits prod.splits)

lemma window_of_PopCredit:
  "window_of (snd (PopCredit sid fc)) k =
     (if k = sid then \<lparr>credit = full_window (window_of fc k), consumed = 0\<rparr> else window_of fc k)"
  "fst (PopCredit sid fc) = consumed (window_of fc sid)"
  by (auto simp: window_of_def PopCredit_def GetOrCreate_def put_window_def Let_def full_window_def
      split: option.splits prod.splits)

lemma ShouldUpdate_window:
  "\<not> ShouldUpdate fc sid \<Longrightarrow>
     (if sid = 0 \<or> streams_w fc sid \<noteq> None
      then consumed (window_of fc sid) < initial_window_size_c fc div 2 else True)"
  by (auto simp: ShouldUpdate_def window_of_simps split: if_splits option.splits)

section \<open>Properties\<close>


text \<open>Sending a WINDOW_UPDATE returns every byte consumed since the last one: the increment
  is the consumed count, afterwards the window is the full initial window again, and no other
  window changes.\<close>

theorem window_update_restores:
  assumes "fc = run_fc ops (new_flow_control n)"
  shows "fst (PopCredit sid fc) = consumed (window_of fc sid)
    \<and> window_of (snd (PopCredit sid fc)) sid =
        \<lparr>credit = initial_window_size_c fc, consumed = 0\<rparr>
    \<and> (\<forall>k. k \<noteq> sid \<longrightarrow> window_of (snd (PopCredit sid fc)) k = window_of fc k)"
  using assms window_of_inv [OF run_fc_inv [OF fc_inv_new]] by (simp add: window_of_PopCredit)

theorem window_update_restores_witness:
  "fst (PopCredit 1 (ConsumeBytes 1 7 (ConsumeBytes 1 5 (new_flow_control 100)))) = 12"
  using window_update_restores
    [of "ConsumeBytes 1 7 (ConsumeBytes 1 5 (new_flow_control 100))" "[Consume 1 5, Consume 1 7]" 100 1]
  by (simp add: window_of_ConsumeBytes) (simp add: window_of_simps new_flow_control_def)




end
