(* ===== verification/H2_Session.thy ===== *)
theory H2_Session
  imports Frame_Layer Stream_Manager Flow_Control Hpack
begin

unbundle bit_operations_syntax

text \<open>
  The HTTP/2 session (\<^verbatim>\<open>http/http2/session.hpp\<close> and \<^verbatim>\<open>.cpp\<close>): the read loop's framing, one
  handler per frame type, the frames it writes and the processing of completed requests. A
  handler's payload is what can be read from the payload pointer up to the end of the read
  buffer, so reading past the frame is visible and reading past the buffer is \<open>None\<close>; a
  header or data block that would extend beyond the buffer is \<open>None\<close> as well.

  The socket is the list of outcomes of the coming writes and the bytes written so far. What
  middleware, router and handlers make of a request is the parameter \<open>serve\<close>.
\<close>

section \<open>State\<close>

record H2Session =
  hs_decoder :: HpackDecoder
  hs_mgr :: H2StreamManager
  hs_fc :: H2FlowControl
  hs_region :: region_state
  hs_streams :: "int \<rightharpoonup> H2StreamContext"
  hs_buf :: "byte list"
  hs_used :: nat
  hs_output :: "byte list"
  hs_writing :: bool
  hs_sent :: "byte list"
  hs_io :: "bool list"
  hs_local :: H2Settings
  hs_peer_max_concurrent :: u32
  hs_peer_initial_window :: u32
  hs_peer_max_frame :: u32
  hs_goaway_received :: bool
  hs_goaway_sent :: bool
  hs_cont_sid :: int
  hs_cont_block :: "byte list"
  hs_max_body :: nat

definition kReadBufSize :: nat where "kReadBufSize = 65536"

definition new_session :: "region_state \<Rightarrow> nat \<Rightarrow> bool list \<Rightarrow> H2Session" where
  "new_session st max_body io =
     \<lparr> hs_decoder = new_hpack_decoder, hs_mgr = new_stream_manager, hs_fc = new_flow_control 65535,
       hs_region = InitRegion True st, hs_streams = Map.empty, hs_buf = replicate kReadBufSize 0,
       hs_used = 0, hs_output = [], hs_writing = False, hs_sent = [], hs_io = io,
       hs_local = no_settings\<lparr> enable_connect_protocol := Some 1 \<rparr>,
       hs_peer_max_concurrent = 0, hs_peer_initial_window = 65535, hs_peer_max_frame = 16384,
       hs_goaway_received = False, hs_goaway_sent = False, hs_cont_sid = 0, hs_cont_block = [],
       hs_max_body = max_body \<rparr>"

section \<open>Output helpers\<close>

definition frame_bytes :: "H2FrameType \<Rightarrow> byte \<Rightarrow> u32 \<Rightarrow> byte list \<Rightarrow> byte list" where
  "frame_bytes t flags sid payload =
     EncodeFrameHeader \<lparr> fh_length = of_nat (length payload), fh_type = t, fh_flags = flags,
       fh_stream_id = sid \<rparr> @ payload"

definition emit_frame :: "H2FrameType \<Rightarrow> byte \<Rightarrow> u32 \<Rightarrow> byte list \<Rightarrow> H2Session \<Rightarrow> H2Session" where
  "emit_frame t flags sid payload s =
     s\<lparr> hs_output := hs_output s @ frame_bytes t flags sid payload \<rparr>"

definition WriteHeaders :: "int \<Rightarrow> byte list \<Rightarrow> bool \<Rightarrow> H2Session \<Rightarrow> H2Session" where
  "WriteHeaders sid hpack end_headers =
     emit_frame HEADERS (if end_headers then FLAG_END_HEADERS else 0) (of_int sid) hpack"

definition WriteData :: "int \<Rightarrow> byte list \<Rightarrow> bool \<Rightarrow> H2Session \<Rightarrow> H2Session" where
  "WriteData sid data end_stream =
     emit_frame DATA (if end_stream then FLAG_END_STREAM else 0) (of_int sid) data"

definition WriteRstStream :: "int \<Rightarrow> H2Error \<Rightarrow> H2Session \<Rightarrow> H2Session" where
  "WriteRstStream sid err = emit_frame RST_STREAM 0 (of_int sid) (EncodeRstStream err)"

definition WriteGoAway :: "int \<Rightarrow> H2Error \<Rightarrow> H2Session \<Rightarrow> H2Session" where
  "WriteGoAway last_sid err =
     emit_frame GOAWAY 0 0 (EncodeGoAway \<lparr> last_stream_id = of_int last_sid, ga_error_code = err \<rparr>)"

definition WriteWindowUpdate :: "int \<Rightarrow> u32 \<Rightarrow> H2Session \<Rightarrow> H2Session" where
  "WriteWindowUpdate sid inc = emit_frame WINDOW_UPDATE 0 (of_int sid) (EncodeWindowUpdate inc)"

definition WritePingAck :: "byte list \<Rightarrow> H2Session \<Rightarrow> H2Session" where
  "WritePingAck ping = emit_frame PING FLAG_ACK 0 (EncodePing ping)"

definition WriteSettingsAck :: "H2Session \<Rightarrow> H2Session" where
  "WriteSettingsAck = emit_frame SETTINGS FLAG_ACK 0 []"

text \<open>The connection preface: the local SETTINGS.\<close>

definition SendPreface :: "H2Session \<Rightarrow> H2Session" where
  "SendPreface s = emit_frame SETTINGS 0 0 (EncodeSettings (hs_local s)) s"

definition LastClientStreamId :: "H2Session \<Rightarrow> int" where
  "LastClientStreamId s = sm_last_client_stream_id (hs_mgr s)"

section \<open>Frame handlers\<close>

definition sid_of :: "H2FrameHeader \<Rightarrow> int" where
  "sid_of hdr = sint (fh_stream_id hdr)"

text \<open>A connection error: GOAWAY with the last client stream, then the session ends.\<close>

definition connection_error :: "H2Error \<Rightarrow> H2Session \<Rightarrow> H2Session" where
  "connection_error err s = (WriteGoAway (LastClientStreamId s) err s)\<lparr> hs_goaway_sent := True \<rparr>"

definition OnSettings :: "H2FrameHeader \<Rightarrow> byte list \<Rightarrow> H2Session \<Rightarrow> H2Session option" where
  "OnSettings hdr payload s =
     (if has_flag (fh_flags hdr) FLAG_ACK then Some s
      else if length payload < unat (fh_length hdr) then None
      else
        let st = DecodeSettings (take (unat (fh_length hdr)) payload);
            s1 = (case max_concurrent_streams st of None \<Rightarrow> s
                  | Some v \<Rightarrow> s\<lparr> hs_peer_max_concurrent := v \<rparr>);
            s2 = (case initial_window_size st of None \<Rightarrow> s1
                  | Some v \<Rightarrow> s1\<lparr> hs_peer_initial_window := v,
                                  hs_fc := SetPeerInitialWindow v (hs_fc s1) \<rparr>)
        in case max_frame_size st of
             None \<Rightarrow> Some (WriteSettingsAck s2)
           | Some v \<Rightarrow>
               if v < 16384 \<or> 16777215 < v then Some (connection_error PROTOCOL_ERROR s2)
               else Some (WriteSettingsAck (s2\<lparr> hs_peer_max_frame := v \<rparr>)))"

text \<open>Decoding a complete header block into the context of a stream.\<close>

definition decode_block :: "int \<Rightarrow> byte list \<Rightarrow> H2StreamContext \<Rightarrow> H2Session \<Rightarrow> (bool \<times> H2Session) option" where
  "decode_block sid block ctx s =
     (case Decode block (hs_decoder s, (hs_region s, ctx)) of
        None \<Rightarrow> None
      | Some (ok, (d, (st, c))) \<Rightarrow>
          Some (ok, s\<lparr> hs_decoder := d, hs_region := st, hs_streams := (hs_streams s)(sid \<mapsto> c) \<rparr>))"

definition slice :: "u64 \<Rightarrow> u64 \<Rightarrow> byte list \<Rightarrow> byte list option" where
  "slice off len payload =
     (if length payload < unat off + unat len then None
      else Some (take (unat len) (drop (unat off) payload)))"

definition OnHeaders :: "H2FrameHeader \<Rightarrow> byte list \<Rightarrow> H2Session \<Rightarrow> H2Session option" where
  "OnHeaders hdr payload s =
     (let sid = sid_of hdr; (ok, mgr) = OnStreamOpen sid (hs_mgr s); s1 = s\<lparr> hs_mgr := mgr \<rparr>
      in if \<not> ok then Some (WriteRstStream sid REFUSED_STREAM s1)
         else
           let ctx = SetPool True (case hs_streams s1 sid of None \<Rightarrow> new_stream_context | Some c \<Rightarrow> c);
               s2 = s1\<lparr> hs_streams := (hs_streams s1)(sid \<mapsto> ctx) \<rparr>
           in case HeadersBlockLength hdr payload of
                None \<Rightarrow> None
              | Some hpack_len \<Rightarrow>
                  (if has_flag (fh_flags hdr) FLAG_PRIORITY
                      \<and> DecodePriority (drop (unat (HeadersBlockStart hdr) - 5) payload) = None
                   then None
                   else case slice (HeadersBlockStart hdr) hpack_len payload of
                          None \<Rightarrow> None
                        | Some block \<Rightarrow>
                            if has_flag (fh_flags hdr) FLAG_END_HEADERS
                            then (case decode_block sid block ctx s2 of
                                    None \<Rightarrow> None
                                  | Some (ok, s3) \<Rightarrow>
                                      if \<not> ok then Some (WriteRstStream sid COMPRESSION_ERROR s3)
                                      else if has_flag (fh_flags hdr) FLAG_END_STREAM
                                           \<or> ws_extended (the (hs_streams s3 sid))
                                      then let mgr = (if has_flag (fh_flags hdr) FLAG_END_STREAM
                                                      then OnStreamEndStream sid (hs_mgr s3)
                                                      else hs_mgr s3)
                                           in Some (s3\<lparr> hs_mgr := Enqueue sid mgr \<rparr>)
                                      else Some s3)
                            else Some (s2\<lparr> hs_cont_sid := sid, hs_cont_block := block \<rparr>)))"

definition OnContinuation :: "H2FrameHeader \<Rightarrow> byte list \<Rightarrow> H2Session \<Rightarrow> H2Session option" where
  "OnContinuation hdr payload s =
     (if sid_of hdr \<noteq> hs_cont_sid s then Some (connection_error PROTOCOL_ERROR s)
      else if length payload < unat (fh_length hdr) then None
      else
        let s1 = s\<lparr> hs_cont_block := hs_cont_block s @ take (unat (fh_length hdr)) payload \<rparr>
        in if has_flag (fh_flags hdr) FLAG_END_HEADERS
           then (let sid = hs_cont_sid s1; s2 = s1\<lparr> hs_cont_sid := 0 \<rparr>
                 in case hs_streams s2 sid of
                      None \<Rightarrow> Some (WriteRstStream sid PROTOCOL_ERROR s2)
                    | Some ctx \<Rightarrow>
                        (case decode_block sid (hs_cont_block s2) ctx s2 of
                           None \<Rightarrow> None
                         | Some (ok, s3) \<Rightarrow>
                             if \<not> ok then Some (WriteRstStream sid COMPRESSION_ERROR s3)
                             else Some (s3\<lparr> hs_cont_block := [] \<rparr>)))
           else Some s1)"

text \<open>Waking the WebSocket reader of a stream: cancelling its timer when it has one.\<close>

definition wake :: "H2StreamContext \<Rightarrow> H2StreamContext" where
  "wake c = (if ws_wakeup c then c\<lparr> ws_cancelled := True \<rparr> else c)"

definition put_stream :: "int \<Rightarrow> H2StreamContext \<Rightarrow> H2Session \<Rightarrow> H2Session" where
  "put_stream sid c s = s\<lparr> hs_streams := (hs_streams s)(sid \<mapsto> c) \<rparr>"

definition window_update :: "int \<Rightarrow> H2Session \<Rightarrow> H2Session" where
  "window_update sid s =
     (if ShouldUpdate (hs_fc s) (of_int sid)
      then let (c, fc) = PopCredit (of_int sid) (hs_fc s)
           in WriteWindowUpdate sid c (s\<lparr> hs_fc := fc \<rparr>)
      else s)"

text \<open>WebSocket data goes to the reader's queue, any other data to the request body.\<close>

definition deliver_data :: "int \<Rightarrow> H2StreamContext \<Rightarrow> byte list \<Rightarrow> H2Session \<Rightarrow> H2Session" where
  "deliver_data sid ctx data s =
     (if ws_active ctx
      then put_stream sid (wake (ctx\<lparr> ws_data_queue := ws_data_queue ctx @ [chars data] \<rparr>)) s
      else let (st, c) = AppendBody data (hs_region s, ctx)
           in put_stream sid c (s\<lparr> hs_region := st \<rparr>))"

definition end_data :: "int \<Rightarrow> bool \<Rightarrow> H2Session \<Rightarrow> H2Session" where
  "end_data sid ws s =
     (let s1 = s\<lparr> hs_mgr := OnStreamEndStream sid (hs_mgr s) \<rparr>
      in if \<not> ws then s1\<lparr> hs_mgr := Enqueue sid (hs_mgr s1) \<rparr>
         else put_stream sid (wake ((the (hs_streams s1 sid))\<lparr> stream_closed := True \<rparr>)) s1)"

definition OnData :: "H2FrameHeader \<Rightarrow> byte list \<Rightarrow> H2Session \<Rightarrow> H2Session option" where
  "OnData hdr payload s =
     (let sid = sid_of hdr
      in case hs_streams s sid of
           None \<Rightarrow> Some (WriteRstStream sid STREAM_CLOSED s)
         | Some ctx \<Rightarrow>
             (case DataLength hdr payload of
                None \<Rightarrow> None
              | Some data_len \<Rightarrow>
                  (case slice (DataOffset hdr) data_len payload of
                     None \<Rightarrow> None
                   | Some data \<Rightarrow>
                       let actual_len = ucast data_len :: u32;
                           fc = ConsumeBytes 0 actual_len (ConsumeBytes (of_int sid) actual_len (hs_fc s));
                           s2 = deliver_data sid ctx data (s\<lparr> hs_fc := fc \<rparr>)
                       in if \<not> ws_active ctx \<and> 0 < hs_max_body s2 \<and> hs_max_body s2 < sc_content_length ctx
                          then Some (WriteRstStream sid REFUSED_STREAM s2)
                          else
                            let s3 = window_update 0 (window_update sid s2)
                            in if has_flag (fh_flags hdr) FLAG_END_STREAM
                               then Some (end_data sid (ws_active ctx) s3) else Some s3)))"

definition OnRstStream :: "H2FrameHeader \<Rightarrow> byte list \<Rightarrow> H2Session \<Rightarrow> H2Session option" where
  "OnRstStream hdr payload s =
     (let sid = sid_of hdr
      in case DecodeRstStream payload of
           None \<Rightarrow> None
         | Some _ \<Rightarrow>
             let s1 = s\<lparr> hs_mgr := OnStreamClose sid (hs_mgr s) \<rparr>
             in case hs_streams s1 sid of
                  None \<Rightarrow> Some s1
                | Some c \<Rightarrow>
                    let c1 = c\<lparr> stream_closed := True \<rparr>
                    in Some (put_stream sid (if ws_active c1 then wake c1 else c1) s1))"

definition OnPing :: "H2FrameHeader \<Rightarrow> byte list \<Rightarrow> H2Session \<Rightarrow> H2Session option" where
  "OnPing hdr payload s =
     (if has_flag (fh_flags hdr) FLAG_ACK then Some s
      else if 8 \<le> fh_length hdr then map_option (\<lambda>ping. WritePingAck ping s) (DecodePing payload)
      else Some s)"

definition OnGoAway :: "H2FrameHeader \<Rightarrow> byte list \<Rightarrow> H2Session \<Rightarrow> H2Session option" where
  "OnGoAway hdr payload s =
     (if fh_length hdr < 8 then Some s
      else let s1 = s\<lparr> hs_goaway_received := True \<rparr>
           in if \<not> hs_goaway_sent s1 then Some (connection_error NO_ERROR s1) else Some s1)"

definition OnWindowUpdate :: "H2FrameHeader \<Rightarrow> byte list \<Rightarrow> H2Session \<Rightarrow> H2Session option" where
  "OnWindowUpdate hdr payload s = Some s"

definition OnPriority :: "H2FrameHeader \<Rightarrow> byte list \<Rightarrow> H2Session \<Rightarrow> H2Session option" where
  "OnPriority hdr payload s = Some s"

definition ProcessFrame :: "H2FrameHeader \<Rightarrow> byte list \<Rightarrow> H2Session \<Rightarrow> H2Session option" where
  "ProcessFrame hdr payload s =
     (case fh_type hdr of
        SETTINGS \<Rightarrow> OnSettings hdr payload s
      | HEADERS \<Rightarrow> OnHeaders hdr payload s
      | DATA \<Rightarrow> OnData hdr payload s
      | RST_STREAM \<Rightarrow> OnRstStream hdr payload s
      | PING \<Rightarrow> OnPing hdr payload s
      | GOAWAY \<Rightarrow> OnGoAway hdr payload s
      | WINDOW_UPDATE \<Rightarrow> OnWindowUpdate hdr payload s
      | PRIORITY \<Rightarrow> OnPriority hdr payload s
      | CONTINUATION \<Rightarrow> OnContinuation hdr payload s
      | PUSH_PROMISE \<Rightarrow> Some s
      | OTHER_TYPE _ \<Rightarrow> Some s)"

section \<open>The read loop\<close>

text \<open>
  \<open>rest\<close> is the buffer from the parse position to its end, \<open>available\<close> how many of those bytes
  were received.
\<close>

function parse_loop :: "byte list \<Rightarrow> nat \<Rightarrow> H2Session \<Rightarrow> (byte list \<times> nat \<times> H2Session) option" where
  "parse_loop rest available s =
     (if available < kFrameHeaderSize then Some (rest, available, s)
      else case DecodeFrameHeader rest of
             None \<Rightarrow> None
           | Some hdr \<Rightarrow>
               if hs_peer_max_frame s < fh_length hdr
               then Some (rest, available, connection_error FRAME_SIZE_ERROR s)
               else let frame_size = kFrameHeaderSize + unat (fh_length hdr)
                    in if available < frame_size then Some (rest, available, s)
                       else case ProcessFrame hdr (drop kFrameHeaderSize rest) s of
                              None \<Rightarrow> None
                            | Some s' \<Rightarrow> parse_loop (drop frame_size rest) (available - frame_size) s')"
  by pat_completeness auto
termination
  by (relation "measure (\<lambda>(rest, available, s). available)") (auto simp: kFrameHeaderSize_def)

declare parse_loop.simps [simp del]

definition kMagic :: "byte list" where
  "kMagic = bytes (''PRI * HTTP/2.0'' @ [CHR 0x0D, CHR 0x0A, CHR 0x0D, CHR 0x0A] @ ''SM''
     @ [CHR 0x0D, CHR 0x0A, CHR 0x0D, CHR 0x0A])"

text \<open>
  One iteration's read and parse. \<open>input\<close> is what the one or two reads of the iteration put at
  the start of the buffer (the iteration begins with \<^verbatim>\<open>read_buf_used_ = 0\<close>).
\<close>

definition on_read :: "byte list \<Rightarrow> H2Session \<Rightarrow> H2Session option" where
  "on_read input s =
     (let buf = input @ drop (length input) (hs_buf s);
          s1 = s\<lparr> hs_buf := buf, hs_used := length input \<rparr>;
          skip = (if LastClientStreamId s1 = 0 \<and> kH2PrefaceLen \<le> length input
                     \<and> take kH2PrefaceLen buf = kMagic then kH2PrefaceLen else 0)
      in case parse_loop (drop skip buf) (length input - skip) s1 of
           None \<Rightarrow> None
         | Some (rest, available, s2) \<Rightarrow>
             let buf2 = (if rest \<noteq> buf \<and> 0 < available
                         then take available rest @ drop available buf else buf)
             in Some (s2\<lparr> hs_buf := buf2, hs_used := available \<rparr>))"

section \<open>Writing to the socket\<close>

definition next_io :: "H2Session \<Rightarrow> bool \<times> H2Session" where
  "next_io s = (case hs_io s of [] \<Rightarrow> (True, s) | ok # rest \<Rightarrow> (ok, s\<lparr> hs_io := rest \<rparr>))"

definition FlushOutput :: "H2Session \<Rightarrow> bool \<times> H2Session" where
  "FlushOutput s =
     (if hs_writing s then (True, s)
      else if hs_output s = [] then (True, s)
      else let (ok, s1) = next_io (s\<lparr> hs_output := [] \<rparr>)
           in if ok then (True, s1\<lparr> hs_sent := hs_sent s1 @ hs_output s \<rparr>) else (False, s1))"

text \<open>\<open>H2StreamSink\<close>: the first component is its \<^verbatim>\<open>ended_\<close> flag.\<close>

definition sink_write :: "int \<Rightarrow> string \<Rightarrow> bool \<times> H2Session \<Rightarrow> bool \<times> H2Session" where
  "sink_write sid data es =
     (case es of (ended, s) \<Rightarrow>
        if ended then es
        else let (ok, s1) = FlushOutput (WriteData sid (bytes data) False s) in (\<not> ok, s1))"

definition sink_end :: "int \<Rightarrow> bool \<times> H2Session \<Rightarrow> bool \<times> H2Session" where
  "sink_end sid es =
     (case es of (ended, s) \<Rightarrow> if ended then es else (True, WriteData sid [] True s))"

section \<open>Responding to a request\<close>

text \<open>
  What the middleware, the router and the handler made of a request. \<open>Streamed\<close> is a
  streaming handler: the chunks it writes to its sink. \<open>Responded\<close> is a response with its
  status, headers, the body in the region and, for a file response, the file; \<open>Pushing\<close> is a
  server-sent-events response with the initial payload and what each timer tick pushes. A file
  is its range length (0 without a range), its size and what reading that many bytes at the
  range's offset gives (\<open>None\<close> when \<^verbatim>\<open>pread\<close> returns nothing or fails).
\<close>

type_synonym file_source = "nat \<times> nat \<times> (nat \<Rightarrow> string option)"

datatype served =
  Streamed "(string \<times> string) list" string "string list"
| Responded nat "(string \<times> string) list" string "file_source option"
| Pushing nat "(string \<times> string) list" string "string list"
| Threw

definition response_body :: "string \<Rightarrow> file_source option \<Rightarrow> string" where
  "response_body body_wire file =
     (if body_wire \<noteq> [] then body_wire
      else case file of None \<Rightarrow> []
           | Some (range_len, file_size, pread) \<Rightarrow>
               (case pread (if 0 < range_len then range_len else file_size) of
                  None \<Rightarrow> [] | Some data \<Rightarrow> data))"

definition hop_header :: "string \<Rightarrow> bool" where
  "hop_header name \<longleftrightarrow> name \<in> {''Connection'', ''Transfer-Encoding'', ''Date'', ''connection'',
     ''transfer-encoding'', ''date''}"

definition response_fields :: "nat \<Rightarrow> (string \<times> string) list \<Rightarrow> (string \<times> string) list" where
  "response_fields status headers =
     ('':status'', uint_text status)
     # map (\<lambda>(n, v). (map tolower n, v)) (filter (\<lambda>(n, v). \<not> hop_header n) headers)"

definition WriteResponseHeaders :: "int \<Rightarrow> nat \<Rightarrow> (string \<times> string) list \<Rightarrow> H2Session \<Rightarrow> H2Session" where
  "WriteResponseHeaders sid status headers =
     WriteHeaders sid (Encode (response_fields status headers)) True"

definition drop_stream :: "int \<Rightarrow> H2Session \<Rightarrow> H2Session" where
  "drop_stream sid s =
     s\<lparr> hs_streams := (hs_streams s)(sid := None), hs_mgr := RemoveStream sid (hs_mgr s) \<rparr>"

text \<open>
  The \<^verbatim>\<open>cleanup\<close> label: the context is erased and, with the last stream, the region is reset.
\<close>

definition cleanup :: "int \<Rightarrow> bool \<Rightarrow> H2Session \<Rightarrow> H2Session" where
  "cleanup sid ok s =
     (let s1 = (if \<not> ok then snd (FlushOutput s) else s);
          s2 = drop_stream sid s1
      in if hs_streams s2 = Map.empty
         then s2\<lparr> hs_region := (fst (hs_region s2), ResetRegion (snd (hs_region s2))) \<rparr> else s2)"

text \<open>The push loop, over the payloads of the timer ticks.\<close>

fun push_loop :: "int \<Rightarrow> string list \<Rightarrow> H2Session \<Rightarrow> H2Session" where
  "push_loop sid [] s = s"
| "push_loop sid (payload # ticks) s =
     (if hs_goaway_sent s \<or> hs_goaway_received s
         \<or> (case hs_streams s sid of None \<Rightarrow> False | Some c \<Rightarrow> stream_closed c) then s
      else let data = (if payload = [] then '':'' @ [CHR 0x0A, CHR 0x0A] else payload);
               (ok, s1) = FlushOutput (WriteData sid (bytes data) False s)
           in if ok then push_loop sid ticks s1 else s1)"

text \<open>
  \<open>HandleStream\<close> for a stream whose request is complete. \<open>serve\<close> stands for pre-middleware,
  routing and the handler (it may store its response in the region); \<open>ws_handler\<close> says whether
  a handler exists for the path of an extended CONNECT, \<open>date\<close> is the cached date.
\<close>

definition HandleStream ::
  "(ctx_state \<Rightarrow> served \<times> region_state) \<Rightarrow> (string \<Rightarrow> bool) \<Rightarrow> string \<Rightarrow> int \<Rightarrow> H2Session \<Rightarrow> H2Session" where
  "HandleStream serve ws_handler date sid s =
     (case hs_streams s sid of None \<Rightarrow> s
      | Some ctx0 \<Rightarrow>
          if stream_closed ctx0 then drop_stream sid s
          else
            let ctx = SetPool True ctx0;
                s1 = put_stream sid ctx s;
                s2 = s1\<lparr> hs_region := (fst (hs_region s1), SetStructuredMode True (snd (hs_region s1))) \<rparr>
            in if 0 < hs_max_body s2 \<and> hs_max_body s2 < sc_content_length ctx
               then drop_stream sid (snd (FlushOutput (WriteRstStream sid REFUSED_STREAM s2)))
               else
                 let (reply, st) = serve (hs_region s2, ctx); s3 = s2\<lparr> hs_region := st \<rparr>
                 in case reply of
                      Threw \<Rightarrow> cleanup sid False (WriteRstStream sid INTERNAL_ERROR s3)
                    | Streamed headers init chunks \<Rightarrow>
                        let s4 = snd (FlushOutput (WriteData sid (bytes init) False
                                   (WriteResponseHeaders sid 200 headers s3)));
                            (ended, s5) = fold (sink_write sid) chunks (False, s4);
                            (ended, s6) = sink_end sid (ended, s5)
                        in cleanup sid True (snd (FlushOutput s6))
                    | _ \<Rightarrow>
                        if ws_extended ctx
                        then (if ws_handler (ToView st (sc_path ctx))
                              then put_stream sid (ctx\<lparr> ws_active := True \<rparr>)
                                     (snd (FlushOutput (WriteHeaders sid
                                        (Encode [('':status'', ''200''), (''date'', date)]) True s3)))
                              else drop_stream sid
                                     (snd (FlushOutput (WriteRstStream sid REFUSED_STREAM s3))))
                        else
                          (case reply of
                             Responded status headers body_wire file \<Rightarrow>
                               cleanup sid True (WriteData sid (bytes (response_body body_wire file)) True
                                 (WriteResponseHeaders sid status headers s3))
                           | Pushing status headers init ticks \<Rightarrow>
                               let (ok, s4) = FlushOutput (WriteData sid (bytes init) False
                                                (WriteResponseHeaders sid status headers s3))
                               in cleanup sid True (if ok then push_loop sid ticks s4 else s4)
                           | _ \<Rightarrow> s3))"

text \<open>
  The coroutine of a WebSocket handler when it ends: \<open>fine\<close> is false when the handler threw.
\<close>

definition FinishWebSocket :: "bool \<Rightarrow> int \<Rightarrow> H2Session \<Rightarrow> H2Session" where
  "FinishWebSocket fine sid s =
     (let s1 = snd (FlushOutput (WriteRstStream sid (if fine then NO_ERROR else INTERNAL_ERROR) s));
          s2 = drop_stream sid s1
      in if hs_streams s2 = Map.empty
         then s2\<lparr> hs_region := (fst (hs_region s2), ResetRegion (snd (hs_region s2))) \<rparr> else s2)"

lemma drop_stream_pending [simp]: "sm_pending (hs_mgr (drop_stream sid s)) = sm_pending (hs_mgr s)"
  by (simp add: drop_stream_def RemoveStream_def OnStreamClose_def Let_def split: option.splits)

lemma emit_mgr [simp]: "hs_mgr (emit_frame t f i p s) = hs_mgr s"
  by (simp add: emit_frame_def)

lemma flush_mgr [simp]: "hs_mgr (snd (FlushOutput s)) = hs_mgr s"
  by (auto simp: FlushOutput_def next_io_def split: list.splits prod.splits)

lemma put_stream_mgr [simp]: "hs_mgr (put_stream sid c s) = hs_mgr s"
  by (simp add: put_stream_def)

lemma write_mgr [simp]:
  "hs_mgr (WriteHeaders sid h b s) = hs_mgr s" "hs_mgr (WriteData sid d b s) = hs_mgr s"
  "hs_mgr (WriteRstStream sid e s) = hs_mgr s" "hs_mgr (WriteResponseHeaders sid st hs s) = hs_mgr s"
  by (simp_all add: WriteHeaders_def WriteData_def WriteRstStream_def WriteResponseHeaders_def)

lemma FlushOutput_mgr: "FlushOutput s = (ok, s') \<Longrightarrow> hs_mgr s' = hs_mgr s"
  using flush_mgr [of s] by simp

lemma sink_mgr:
  "hs_mgr (snd (sink_write sid d es)) = hs_mgr (snd es)" "hs_mgr (snd (sink_end sid es)) = hs_mgr (snd es)"
  by (auto simp: sink_write_def sink_end_def split: prod.splits dest!: FlushOutput_mgr)

lemma sinks_mgr: "hs_mgr (snd (fold (sink_write sid) chunks es)) = hs_mgr (snd es)"
  by (induction chunks arbitrary: es) (simp_all add: sink_mgr)

lemma push_loop_mgr [simp]: "hs_mgr (push_loop sid ticks s) = hs_mgr s"
  by (induction sid ticks s rule: push_loop.induct)
    (auto simp: Let_def split: prod.splits dest!: FlushOutput_mgr)

lemma cleanup_pending [simp]: "sm_pending (hs_mgr (cleanup sid ok s)) = sm_pending (hs_mgr s)"
  by (simp add: cleanup_def Let_def)

lemma HandleStream_pending:
  "sm_pending (hs_mgr (HandleStream serve wh date sid s)) = sm_pending (hs_mgr s)"
proof (cases "hs_streams s sid")
  case None
  then show ?thesis
    by (simp add: HandleStream_def)
next
  case (Some ctx)
  define ctx1 where "ctx1 = SetPool True ctx"
  define s1 where "s1 = put_stream sid ctx1 s"
  define s2 where "s2 = s1\<lparr> hs_region := (fst (hs_region s1), SetStructuredMode True (snd (hs_region s1))) \<rparr>"
  obtain reply st where rep: "serve (hs_region s2, ctx1) = (reply, st)"
    by (cases "serve (hs_region s2, ctx1)")
  have mgr2: "hs_mgr s2 = hs_mgr s"
    by (simp add: s2_def s1_def)
  have sinks: "sink_end sid (fold (sink_write sid) chunks (False, s0)) = (e, s') \<Longrightarrow> hs_mgr s' = hs_mgr s0"
    for chunks s0 s' e
    using sink_mgr(2) [of sid "fold (sink_write sid) chunks (False, s0)"]
      sinks_mgr [of sid chunks "(False, s0)"] by simp
  show ?thesis
    using mgr2
    by (auto simp: HandleStream_def Some Let_def ctx1_def [symmetric] s1_def [symmetric] s2_def [symmetric] rep
        split: served.splits prod.splits dest!: sinks FlushOutput_mgr)
qed

function ProcessPending ::
  "(ctx_state \<Rightarrow> served \<times> region_state) \<Rightarrow> (string \<Rightarrow> bool) \<Rightarrow> string \<Rightarrow> H2Session \<Rightarrow> H2Session" where
  "ProcessPending serve wh date s =
     (if HasPending (hs_mgr s)
      then let (sid, mgr) = Dequeue (hs_mgr s)
           in ProcessPending serve wh date (HandleStream serve wh date sid (s\<lparr> hs_mgr := mgr \<rparr>))
      else s)"
  by pat_completeness auto
termination
  by (relation "measure (\<lambda>(serve, wh, date, s). length (sm_pending (hs_mgr s)))")
    (auto simp: HasPending_def Dequeue_def HandleStream_pending split: list.splits)

declare ProcessPending.simps [simp del]

section \<open>The connection loop\<close>

text \<open>
  \<open>Start\<close> after the preface, over the inputs of its iterations; the end of the list is the
  failed read that ends the loop. After the flush the output is empty, so the second flush loop
  has nothing to do when no other coroutine writes.
\<close>

definition finish_session :: "H2Session \<Rightarrow> H2Session" where
  "finish_session s =
     (let s1 = (if \<not> hs_goaway_sent s
                then snd (FlushOutput (WriteGoAway (LastClientStreamId s) NO_ERROR s)) else s)
      in s1\<lparr> hs_mgr := GcClosed (hs_mgr s1) \<rparr>)"

fun run_session ::
  "(ctx_state \<Rightarrow> served \<times> region_state) \<Rightarrow> (string \<Rightarrow> bool) \<Rightarrow> string \<Rightarrow> byte list list \<Rightarrow> H2Session \<Rightarrow> H2Session option" where
  "run_session serve wh date [] s = Some (finish_session s)"
| "run_session serve wh date (input # inputs) s =
     (if hs_goaway_received s \<or> hs_goaway_sent s then Some (finish_session s)
      else case on_read input s of
             None \<Rightarrow> None
           | Some s1 \<Rightarrow>
               if hs_goaway_sent s1 then Some (finish_session s1)
               else let (ok, s2) = FlushOutput (ProcessPending serve wh date s1)
                    in if ok then run_session serve wh date inputs s2 else Some (finish_session s2))"

definition Start ::
  "(ctx_state \<Rightarrow> served \<times> region_state) \<Rightarrow> (string \<Rightarrow> bool) \<Rightarrow> string \<Rightarrow> byte list list \<Rightarrow> H2Session \<Rightarrow> H2Session option" where
  "Start serve wh date inputs s =
     (let (ok, s1) = FlushOutput (SendPreface s)
      in if ok then run_session serve wh date inputs s1 else Some s1)"

section \<open>Session invariant and stream isolation\<close>

definition hs_inv :: "FreeSlot list \<Rightarrow> H2Session \<Rightarrow> bool" where
  "hs_inv others s \<longleftrightarrow>
     sm_inv (hs_mgr s) \<and> hpack_inv (hs_decoder s) \<and> fc_inv (hs_fc s)
     \<and> region_inv others (hs_region s)
     \<and> (\<forall>c \<in> ran (hs_streams s). ctx_inv others (hs_region s, c))
     \<and> 16384 \<le> hs_peer_max_frame s \<and> hs_peer_max_frame s \<le> 16777215"

text \<open>
  A step on behalf of stream \<open>sid\<close>: the invariant holds afterwards, and every other stream has
  the context it had, reading the same request.
\<close>

definition hs_step :: "FreeSlot list \<Rightarrow> int \<Rightarrow> H2Session \<Rightarrow> H2Session \<Rightarrow> bool" where
  "hs_step others sid s s' \<longleftrightarrow>
     hs_inv others s'
     \<and> (\<forall>k. k \<noteq> sid \<longrightarrow> hs_streams s' k = hs_streams s k
           \<and> (\<forall>c. hs_streams s k = Some c \<longrightarrow>
                request_of (hs_region s', c) = request_of (hs_region s, c)))"

lemma ctx_keeps:
  assumes "ctx_inv others (st, c)" and "region_inv others st'" and "region_keeps others st st'"
  shows "ctx_inv others (st', c)" and "request_of (st', c) = request_of (st, c)"
proof -
  have k: "issued_off st' ro \<and> ToView st' ro = ToView st ro" if "ro \<in> ctx_offs c" for ro
    using ToView_keeps [OF assms(3)] assms(1) that by (auto simp: ctx_inv_def)
  then show "ctx_inv others (st', c)"
    using assms(1,2) by (auto simp: ctx_inv_def)
  show "request_of (st', c) = request_of (st, c)"
    using k by (auto simp: request_of_def Method_def Path_def Body_def ctx_offs_def)
qed

lemma hs_inv_stream: "hs_inv others s \<Longrightarrow> hs_streams s sid = Some c \<Longrightarrow> ctx_inv others (hs_region s, c)"
  by (auto simp: hs_inv_def ran_def)

lemma hs_step_refl: "hs_inv others s \<Longrightarrow> hs_step others sid s s"
  by (simp add: hs_step_def)

lemma hs_step_trans:
  "hs_step others sid s s1 \<Longrightarrow> hs_step others sid s1 s2 \<Longrightarrow> hs_step others sid s s2"
  by (simp add: hs_step_def)

lemma hs_step_fields:
  "hs_inv others s \<Longrightarrow> hs_step others sid s (s\<lparr> hs_output := out \<rparr>)"
  "hs_inv others s \<Longrightarrow> hs_step others sid s (s\<lparr> hs_goaway_sent := b \<rparr>)"
  "hs_inv others s \<Longrightarrow> hs_step others sid s (s\<lparr> hs_goaway_received := b \<rparr>)"
  "hs_inv others s \<Longrightarrow> hs_step others sid s (s\<lparr> hs_cont_sid := k \<rparr>)"
  "hs_inv others s \<Longrightarrow> hs_step others sid s (s\<lparr> hs_cont_block := bs \<rparr>)"
  "hs_inv others s \<Longrightarrow> hs_step others sid s (s\<lparr> hs_peer_max_concurrent := v \<rparr>)"
  "hs_inv others s \<Longrightarrow> hs_step others sid s (s\<lparr> hs_peer_initial_window := v \<rparr>)"
  "hs_inv others s \<Longrightarrow> sm_inv m \<Longrightarrow> hs_step others sid s (s\<lparr> hs_mgr := m \<rparr>)"
  "hs_inv others s \<Longrightarrow> fc_inv fc \<Longrightarrow> hs_step others sid s (s\<lparr> hs_fc := fc \<rparr>)"
  "hs_inv others s \<Longrightarrow> 16384 \<le> v \<Longrightarrow> v \<le> 16777215 \<Longrightarrow> hs_step others sid s (s\<lparr> hs_peer_max_frame := v \<rparr>)"
  by (simp_all add: hs_step_def hs_inv_def)

lemma hs_step_put:
  "hs_inv others s \<Longrightarrow> ctx_inv others (hs_region s, c) \<Longrightarrow> hs_step others sid s (put_stream sid c s)"
  by (auto simp: hs_step_def hs_inv_def put_stream_def ran_def)

lemma hs_step_store:
  assumes inv: "hs_inv others s" and c: "ctx_inv others (st, c)"
    and keeps: "region_keeps others (hs_region s) st"
  shows "hs_step others sid s (put_stream sid c (s\<lparr> hs_region := st \<rparr>))"
proof -
  have "region_inv others st"
    using c by (simp add: ctx_inv_def)
  then have "ctx_inv others (st, c') \<and> request_of (st, c') = request_of (hs_region s, c')"
    if "hs_streams s k = Some c'" for k c'
    using ctx_keeps [OF hs_inv_stream [OF inv that] _ keeps] by blast
  then show ?thesis
    using inv c \<open>region_inv others st\<close>
    by (auto simp: hs_step_def hs_inv_def put_stream_def ran_def split: if_splits)
qed

lemma hs_step_inv: "hs_step others sid s s' \<Longrightarrow> hs_inv others s'"
  by (simp add: hs_step_def)

lemma hs_step_emit: "hs_inv others s \<Longrightarrow> hs_step others sid s (emit_frame t f i p s)"
  by (simp add: emit_frame_def hs_step_fields)

lemma hs_step_writes:
  assumes "hs_inv others s"
  shows "hs_step others sid s (WriteRstStream k e s)" "hs_step others sid s (WriteGoAway k e s)"
    "hs_step others sid s (WriteWindowUpdate k w s)" "hs_step others sid s (WritePingAck p s)"
    "hs_step others sid s (WriteSettingsAck s)" "hs_step others sid s (connection_error e s)"
  using assms hs_step_trans [OF hs_step_emit hs_step_fields(2) [OF hs_step_inv [OF hs_step_emit]]]
  by (simp_all add: WriteRstStream_def WriteGoAway_def WriteWindowUpdate_def WritePingAck_def
      WriteSettingsAck_def connection_error_def hs_step_emit)

lemma hs_step_then:
  "hs_step others sid s s1 \<Longrightarrow> (hs_inv others s1 \<Longrightarrow> hs_step others sid s1 s2) \<Longrightarrow> hs_step others sid s s2"
  using hs_step_inv hs_step_trans by blast

lemma decode_block_step:
  assumes inv: "hs_inv others s" and c: "ctx_inv others (hs_region s, ctx)"
    and len: "length block < 2 ^ 60" and dec: "decode_block sid block ctx s = Some (ok, s')"
  shows "hs_step others sid s s'" and "hs_streams s' sid \<noteq> None" and "hs_mgr s' = hs_mgr s"
proof -
  obtain d st c' where D: "Decode block (hs_decoder s, (hs_region s, ctx)) = Some (ok, (d, (st, c')))"
    and s': "s' = s\<lparr> hs_decoder := d, hs_region := st, hs_streams := (hs_streams s)(sid \<mapsto> c') \<rparr>"
    using dec by (auto simp: decode_block_def split: option.splits)
  have "hpack_ok others (hs_decoder s, (hs_region s, ctx))"
    using inv c by (simp add: hpack_ok_def hs_inv_def)
  from Decode_ok [OF this len D]
  have d: "hpack_inv d" and c': "ctx_inv others (st, c')" and k: "region_keeps others (hs_region s) st"
    by (simp_all add: hpack_step_def hpack_ok_def)
  have "hs_step others sid s (put_stream sid c' (s\<lparr> hs_region := st \<rparr>))"
    using hs_step_store [OF inv c' k] .
  then show "hs_step others sid s s'"
    using d by (simp add: hs_step_def hs_inv_def put_stream_def s')
  show "hs_streams s' sid \<noteq> None" "hs_mgr s' = hs_mgr s"
    by (simp_all add: s')
qed

lemma OnSettings_step:
  assumes inv: "hs_inv others s" and on: "OnSettings hdr payload s = Some s'"
  shows "hs_step others sid s s'"
proof -
  define st where "st = DecodeSettings (take (unat (fh_length hdr)) payload)"
  define s1 where "s1 = (case max_concurrent_streams st of None \<Rightarrow> s | Some v \<Rightarrow> s\<lparr> hs_peer_max_concurrent := v \<rparr>)"
  define s2 where "s2 = (case initial_window_size st of None \<Rightarrow> s1
      | Some v \<Rightarrow> s1\<lparr> hs_peer_initial_window := v, hs_fc := SetPeerInitialWindow v (hs_fc s1) \<rparr>)"
  have 1: "hs_step others sid s s1"
    using inv by (auto simp: s1_def hs_step_refl hs_step_fields split: option.splits)
  have "hs_step others sid s1 s2" if "hs_inv others s1"
  proof (cases "initial_window_size st")
    case (Some v)
    have "fc_inv (SetPeerInitialWindow v (hs_fc s1))"
      using that fc_inv_SetInitialWindow by (simp add: hs_inv_def SetPeerInitialWindow_def)
    then show ?thesis
      using that Some by (simp add: s2_def hs_step_def hs_inv_def)
  qed (use that in \<open>simp add: s2_def hs_step_refl\<close>)
  with 1 have 2: "hs_step others sid s s2"
    by (rule hs_step_then)
  have res: "s' = s \<or> s' = WriteSettingsAck s2 \<or> s' = connection_error PROTOCOL_ERROR s2
      \<or> (\<exists>v. 16384 \<le> v \<and> v \<le> 16777215 \<and> s' = WriteSettingsAck (s2\<lparr> hs_peer_max_frame := v \<rparr>))"
    using on unfolding OnSettings_def Let_def st_def [symmetric] s1_def [symmetric] s2_def [symmetric]
    by (auto simp: not_less split: if_splits option.splits)
  have "hs_step others sid s2 (WriteSettingsAck (s2\<lparr> hs_peer_max_frame := v \<rparr>))"
    if "hs_inv others s2" "16384 \<le> v" "v \<le> 16777215" for v
    using hs_step_then [OF hs_step_fields(10) [OF that] hs_step_writes(5)] .
  then show ?thesis
    using res hs_step_refl [OF inv] hs_step_then [OF 2] hs_step_writes by metis
qed

lemma OnHeaders_step:
  assumes inv: "hs_inv others s" and len: "length payload < 2 ^ 60" and on: "OnHeaders hdr payload s = Some s'"
  shows "hs_step others (sid_of hdr) s s'"
proof -
  let ?sid = "sid_of hdr"
  obtain ok mgr where op: "OnStreamOpen ?sid (hs_mgr s) = (ok, mgr)"
    by (cases "OnStreamOpen ?sid (hs_mgr s)")
  define s1 where "s1 = s\<lparr> hs_mgr := mgr \<rparr>"
  have 1: "hs_step others ?sid s s1"
    using inv OnStreamOpen_invD [OF op] by (simp add: s1_def hs_step_fields hs_inv_def)
  then have inv1: "hs_inv others s1"
    by (rule hs_step_inv)
  show ?thesis
  proof (cases ok)
    case False
    then show ?thesis
      using on op hs_step_then [OF 1 hs_step_writes(1)] by (auto simp: OnHeaders_def Let_def s1_def)
  next
    case True
    define ctx where "ctx = SetPool True (case hs_streams s1 ?sid of None \<Rightarrow> new_stream_context | Some c \<Rightarrow> c)"
    define s2 where "s2 = put_stream ?sid ctx s1"
    have ctx: "ctx_inv others (hs_region s1, ctx)"
    proof (cases "hs_streams s1 ?sid")
      case None
      then show ?thesis
        using inv1 ctx_inv_new by (simp add: ctx_def hs_inv_def)
    next
      case (Some c)
      then have "ctx_inv others (hs_region s1, c)"
        using hs_inv_stream [OF inv1] by simp
      then show ?thesis
        by (simp add: ctx_def Some ctx_inv_def ctx_offs_def SetPool_def)
    qed
    have 2: "hs_step others ?sid s s2"
      using hs_step_then [OF 1 hs_step_put] ctx by (simp add: s2_def)
    then have inv2: "hs_inv others s2"
      by (rule hs_step_inv)
    obtain n block where bl: "HeadersBlockLength hdr payload = Some n"
        "slice (HeadersBlockStart hdr) n payload = Some block"
      using on op True
      by (auto simp: OnHeaders_def Let_def split: option.splits if_splits)
    have blen: "length block < 2 ^ 60"
      using bl(2) len by (auto simp: slice_def split: if_splits)
    show ?thesis
    proof (cases "has_flag (fh_flags hdr) FLAG_END_HEADERS")
      case False
      then have "s' = s2\<lparr> hs_cont_sid := ?sid, hs_cont_block := block \<rparr>"
        using on op True bl unfolding OnHeaders_def Let_def
        by (auto simp: s1_def [symmetric] ctx_def [symmetric] s2_def put_stream_def split: if_splits)
      then show ?thesis
        using 2 by (simp add: hs_step_def hs_inv_def)
    next
      case fin: True
      have pick: "OnHeaders hdr payload s =
          (if has_flag (fh_flags hdr) FLAG_PRIORITY
              \<and> DecodePriority (drop (unat (HeadersBlockStart hdr) - 5) payload) = None then None
           else case decode_block ?sid block ctx s2 of None \<Rightarrow> None
                | Some (ok, s3) \<Rightarrow>
                    if \<not> ok then Some (WriteRstStream ?sid COMPRESSION_ERROR s3)
                    else if has_flag (fh_flags hdr) FLAG_END_STREAM \<or> ws_extended (the (hs_streams s3 ?sid))
                    then Some (s3\<lparr> hs_mgr := Enqueue ?sid (if has_flag (fh_flags hdr) FLAG_END_STREAM
                                then OnStreamEndStream ?sid (hs_mgr s3) else hs_mgr s3) \<rparr>)
                    else Some s3)"
        using op True bl fin unfolding OnHeaders_def Let_def
        by (simp add: s1_def [symmetric] ctx_def [symmetric] s2_def put_stream_def)
      then obtain ok3 s3 where db: "decode_block ?sid block ctx s2 = Some (ok3, s3)"
        using on by (cases "decode_block ?sid block ctx s2") (auto split: if_splits)
      have res: "s' = WriteRstStream ?sid COMPRESSION_ERROR s3 \<or> s' = s3
          \<or> (\<exists>m. (m = hs_mgr s3 \<or> m = OnStreamEndStream ?sid (hs_mgr s3))
                \<and> s' = s3\<lparr> hs_mgr := Enqueue ?sid m \<rparr>)"
        using on unfolding pick by (simp add: db split: if_splits) metis+
      have "hs_region s2 = hs_region s1"
        by (simp add: s2_def put_stream_def)
      then have 3: "hs_step others ?sid s2 s3"
        using decode_block_step(1) [OF inv2 _ blen db] ctx by simp
      have "hs_step others ?sid s3 (s3\<lparr> hs_mgr := Enqueue ?sid m \<rparr>)"
        if "m = hs_mgr s3 \<or> m = OnStreamEndStream ?sid (hs_mgr s3)" "hs_inv others s3" for m
        using that by (intro hs_step_fields) (auto simp: hs_inv_def)
      then have "hs_step others ?sid s3 s'"
        using res hs_step_inv [OF 3] hs_step_writes(1) hs_step_refl by metis
      then show ?thesis
        using hs_step_trans [OF 2 hs_step_trans [OF 3]] by blast
    qed
  qed
qed

lemma OnContinuation_step:
  assumes inv: "hs_inv others s" and len: "length (hs_cont_block s) + length payload < 2 ^ 60"
    and on: "OnContinuation hdr payload s = Some s'"
  shows "hs_step others (sid_of hdr) s s'"
proof (cases "sid_of hdr = hs_cont_sid s")
  case False
  then show ?thesis
    using on hs_step_writes(6) [OF inv] by (auto simp: OnContinuation_def)
next
  case True
  let ?sid = "sid_of hdr"
  define s1 where "s1 = s\<lparr> hs_cont_block := hs_cont_block s @ take (unat (fh_length hdr)) payload \<rparr>"
  define s2 where "s2 = s1\<lparr> hs_cont_sid := 0 \<rparr>"
  have 1: "hs_step others ?sid s s1" and 2: "hs_step others ?sid s s2"
    using inv by (simp_all add: s1_def s2_def hs_step_def hs_inv_def)
  have len2: "length (hs_cont_block s2) < 2 ^ 60"
    using len by (simp add: s2_def s1_def)
  have sid1: "hs_cont_sid s1 = ?sid"
    using True by (simp add: s1_def)
  consider "s' = s1" | "s' = WriteRstStream ?sid PROTOCOL_ERROR s2"
    | ctx ok s3 where "hs_streams s2 ?sid = Some ctx"
        "decode_block ?sid (hs_cont_block s2) ctx s2 = Some (ok, s3)"
        "s' = WriteRstStream ?sid COMPRESSION_ERROR s3 \<or> s' = s3\<lparr> hs_cont_block := [] \<rparr>"
    using on True sid1 unfolding OnContinuation_def Let_def s1_def [symmetric] s2_def [symmetric]
    by (auto split: if_splits option.splits)
  then show ?thesis
  proof cases
    case 1
    then show ?thesis
      using \<open>hs_step others ?sid s s1\<close> by simp
  next
    case 2
    then show ?thesis
      using hs_step_then [OF \<open>hs_step others ?sid s s2\<close> hs_step_writes(1)] by simp
  next
    case 3
    have inv2: "hs_inv others s2"
      using 2 by (rule hs_step_inv)
    have "hs_step others ?sid s2 s3"
      using decode_block_step(1) [OF inv2 hs_inv_stream [OF inv2 3(1)] len2 3(2)] .
    moreover from this have "hs_step others ?sid s3 s'"
      using 3(3) hs_step_writes(1) hs_step_fields(5) hs_step_inv by metis
    ultimately show ?thesis
      using 2 hs_step_trans by blast
  qed
qed

lemma ctx_inv_ws:
  "ctx_inv others (st, c) \<Longrightarrow> ctx_inv others (st, wake c)"
  "ctx_inv others (st, c) \<Longrightarrow> ctx_inv others (st, c\<lparr> ws_data_queue := q \<rparr>)"
  "ctx_inv others (st, c) \<Longrightarrow> ctx_inv others (st, c\<lparr> stream_closed := b \<rparr>)"
  "ctx_inv others (st, c) \<Longrightarrow> ctx_inv others (st, c\<lparr> ws_active := b \<rparr>)"
  by (auto simp: ctx_inv_def ctx_offs_def wake_def)

lemma window_update_step:
  assumes "hs_inv others s"
  shows "hs_step others sid s (window_update k s)"
proof -
  have "fc_inv (snd (PopCredit (of_int k) (hs_fc s)))"
    using assms fc_inv_PopCredit by (simp add: hs_inv_def)
  then show ?thesis
    using hs_step_refl [OF assms] hs_step_then [OF hs_step_fields(9) hs_step_writes(3), OF assms]
    by (auto simp: window_update_def split: prod.splits)
qed

lemma window_update_streams [simp]: "hs_streams (window_update k s) = hs_streams s"
  by (auto simp: window_update_def WriteWindowUpdate_def emit_frame_def split: prod.splits)

lemma deliver_data_step:
  assumes inv: "hs_inv others s" and ctx: "ctx_inv others (hs_region s, ctx)" and len: "length data < 2 ^ 63"
  shows "hs_step others sid s (deliver_data sid ctx data s)"
    and "hs_streams (deliver_data sid ctx data s) sid \<noteq> None"
proof -
  obtain st c where ab: "AppendBody data (hs_region s, ctx) = (st, c)"
    by (cases "AppendBody data (hs_region s, ctx)")
  have "ctx_inv others (hs_region s, wake (ctx\<lparr> ws_data_queue := ws_data_queue ctx @ [chars data] \<rparr>))"
    using ctx by (intro ctx_inv_ws)
  then show "hs_step others sid s (deliver_data sid ctx data s)"
    using hs_step_put [OF inv] hs_step_store [OF inv, of st c] AppendBody_keeps [OF ctx len] ab
    by (simp add: deliver_data_def)
  show "hs_streams (deliver_data sid ctx data s) sid \<noteq> None"
    using ab by (simp add: deliver_data_def put_stream_def)
qed

lemma end_data_step:
  assumes inv: "hs_inv others s" and c: "hs_streams s sid = Some c"
  shows "hs_step others sid s (end_data sid ws s)"
proof -
  define s1 where "s1 = s\<lparr> hs_mgr := OnStreamEndStream sid (hs_mgr s) \<rparr>"
  have 1: "hs_step others sid s s1"
    unfolding s1_def using inv by (intro hs_step_fields) (auto simp: hs_inv_def)
  then have inv1: "hs_inv others s1"
    by (rule hs_step_inv)
  have "hs_step others sid s1 (s1\<lparr> hs_mgr := Enqueue sid (hs_mgr s1) \<rparr>)"
    using inv1 by (intro hs_step_fields) (auto simp: hs_inv_def)
  moreover have "hs_step others sid s1
      (put_stream sid (wake ((the (hs_streams s1 sid))\<lparr> stream_closed := True \<rparr>)) s1)"
    using inv1 hs_inv_stream [OF inv c] c by (intro hs_step_put ctx_inv_ws) (simp_all add: s1_def)
  ultimately show ?thesis
    using hs_step_trans [OF 1] by (simp add: end_data_def Let_def s1_def)
qed

lemma OnData_step:
  assumes inv: "hs_inv others s" and len: "length payload < 2 ^ 60" and on: "OnData hdr payload s = Some s'"
  shows "hs_step others (sid_of hdr) s s'"
proof (cases "hs_streams s (sid_of hdr)")
  case None
  then show ?thesis
    using on hs_step_writes(1) [OF inv] by (auto simp: OnData_def Let_def)
next
  case (Some ctx)
  let ?sid = "sid_of hdr"
  obtain n data where sl: "DataLength hdr payload = Some n" "slice (DataOffset hdr) n payload = Some data"
    using on Some by (auto simp: OnData_def Let_def split: option.splits)
  define s1 where "s1 = s\<lparr> hs_fc := ConsumeBytes 0 (ucast n) (ConsumeBytes (of_int ?sid) (ucast n) (hs_fc s)) \<rparr>"
  define s2 where "s2 = deliver_data ?sid ctx data s1"
  define s3 where "s3 = window_update 0 (window_update ?sid s2)"
  have 1: "hs_step others ?sid s s1"
    using inv fc_inv_ConsumeBytes by (simp add: s1_def hs_step_fields hs_inv_def)
  have inv1: "hs_inv others s1" and ctx: "ctx_inv others (hs_region s1, ctx)"
    using hs_step_inv [OF 1] hs_inv_stream [OF inv Some] by (simp_all add: s1_def)
  have dlen: "length data < 2 ^ 63"
    using sl(2) len by (auto simp: slice_def split: if_splits)
  have 2: "hs_step others ?sid s s2"
    unfolding s2_def using hs_step_trans [OF 1] deliver_data_step(1) [OF inv1 ctx dlen] by blast
  then have 3: "hs_step others ?sid s s3"
    unfolding s3_def using window_update_step hs_step_then by blast
  have "hs_streams s3 ?sid \<noteq> None"
    using deliver_data_step(2) [OF inv1 ctx dlen] by (simp add: s3_def s2_def)
  then have 4: "hs_step others ?sid s3 (end_data ?sid (ws_active ctx) s3)"
    using end_data_step [OF hs_step_inv [OF 3]] by blast
  have "s' = WriteRstStream ?sid REFUSED_STREAM s2 \<or> s' = s3 \<or> s' = end_data ?sid (ws_active ctx) s3"
    using on Some sl unfolding OnData_def Let_def
    by (auto simp: s1_def [symmetric] s2_def [symmetric] s3_def [symmetric] split: if_splits)
  then show ?thesis
    using 3 hs_step_trans [OF 3 4] hs_step_then [OF 2 hs_step_writes(1)] by metis
qed

lemma OnRstStream_step:
  assumes inv: "hs_inv others s" and on: "OnRstStream hdr payload s = Some s'"
  shows "hs_step others (sid_of hdr) s s'"
proof -
  let ?sid = "sid_of hdr"
  define s1 where "s1 = s\<lparr> hs_mgr := OnStreamClose ?sid (hs_mgr s) \<rparr>"
  have 1: "hs_step others ?sid s s1"
    unfolding s1_def using inv by (intro hs_step_fields) (auto simp: hs_inv_def)
  have "s' = s1 \<or> (\<exists>c c1. hs_streams s1 ?sid = Some c \<and> c1 = c\<lparr> stream_closed := True \<rparr>
      \<and> s' = put_stream ?sid (if ws_active c1 then wake c1 else c1) s1)"
    using on unfolding OnRstStream_def Let_def s1_def [symmetric] by (auto split: option.splits)
  moreover have "hs_step others ?sid s1 (put_stream ?sid (if ws_active c1 then wake c1 else c1) s1)"
    if "hs_streams s1 ?sid = Some c" "c1 = c\<lparr> stream_closed := True \<rparr>" for c c1
    using hs_inv_stream [OF hs_step_inv [OF 1] that(1)] that(2) hs_step_inv [OF 1]
    by (intro hs_step_put) (auto intro: ctx_inv_ws)
  ultimately show ?thesis
    using 1 hs_step_trans by blast
qed

lemma ProcessFrame_step:
  assumes inv: "hs_inv others s" and len: "length (hs_cont_block s) + length payload < 2 ^ 60"
    and on: "ProcessFrame hdr payload s = Some s'"
  shows "hs_step others (sid_of hdr) s s'"
proof -
  have len': "length payload < 2 ^ 60"
    using len by simp
  have "hs_step others (sid_of hdr) s s'" if "OnPing hdr payload s = Some s'"
    using that hs_step_writes(4) [OF inv] hs_step_refl [OF inv]
    by (auto simp: OnPing_def split: if_splits)
  moreover have "hs_step others (sid_of hdr) s s'" if "OnGoAway hdr payload s = Some s'"
    using that hs_step_then [OF hs_step_fields(3) [OF inv] hs_step_writes(6)] hs_step_refl [OF inv]
      hs_step_fields(3) [OF inv]
    by (auto simp: OnGoAway_def Let_def split: if_splits)
  ultimately show ?thesis
    using on OnSettings_step [OF inv] OnHeaders_step [OF inv len'] OnData_step [OF inv len']
      OnRstStream_step [OF inv] OnContinuation_step [OF inv len] hs_step_refl [OF inv]
    unfolding ProcessFrame_def OnWindowUpdate_def OnPriority_def
    by (cases "fh_type hdr") simp_all
qed

section \<open>Framing\<close>

lemmas write_defs =
  WriteHeaders_def WriteData_def WriteRstStream_def WriteGoAway_def WriteWindowUpdate_def
  WritePingAck_def WriteSettingsAck_def emit_frame_def connection_error_def

lemma window_update_fields [simp]:
  "hs_peer_max_frame (window_update k s) = hs_peer_max_frame s" "hs_sent (window_update k s) = hs_sent s"
  by (auto simp: window_update_def write_defs split: prod.splits)

lemma deliver_data_fields [simp]:
  "hs_peer_max_frame (deliver_data sid c d s) = hs_peer_max_frame s"
  "hs_sent (deliver_data sid c d s) = hs_sent s"
  by (auto simp: deliver_data_def put_stream_def split: prod.splits)

lemma end_data_fields [simp]:
  "hs_peer_max_frame (end_data sid b s) = hs_peer_max_frame s" "hs_sent (end_data sid b s) = hs_sent s"
  by (auto simp: end_data_def put_stream_def Let_def)

lemma decode_block_fields:
  "decode_block sid block c s = Some (ok, s') \<Longrightarrow>
     hs_peer_max_frame s' = hs_peer_max_frame s \<and> hs_sent s' = hs_sent s \<and> hs_mgr s' = hs_mgr s"
  by (auto simp: decode_block_def split: option.splits)

lemma handler_fields:
  "OnHeaders hdr payload s = Some s' \<Longrightarrow> hs_peer_max_frame s' = hs_peer_max_frame s \<and> hs_sent s' = hs_sent s"
  "OnContinuation hdr payload s = Some s' \<Longrightarrow> hs_peer_max_frame s' = hs_peer_max_frame s \<and> hs_sent s' = hs_sent s"
  "OnData hdr payload s = Some s' \<Longrightarrow> hs_peer_max_frame s' = hs_peer_max_frame s \<and> hs_sent s' = hs_sent s"
  "OnRstStream hdr payload s = Some s' \<Longrightarrow> hs_peer_max_frame s' = hs_peer_max_frame s \<and> hs_sent s' = hs_sent s"
  "OnPing hdr payload s = Some s' \<Longrightarrow> hs_peer_max_frame s' = hs_peer_max_frame s \<and> hs_sent s' = hs_sent s"
  "OnGoAway hdr payload s = Some s' \<Longrightarrow> hs_peer_max_frame s' = hs_peer_max_frame s \<and> hs_sent s' = hs_sent s"
  by (auto simp: OnHeaders_def OnContinuation_def OnData_def OnRstStream_def OnPing_def OnGoAway_def
      write_defs put_stream_def Let_def
      split: option.splits prod.splits if_splits dest!: decode_block_fields)

lemma OnSettings_fields:
  "OnSettings hdr payload s = Some s' \<Longrightarrow>
     hs_sent s' = hs_sent s \<and> (16384 \<le> hs_peer_max_frame s \<longrightarrow> 16384 \<le> hs_peer_max_frame s')"
  by (auto simp: OnSettings_def write_defs Let_def not_less split: option.splits if_splits)

lemma ProcessFrame_fields:
  assumes "ProcessFrame hdr payload s = Some s'"
  shows "hs_sent s' = hs_sent s \<and> (16384 \<le> hs_peer_max_frame s \<longrightarrow> 16384 \<le> hs_peer_max_frame s')"
proof (cases "fh_type hdr")
  case SETTINGS
  then show ?thesis
    using assms OnSettings_fields [of hdr payload s s'] by (simp add: ProcessFrame_def)
next
  case HEADERS
  then show ?thesis
    using assms handler_fields(1) [of hdr payload s s'] by (simp add: ProcessFrame_def)
next
  case DATA
  then show ?thesis
    using assms handler_fields(3) [of hdr payload s s'] by (simp add: ProcessFrame_def)
next
  case RST_STREAM
  then show ?thesis
    using assms handler_fields(4) [of hdr payload s s'] by (simp add: ProcessFrame_def)
next
  case PING
  then show ?thesis
    using assms handler_fields(5) [of hdr payload s s'] by (simp add: ProcessFrame_def)
next
  case GOAWAY
  then show ?thesis
    using assms handler_fields(6) [of hdr payload s s'] by (simp add: ProcessFrame_def)
next
  case CONTINUATION
  then show ?thesis
    using assms handler_fields(2) [of hdr payload s s'] by (simp add: ProcessFrame_def)
qed (use assms in \<open>simp_all add: ProcessFrame_def OnWindowUpdate_def OnPriority_def\<close>)

text \<open>A frame as its header and payload; the frames of a buffer are followed by \<open>tail\<close>.\<close>

definition wire :: "(H2FrameHeader \<times> byte list) list \<Rightarrow> byte list" where
  "wire fs = concat (map (\<lambda>(h, p). EncodeFrameHeader h @ p) fs)"

definition wf_frame :: "H2FrameHeader \<times> byte list \<Rightarrow> bool" where
  "wf_frame f \<longleftrightarrow> wf_frame_header (fst f) \<and> unat (fh_length (fst f)) = length (snd f)
     \<and> fh_length (fst f) \<le> 16384"

fun run_frames :: "(H2FrameHeader \<times> byte list) list \<Rightarrow> byte list \<Rightarrow> H2Session \<Rightarrow> H2Session option" where
  "run_frames [] tail s = Some s"
| "run_frames ((h, p) # fs) tail s =
     (case ProcessFrame h (p @ wire fs @ tail) s of None \<Rightarrow> None | Some s' \<Rightarrow> run_frames fs tail s')"

lemma length_EncodeFrameHeader [simp]: "length (EncodeFrameHeader h) = 9"
  by (simp add: EncodeFrameHeader_def)

lemma parse_loop_frames:
  assumes "list_all wf_frame fs" and "16384 \<le> hs_peer_max_frame s" and "k < 9"
  shows "parse_loop (wire fs @ tail) (length (wire fs) + k) s =
    map_option (\<lambda>s'. (tail, k, s')) (run_frames fs tail s)"
  using assms(1,2)
proof (induction fs arbitrary: s)
  case Nil
  then show ?case
    using assms(3) by (simp add: parse_loop.simps wire_def kFrameHeaderSize_def)
next
  case (Cons f fs)
  obtain h p where f: "f = (h, p)"
    by (cases f)
  have wf: "wf_frame_header h" "unat (fh_length h) = length p" "fh_length h \<le> 16384"
    using Cons.prems(1) by (simp_all add: f wf_frame_def)
  have w: "wire (f # fs) = EncodeFrameHeader h @ p @ wire fs"
    by (simp add: wire_def f)
  have hdr: "DecodeFrameHeader (wire (f # fs) @ tail) = Some h"
    using frame_header_codec.dec_enc_append [OF wf(1)] by (simp add: w)
  have max: "\<not> hs_peer_max_frame s < fh_length h"
    using wf(3) Cons.prems(2) by simp
  let ?n = "9 + unat (fh_length h)"
  have drops: "drop 9 (wire (f # fs) @ tail) = p @ wire fs @ tail"
      "drop ?n (wire (f # fs) @ tail) = wire fs @ tail"
    using wf(2) by (simp_all add: w)
  have avail: "length (wire (f # fs)) + k - ?n = length (wire fs) + k" "?n \<le> length (wire (f # fs)) + k"
    using wf(2) by (simp_all add: w)
  have step: "parse_loop (wire (f # fs) @ tail) (length (wire (f # fs)) + k) s =
      (case ProcessFrame h (p @ wire fs @ tail) s of None \<Rightarrow> None
       | Some s' \<Rightarrow> parse_loop (wire fs @ tail) (length (wire fs) + k) s')"
    using hdr max avail drops
    by (subst parse_loop.simps) (simp add: kFrameHeaderSize_def Let_def del: drop_append split: option.split)
  show ?case
  proof (cases "ProcessFrame h (p @ wire fs @ tail) s")
    case None
    then show ?thesis
      unfolding step by (simp add: f)
  next
    case (Some s')
    have "16384 \<le> hs_peer_max_frame s'"
      using ProcessFrame_fields [OF Some] Cons.prems(2) by simp
    then show ?thesis
      unfolding step using Cons.IH [of s'] Cons.prems(1) Some by (simp add: f)
  qed
qed

lemma parse_loop_sent: "parse_loop rest n s = Some (rest', n', s') \<Longrightarrow> hs_sent s' = hs_sent s"
proof (induction rest n s rule: parse_loop.induct)
  case (1 rest n s)
  consider "s' = s" | "s' = connection_error FRAME_SIZE_ERROR s"
    | hdr s1 where "\<not> n < kFrameHeaderSize" "DecodeFrameHeader rest = Some hdr"
      "\<not> hs_peer_max_frame s < fh_length hdr" "\<not> n < kFrameHeaderSize + unat (fh_length hdr)"
      "ProcessFrame hdr (drop kFrameHeaderSize rest) s = Some s1"
      "parse_loop (drop (kFrameHeaderSize + unat (fh_length hdr)) rest)
        (n - (kFrameHeaderSize + unat (fh_length hdr))) s1 = Some (rest', n', s')"
    using "1.prems" by (subst (asm) parse_loop.simps) (auto simp: Let_def split: if_splits option.splits)
  then show ?case
  proof cases
    case 3
    have "hs_sent s' = hs_sent s1"
      using "1.IH" [OF 3(1-3) refl 3(4,5)] 3(6) by simp
    then show ?thesis
      using ProcessFrame_fields [OF 3(5)] by simp
  qed (simp_all add: write_defs)
qed

lemma on_read_sent: "on_read input s = Some s' \<Longrightarrow> hs_sent s' = hs_sent s"
  by (auto simp: on_read_def Let_def split: option.splits if_splits dest!: parse_loop_sent)

end
