(* ===== verification/H2_Requests.thy ===== *)
theory H2_Requests
  imports H2_Session
begin

text \<open>
  What an HTTP/2 session does with whole inputs: frames of a buffer in order, requests that
  are never answered, errors whose GOAWAY stays unsent, and the frames of a response.
\<close>

section \<open>A session to evaluate\<close>

definition sample_session :: H2Session where
  "sample_session = new_session (fst (InitRegion True (new_region_pool, new_session_region)),
     new_session_region) 0 []"

lemma sample_session_region: "hs_region sample_session = fst sample_ctx"
  by (simp add: sample_session_def new_session_def sample_ctx_def two_sessions_def Let_def
      split: prod.splits)

lemma sample_session_max: "hs_peer_max_frame sample_session = 16384"
  by (simp add: sample_session_def new_session_def)

lemma sample_session_inv: "hs_inv (map region_slot (tl (snd two_sessions))) sample_session"
proof -
  have "region_inv (map region_slot (tl (snd two_sessions))) (hs_region sample_session)"
    using sample_ctx_inv unfolding sample_session_region by (simp add: ctx_inv_def case_prod_unfold)
  then show ?thesis
    by (simp add: hs_inv_def)
      (simp add: sample_session_def new_session_def sm_inv_new hpack_inv_new fc_inv_new)
qed

section \<open>Streams\<close>



text \<open>C11. A buffer that holds whole frames within the size limit, followed by an incomplete frame
  header, is handled by processing exactly those frames, once each and in the order they were
  sent; parsing ends with the incomplete header.\<close>

theorem frames_processed_in_order:
  assumes "list_all wf_frame fs" and "16384 \<le> hs_peer_max_frame s" and "k < 9"
  shows "parse_loop (wire fs @ tail) (length (wire fs) + k) s =
    map_option (\<lambda>s'. (tail, k, s')) (run_frames fs tail s)"
  using assms by (rule parse_loop_frames)

theorem frames_processed_in_order_witness:
  "parse_loop (wire [(\<lparr> fh_length = 0, fh_type = SETTINGS, fh_flags = 1, fh_stream_id = 0 \<rparr>, []),
      (\<lparr> fh_length = 8, fh_type = PING, fh_flags = 0, fh_stream_id = 0 \<rparr>, [1, 2, 3, 4, 5, 6, 7, 8])]
      @ [0, 0]) 28 sample_session =
    Some ([0, 0], 2, WritePingAck [1, 2, 3, 4, 5, 6, 7, 8] sample_session)"
  using frames_processed_in_order [of
      "[(\<lparr> fh_length = 0, fh_type = SETTINGS, fh_flags = 1, fh_stream_id = 0 \<rparr>, []),
        (\<lparr> fh_length = 8, fh_type = PING, fh_flags = 0, fh_stream_id = 0 \<rparr>, [1, 2, 3, 4, 5, 6, 7, 8])]"
      sample_session 2 "[0, 0]"] sample_session_max
  by (simp add: wf_frame_def wf_frame_header_def wf_type_def wire_def DecodePing_def
      ProcessFrame_def OnSettings_def OnPing_def has_flag_def FLAG_ACK_def)

section \<open>Requests\<close>


lemma OnStreamOpen_pending: "sm_pending (snd (OnStreamOpen sid m)) = sm_pending m"
  by (auto simp: OnStreamOpen_def)

text \<open>A request whose header block needs CONTINUATION frames is never answered when it has no
  body: HEADERS with END_STREAM but without END_HEADERS, completed by a CONTINUATION frame,
  leaves the queue of requests as it was and the stream open.\<close>

theorem continued_request_never_queued:
  assumes "\<not> has_flag (fh_flags hdr) FLAG_END_HEADERS" and "OnHeaders hdr payload s = Some s1"
    and "OnContinuation hdr' payload' s1 = Some s2"
  shows "sm_pending (hs_mgr s2) = sm_pending (hs_mgr s)"
proof -
  have "sm_pending (hs_mgr s1) = sm_pending (hs_mgr s)"
    using assms(1,2) OnStreamOpen_pending [of "sid_of hdr" "hs_mgr s"]
    by (auto simp: OnHeaders_def Let_def split: prod.splits if_splits option.splits)
  moreover have "hs_mgr s2 = hs_mgr s1"
    using assms(3) by (auto simp: OnContinuation_def Let_def write_defs
        split: if_splits option.splits dest!: decode_block_fields)
  ultimately show ?thesis
    by simp
qed

theorem continued_request_never_queued_witness:
  "\<exists>s1 s2. OnHeaders \<lparr> fh_length = 0, fh_type = HEADERS, fh_flags = 1, fh_stream_id = 1 \<rparr> [] sample_session = Some s1
     \<and> OnContinuation \<lparr> fh_length = of_nat (length (Encode [('':path'', ''/a'')])), fh_type = CONTINUATION,
          fh_flags = 4, fh_stream_id = 1 \<rparr> (Encode [('':path'', ''/a'')]) s1 = Some s2
     \<and> sm_pending (hs_mgr s2) = []"
proof -
  let ?h = "\<lparr> fh_length = 0, fh_type = HEADERS, fh_flags = 1, fh_stream_id = 1 \<rparr> :: H2FrameHeader"
  let ?b = "Encode [('':path'', ''/a'')]"
  let ?h' = "\<lparr> fh_length = of_nat (length ?b), fh_type = CONTINUATION, fh_flags = 4, fh_stream_id = 1 \<rparr> :: H2FrameHeader"
  define m where "m = snd (OnStreamOpen 1 new_stream_manager)"
  have m: "OnStreamOpen 1 new_stream_manager = (True, m)"
    by (simp add: m_def OnStreamOpen_def new_stream_manager_def)
  define s1 where "s1 = sample_session\<lparr> hs_mgr := m, hs_streams := [1 \<mapsto> SetPool True new_stream_context],
      hs_cont_sid := 1, hs_cont_block := [] \<rparr>"
  have fields: "hs_streams sample_session = Map.empty" "hs_mgr sample_session = new_stream_manager"
    by (simp_all add: sample_session_def new_session_def)
  have 1: "OnHeaders ?h [] sample_session = Some s1"
    by (simp add: OnHeaders_def sid_of_def m fields has_flag_def FLAG_PADDED_def FLAG_PRIORITY_def
        FLAG_END_HEADERS_def HeadersBlockLength_def HeadersBlockStart_def slice_def s1_def)
  obtain sc' where "Decode ?b (hs_decoder s1, sample_ctx) = Some (True, (hs_decoder s1, sc'))"
    using encode_decode_all [OF sample_ctx_inv, of "[('':path'', ''/a'')]" "hs_decoder s1"] sample_ctx_room [of 32]
    by (auto simp: valid_field_def field_room_def align8_def kAlign_def)
  moreover have "(hs_region s1, SetPool True new_stream_context) = sample_ctx"
    using sample_session_region by (simp add: s1_def sample_ctx_def)
  moreover have "length ?b < 100"
    by code_simp
  then have len: "length ?b < 2 ^ 32"
    by simp
  ultimately have dec: "decode_block 1 ?b (SetPool True new_stream_context) (s1\<lparr> hs_cont_block := ?b, hs_cont_sid := 0 \<rparr>) \<noteq> None"
    by (cases sc') (simp add: decode_block_def)
  have "OnContinuation ?h' ?b s1 \<noteq> None"
    using dec unat_of_nat_u32 [OF len]
    by (auto simp: OnContinuation_def sid_of_def s1_def has_flag_def FLAG_END_HEADERS_def Let_def)
  then obtain s2 where 2: "OnContinuation ?h' ?b s1 = Some s2"
    by blast
  have "\<not> has_flag (fh_flags ?h) FLAG_END_HEADERS"
    by (simp add: has_flag_def FLAG_END_HEADERS_def)
  from continued_request_never_queued [OF this 1 2] show ?thesis
    using 1 2 by (auto simp: fields new_stream_manager_def)
qed

section \<open>Errors and accounting\<close>

text \<open>A connection error found while parsing is never reported to the peer: the GOAWAY frame
  is appended to the output, the loop ends, and because \<open>goaway_sent_\<close> is already set nothing
  flushes the output before the session finishes.\<close>

theorem goaway_not_flushed:
  assumes "\<not> hs_goaway_received s" and "\<not> hs_goaway_sent s"
    and "LastClientStreamId s \<noteq> 0" and "DecodeFrameHeader input = Some hdr"
    and "hs_peer_max_frame s < fh_length hdr"
  shows "\<exists>s'. run_session serve wh date (input # inputs) s = Some s' \<and> hs_sent s' = hs_sent s
    \<and> hs_output s' = hs_output (WriteGoAway (LastClientStreamId s) FRAME_SIZE_ERROR s)"
proof -
  have len: "9 \<le> length input"
    using assms(4) frame_header_codec.dec_short [of input] by fastforce
  have dec: "DecodeFrameHeader (input @ rest) = Some hdr" for rest
    using assms(4) len frame_header_codec.dec_local [of input] frame_header_codec.dec_local [of "input @ rest"]
    by simp
  show ?thesis
    using assms len dec
    by (auto simp: on_read_def Let_def LastClientStreamId_def parse_loop.simps kFrameHeaderSize_def
        finish_session_def write_defs)
qed

theorem goaway_not_flushed_witness:
  "\<exists>s'. run_session (\<lambda>(st, c). (Threw, st)) (\<lambda>_. False) [] [[1, 0, 0, 0, 0, 0, 0, 0, 1]]
      (sample_session\<lparr> hs_mgr := snd (OnStreamOpen 1 new_stream_manager) \<rparr>) = Some s' \<and> hs_sent s' = []"
proof -
  let ?s = "sample_session\<lparr> hs_mgr := snd (OnStreamOpen 1 new_stream_manager) \<rparr>"
  have "\<not> hs_goaway_received ?s" "\<not> hs_goaway_sent ?s" "hs_sent ?s = []" "hs_peer_max_frame ?s = 16384"
    by (simp_all add: sample_session_def new_session_def)
  moreover have "LastClientStreamId ?s \<noteq> 0"
    by (simp add: LastClientStreamId_def OnStreamOpen_def new_stream_manager_def)
  ultimately show ?thesis
    using goaway_not_flushed [of ?s "[1, 0, 0, 0, 0, 0, 0, 0, 1]"
        "\<lparr> fh_length = 65536, fh_type = DATA, fh_flags = 0, fh_stream_id = 1 \<rparr>" "\<lambda>(st, c). (Threw, st)" "\<lambda>_. False" "[]" "[]"]
    by (auto simp: be24_def be32_def frame_type_def)
qed

lemma deliver_data_fc [simp]: "hs_fc (deliver_data sid c d s) = hs_fc s"
  by (auto simp: deliver_data_def put_stream_def split: prod.splits)

lemma end_data_fc [simp]: "hs_fc (end_data sid b s) = hs_fc s"
  by (auto simp: end_data_def put_stream_def Let_def)

text \<open>The bytes of a DATA frame are charged to the connection's window twice: after a frame
  with \<open>n\<close> bytes of data that triggers no WINDOW\_UPDATE, the connection has consumed \<open>2 * n\<close>
  bytes more and the stream \<open>n\<close>.\<close>

theorem data_charged_twice:
  assumes "hs_streams s (sid_of hdr) = Some ctx" and "fh_stream_id hdr \<noteq> 0"
    and "OnData hdr payload s = Some s'" and "DataLength hdr payload = Some n"
    and "streams_w (hs_fc s) (fh_stream_id hdr) = Some w"
    and "consumed w + ucast n < initial_window_size_c (hs_fc s) div 2"
    and "consumed (conn_w (hs_fc s)) + 2 * ucast n < initial_window_size_c (hs_fc s) div 2"
  shows "consumed (conn_w (hs_fc s')) = consumed (conn_w (hs_fc s)) + 2 * ucast n
    \<and> map_option consumed (streams_w (hs_fc s') (fh_stream_id hdr)) = Some (consumed w + ucast n)"
proof -
  have sid: "of_int (sid_of hdr) = fh_stream_id hdr"
    by (simp add: sid_of_def)
  let ?fc = "ConsumeBytes 0 (ucast n) (ConsumeBytes (fh_stream_id hdr) (ucast n) (hs_fc s))"
  have fc: "streams_w ?fc (fh_stream_id hdr) = Some \<lparr> credit = credit w - ucast n, consumed = consumed w + ucast n \<rparr>"
    "consumed (conn_w ?fc) = consumed (conn_w (hs_fc s)) + 2 * ucast n"
    "initial_window_size_c ?fc = initial_window_size_c (hs_fc s)"
    using assms(2,5) by (simp_all add: ConsumeBytes_def GetOrCreate_def put_window_def)
  have "\<not> ShouldUpdate ?fc (fh_stream_id hdr)" "\<not> ShouldUpdate ?fc 0"
    using assms(2,6,7) fc by (simp_all add: ShouldUpdate_def not_le)
  then have upd: "window_update 0 (window_update (sid_of hdr) t) = t" if "hs_fc t = ?fc" for t
    using that by (simp add: window_update_def sid)
  have "hs_fc s' = ?fc"
    using assms(1,3,4) by (auto simp: OnData_def Let_def sid upd write_defs split: option.splits if_splits)
  then show ?thesis
    using fc by simp
qed

theorem data_charged_twice_witness:
  "consumed (conn_w (hs_fc (the (OnData \<lparr> fh_length = 100, fh_type = DATA, fh_flags = 0, fh_stream_id = 1 \<rparr>
      (replicate 100 0) (sample_session\<lparr> hs_streams := [1 \<mapsto> SetPool True new_stream_context],
         hs_fc := ConsumeBytes 1 0 (new_flow_control 65535) \<rparr>))))) = 200"
proof -
  let ?h = "\<lparr> fh_length = 100, fh_type = DATA, fh_flags = 0, fh_stream_id = 1 \<rparr> :: H2FrameHeader"
  let ?s = "sample_session\<lparr> hs_streams := [1 \<mapsto> SetPool True new_stream_context],
         hs_fc := ConsumeBytes 1 0 (new_flow_control 65535) \<rparr>"
  have dl: "DataLength ?h (replicate 100 0) = Some 100"
    by (simp add: DataLength_def has_flag_def FLAG_PADDED_def)
  then have "OnData ?h (replicate 100 0) ?s \<noteq> None"
    by (simp add: OnData_def sid_of_def Let_def slice_def DataOffset_def has_flag_def FLAG_PADDED_def)
  then obtain s' where s': "OnData ?h (replicate 100 0) ?s = Some s'"
    by blast
  have "streams_w (hs_fc ?s) 1 = Some \<lparr> credit = 65535, consumed = 0 \<rparr>" "consumed (conn_w (hs_fc ?s)) = 0"
    "initial_window_size_c (hs_fc ?s) = 65535"
    by (simp_all add: ConsumeBytes_def GetOrCreate_def put_window_def new_flow_control_def Let_def)
  then show ?thesis
    using data_charged_twice [OF _ _ s' dl] s' by (simp add: sid_of_def)
qed

section \<open>Responses\<close>

definition response_frames :: "int \<Rightarrow> byte list \<Rightarrow> byte list \<Rightarrow> (H2FrameHeader \<times> byte list) list" where
  "response_frames sid block body =
     [(\<lparr> fh_length = of_nat (length block), fh_type = HEADERS, fh_flags = FLAG_END_HEADERS,
         fh_stream_id = of_int sid \<rparr>, block),
      (\<lparr> fh_length = of_nat (length body), fh_type = DATA, fh_flags = FLAG_END_STREAM,
         fh_stream_id = of_int sid \<rparr>, body)]"

lemma unat_of_int_u32: "0 < i \<Longrightarrow> i < 2 ^ 31 \<Longrightarrow> unat (of_int i :: u32) = nat i"
  using take_bit_int_eq_self [of i 32] by (simp add: unsigned_of_int)

lemma drop_stream_fields [simp]:
  "hs_output (drop_stream sid s) = hs_output s" "hs_streams (drop_stream sid s) = (hs_streams s)(sid := None)"
  by (simp_all add: drop_stream_def)



lemma be24_of_bytes: "be24 (byte_of 2 v) (byte_of 1 v) (byte_of 0 v) = take_bit 24 (v :: u32)"
  by (rule bit_word_eqI) (auto simp: bit_take_bit_iff be_bits)

text \<open>A DATA frame carries the whole body whatever its size, so the 24-bit length field of
  its header holds the size modulo \<open>2\<^sup>2\<^sup>4\<close>: a peer reads the rest of a larger body as further
  frames.\<close>

theorem data_frame_length_truncated:
  assumes "length data < 2 ^ 32"
  shows "\<exists>h. DecodeFrameHeader (drop (length (hs_output s)) (hs_output (WriteData sid data fin s))) = Some h
    \<and> unat (fh_length h) = length data mod 2 ^ 24"
proof -
  have "unat (take_bit 24 (of_nat (length data) :: u32)) = length data mod 2 ^ 24"
    using unat_of_nat_u32 [OF assms] by (simp only: unsigned_take_bit_eq) (simp add: take_bit_eq_mod)
  then show ?thesis
    using be24_of_bytes [of "of_nat (length data)"]
    by (simp add: write_defs frame_bytes_def EncodeFrameHeader_def del: take_bit_of_nat)
qed

theorem data_frame_length_truncated_witness:
  "\<exists>data h. length data = 16777221
    \<and> DecodeFrameHeader (hs_output (WriteData 1 data True sample_session)) = Some h
    \<and> unat (fh_length h) = 5"
proof -
  obtain data :: "byte list" where "length data = 16777221"
    using Ex_list_of_length by blast
  then show ?thesis
    using data_frame_length_truncated [of data sample_session 1 True]
    by (auto simp: sample_session_def new_session_def)
qed

end
