(* ===== verification/Ws_Handlers.thy ===== *)
theory Ws_Handlers
  imports Ws_Frame H2_Requests
begin

text \<open>
  WebSocket handlers over both kinds of connection: the connection object of an HTTP/2 extended
  CONNECT stream (\<^verbatim>\<open>http/http2/ws_connection.hpp\<close>), the echo handler (\<^verbatim>\<open>handler/ws_echo.hpp\<close>),
  and the interface the handlers are written against as the locale \<open>ws_peer\<close>.

  An operation on an HTTP/2 connection object acts on the session as well: on its output
  buffer, and on the stream context it holds a reference to (\<open>None\<close> once the stream is gone).
\<close>

section \<open>WebSocket over HTTP/2\<close>

record H2WsConnection =
  h2ws_sid :: int
  h2ws_closed :: bool

type_synonym h2ws_state = "H2WsConnection \<times> H2Session"

definition new_h2ws :: "int \<Rightarrow> H2Session \<Rightarrow> h2ws_state option" where
  "new_h2ws sid s =
     map_option (\<lambda>c. (\<lparr> h2ws_sid = sid, h2ws_closed = False \<rparr>, put_stream sid (c\<lparr> ws_wakeup := True \<rparr>) s))
       (hs_streams s sid)"

text \<open>
  One round of the loop of \<^verbatim>\<open>Read\<close>: \<open>Wait\<close> is the suspension on the wake-up timer, after
  which the loop tests its conditions again.
\<close>

datatype h2ws_read = Wait | Got WsFrame

definition H2WsRead :: "h2ws_state \<Rightarrow> (h2ws_read \<times> h2ws_state) option" where
  "H2WsRead cs =
     (case cs of (c, s) \<Rightarrow>
        map_option (\<lambda>ctx.
          if h2ws_closed c \<or> ws_closed ctx
          then (Got empty_frame, c\<lparr> h2ws_closed := True \<rparr>, s)
          else case ws_data_queue ctx of
                 data # rest \<Rightarrow>
                   (Got \<lparr> fin = True, opcode = Binary, payload = bytes data \<rparr>,
                    c, put_stream (h2ws_sid c) (ctx\<lparr> ws_data_queue := rest \<rparr>) s)
               | [] \<Rightarrow>
                   (if stream_closed ctx then (Got empty_frame, c\<lparr> h2ws_closed := True \<rparr>, s)
                    else (Wait, c, s)))
          (hs_streams s (h2ws_sid c)))"

definition H2WsSend :: "WsOpcode \<Rightarrow> byte list \<Rightarrow> bool \<Rightarrow> h2ws_state \<Rightarrow> h2ws_state option" where
  "H2WsSend op p f cs =
     (case cs of (c, s) \<Rightarrow>
        map_option (\<lambda>ctx.
          if h2ws_closed c \<or> ws_closed ctx then (c, s)
          else
            let s1 = emit_frame DATA (if f then FLAG_END_STREAM else 0) (of_int (h2ws_sid c)) p s
            in (if f then c\<lparr> h2ws_closed := True \<rparr> else c,
                snd (FlushOutput
                  (if f then put_stream (h2ws_sid c) (ctx\<lparr> ws_closed := True \<rparr>) s1 else s1))))
          (hs_streams s (h2ws_sid c)))"

definition H2WsClose :: "u16 \<Rightarrow> byte list \<Rightarrow> h2ws_state \<Rightarrow> h2ws_state option" where
  "H2WsClose code reason cs =
     (case cs of (c, s) \<Rightarrow>
        map_option (\<lambda>ctx.
          if h2ws_closed c \<or> ws_closed ctx then (c, s)
          else
            let p = ucast (drop_bit 8 code) # ucast (code AND 0xFF) # reason
            in (c\<lparr> h2ws_closed := True \<rparr>,
                snd (FlushOutput
                  (emit_frame DATA FLAG_END_STREAM (of_int (h2ws_sid c)) p
                    (put_stream (h2ws_sid c) (ctx\<lparr> ws_closed := True \<rparr>) s)))))
          (hs_streams s (h2ws_sid c)))"

definition MarkClosed :: "h2ws_state \<Rightarrow> h2ws_state option" where
  "MarkClosed cs =
     (case cs of (c, s) \<Rightarrow>
        map_option (\<lambda>ctx. (c\<lparr> h2ws_closed := True \<rparr>,
            put_stream (h2ws_sid c) (ctx\<lparr> ws_closed := True, ws_cancelled := True \<rparr>) s))
          (hs_streams s (h2ws_sid c)))"

section \<open>The echo handler\<close>

text \<open>
  The loop of \<^verbatim>\<open>WsEchoHandler::HandleWebSocket\<close> over any connection. A read that has to wait
  returns \<open>None\<close> and leaves the handler suspended; fuel bounds the number of messages.
\<close>

primrec HandleWebSocket ::
  "('s \<Rightarrow> (WsFrame \<times> 's) option) \<Rightarrow> (WsOpcode \<Rightarrow> byte list \<Rightarrow> bool \<Rightarrow> 's \<Rightarrow> 's) \<Rightarrow> nat \<Rightarrow> 's \<Rightarrow> bool \<times> 's" where
  "HandleWebSocket read send 0 s = (False, s)"
| "HandleWebSocket read send (Suc n) s =
     (case read s of
        None \<Rightarrow> (False, s)
      | Some (frame, s1) \<Rightarrow>
          if payload frame = [] then (True, s1)
          else HandleWebSocket read send n (send (opcode frame) (payload frame) True s1))"

text \<open>
  \<open>ws_peer\<close> is what the handler may assume of a connection: \<open>inbox s frs\<close> says that the frames
  \<open>frs\<close> are all that is still to be read, \<open>out\<close> is what has been written, \<open>wire\<close> the form
  in which a frame is written.
\<close>

locale ws_peer =
  fixes read :: "'s \<Rightarrow> (WsFrame \<times> 's) option"
    and send :: "WsOpcode \<Rightarrow> byte list \<Rightarrow> bool \<Rightarrow> 's \<Rightarrow> 's"
    and inbox :: "'s \<Rightarrow> WsFrame list \<Rightarrow> bool"
    and out :: "'s \<Rightarrow> byte list"
    and wire :: "WsFrame \<Rightarrow> byte list"
  assumes read_next: "inbox s (fr # frs) \<Longrightarrow> \<exists>s'. read s = Some (fr, s') \<and> inbox s' frs \<and> out s' = out s"
    and read_end: "inbox s [] \<Longrightarrow> \<exists>s'. read s = Some (empty_frame, s') \<and> inbox s' [] \<and> out s' = out s"
    and send_out: "out (send op p f s) = out s @ wire \<lparr> fin = f, opcode = op, payload = p \<rparr>"
    and send_inbox: "inbox s frs \<Longrightarrow> inbox (send op p f s) frs"
begin

lemma echo_all:
  "inbox s frs \<Longrightarrow> list_all (\<lambda>fr. payload fr \<noteq> []) frs \<Longrightarrow> length frs < n \<Longrightarrow>
   \<exists>s'. HandleWebSocket read send n s = (True, s') \<and> inbox s' []
      \<and> out s' = out s @ concat (map (\<lambda>fr. wire (fr\<lparr> fin := True \<rparr>)) frs)"
proof (induction frs arbitrary: s n)
  case Nil
  then obtain s' k where "read s = Some (empty_frame, s')" "inbox s' []" "out s' = out s" "n = Suc k"
    using read_end [of s] by (cases n) auto
  then show ?case
    by (simp add: empty_frame_def)
next
  case (Cons fr frs)
  then obtain s1 k where s1: "read s = Some (fr, s1)" "inbox s1 frs" "out s1 = out s" "n = Suc k"
    using read_next [of s fr frs] by (cases n) auto
  let ?s2 = "send (opcode fr) (payload fr) True s1"
  obtain s' where "HandleWebSocket read send k ?s2 = (True, s')" "inbox s' []"
    "out s' = out ?s2 @ concat (map (\<lambda>fr. wire (fr\<lparr> fin := True \<rparr>)) frs)"
    using Cons.IH [of ?s2 k] Cons.prems s1(2,4) send_inbox by auto
  moreover have "\<lparr> fin = True, opcode = opcode fr, payload = payload fr \<rparr> = fr\<lparr> fin := True \<rparr>"
    by (cases fr) simp
  ultimately show ?case
    using s1 Cons.prems(2) by (simp add: send_out)
qed

end

text \<open>The frames a TCP or TLS connection still has to deliver.\<close>

definition data_frame :: "WsFrame \<Rightarrow> bool" where
  "data_frame fr \<longleftrightarrow>
     wf_ws_frame fr \<and> opcode fr \<notin> {Ping, Pong, Close} \<and> (payload fr \<noteq> [] \<or> fin fr)"

definition ws_inbox :: "bool \<Rightarrow> WsConnection \<Rightarrow> WsFrame list \<Rightarrow> bool" where
  "ws_inbox m w frs \<longleftrightarrow>
     list_all data_frame frs \<and> concat (conn_in w) = concat (map (ws_frame_bytes m) frs)"

lemma Read_eof:
  assumes "concat (conn_in w) = []"
  obtains w' where "Read (\<lambda>_. False) w = (empty_frame, w')" "concat (conn_in w') = []"
    "conn_out w' = conn_out w"
proof -
  obtain s' where "ReadFrame (conn_in w) = (empty_frame, s')" "concat s' = []"
    using ReadFrame_eof [OF assms] by blast
  with that show thesis
    by (subst (asm) Read.simps [of "\<lambda>_. False"]) (simp add: empty_frame_def)
qed

interpretation ws_tcp: ws_peer "\<lambda>w. Some (Read (\<lambda>_. False) w)" SendWs "ws_inbox m" conn_out "ws_frame_bytes False"
  for m
proof
  fix w frs and fr :: WsFrame
  assume i: "ws_inbox m w (fr # frs)"
  then obtain w' where "Read (\<lambda>_. False) w = (fr, w')" "conn_out w' = conn_out w"
    "concat (conn_in w') = concat (map (ws_frame_bytes m) frs)"
    using Read_data [of fr w m "concat (map (ws_frame_bytes m) frs)"]
    by (auto simp: ws_inbox_def data_frame_def)
  with i show "\<exists>w'. Some (Read (\<lambda>_. False) w) = Some (fr, w') \<and> ws_inbox m w' frs \<and> conn_out w' = conn_out w"
    by (auto simp: ws_inbox_def)
next
  fix w
  assume "ws_inbox m w []"
  then obtain w' where "Read (\<lambda>_. False) w = (empty_frame, w')" "concat (conn_in w') = []"
    "conn_out w' = conn_out w"
    using Read_eof [of w] by (auto simp: ws_inbox_def simp del: concat_eq_Nil_conv)
  then show "\<exists>w'. Some (Read (\<lambda>_. False) w) = Some (empty_frame, w') \<and> ws_inbox m w' [] \<and> conn_out w' = conn_out w"
    by (auto simp: ws_inbox_def)
qed (simp_all add: SendWs_def write_conn_def ws_frame_bytes_def ws_inbox_def)

text \<open>Over a TCP or TLS connection the echo handler sends back every data frame once, in order
  and with its opcode, and returns when the client's bytes are used up.\<close>

theorem echo_complete:
  assumes "list_all data_frame frs" and "list_all (\<lambda>fr. payload fr \<noteq> []) frs"
    and "concat (conn_in w) = concat (map (ws_frame_bytes m) frs)" and "length frs < n"
  shows "\<exists>w'. HandleWebSocket (\<lambda>w. Some (Read (\<lambda>_. False) w)) SendWs n w = (True, w')
     \<and> conn_out w' = conn_out w @ concat (map (\<lambda>fr. ws_frame_bytes False (fr\<lparr> fin := True \<rparr>)) frs)"
  using ws_tcp.echo_all [of m w frs n] assms by (auto simp: ws_inbox_def)

theorem echo_complete_witness:
  "\<exists>w'. HandleWebSocket (\<lambda>w. Some (Read (\<lambda>_. False) w)) SendWs 3
       (new_ws_connection [[0x01, 0x82, 0, 0, 0], [0, 0x68, 0x69, 0x80, 0x81, 0, 0, 0, 0, 0x21]] 0) = (True, w')
     \<and> conn_out w' = [0x81, 0x02, 0x68, 0x69, 0x80, 0x01, 0x21]"
proof -
  have "concat (map (\<lambda>fr. ws_frame_bytes False (fr\<lparr> fin := True \<rparr>)) hello_frames)
      = [0x81, 0x02, 0x68, 0x69, 0x80, 0x01, 0x21]"
    by code_simp
  moreover have "list_all data_frame hello_frames" "list_all (\<lambda>fr. payload fr \<noteq> []) hello_frames"
    by (simp_all add: hello_frames_def data_frame_def wf_ws_frame_def wf_opcode_def)
  ultimately show ?thesis
    using echo_complete [of hello_frames
        "new_ws_connection [[0x01, 0x82, 0, 0, 0], [0, 0x68, 0x69, 0x80, 0x81, 0, 0, 0, 0, 0x21]] 0" True 3]
    by (simp add: hello_bytes length_hello new_ws_connection_def)
qed

section \<open>Data of an HTTP/2 WebSocket stream\<close>

lemma OnData_queue:
  assumes "hs_streams s (sid_of hdr) = Some ctx" and "ws_active ctx"
    and "\<not> has_flag (fh_flags hdr) FLAG_PADDED" and "\<not> has_flag (fh_flags hdr) FLAG_END_STREAM"
    and "unat (fh_length hdr) = length d"
  shows "\<exists>s'. OnData hdr (d @ rest) s = Some s' \<and> hs_streams s' (sid_of hdr)
           = Some (wake (ctx\<lparr> ws_data_queue := ws_data_queue ctx @ [chars d] \<rparr>))"
  using assms
  by (simp add: OnData_def DataLength_def DataOffset_def slice_def unat_ucast_up Let_def
      deliver_data_def put_stream_def)

lemma bytes_chars: "bytes (chars d) = d"
  by (simp add: bytes_def chars_def comp_def map_idI unat_byte_lt)

lemma wake_fields [simp]:
  "ws_active (wake c) = ws_active c" "ws_closed (wake c) = ws_closed c"
  "ws_data_queue (wake c) = ws_data_queue c" "stream_closed (wake c) = stream_closed c"
  by (simp_all add: wake_def)

text \<open>A DATA frame without padding that leaves the stream open.\<close>

definition plain_data :: "int \<Rightarrow> H2FrameHeader \<times> byte list \<Rightarrow> bool" where
  "plain_data sid f \<longleftrightarrow>
     (case f of (hdr, d) \<Rightarrow> sid_of hdr = sid \<and> \<not> has_flag (fh_flags hdr) FLAG_PADDED
        \<and> \<not> has_flag (fh_flags hdr) FLAG_END_STREAM \<and> unat (fh_length hdr) = length d)"

lemma OnData_queues:
  "list_all (plain_data sid) fs \<Longrightarrow> hs_streams s sid = Some ctx \<Longrightarrow> ws_active ctx \<Longrightarrow>
   \<exists>s' ctx'. run_ops (\<lambda>(hdr, d). OnData hdr d) fs s = Some s' \<and> hs_streams s' sid = Some ctx'
     \<and> ws_data_queue ctx' = ws_data_queue ctx @ map (chars \<circ> snd) fs \<and> ws_closed ctx' = ws_closed ctx
     \<and> stream_closed ctx' = stream_closed ctx"
proof (induction fs arbitrary: s ctx)
  case (Cons f fs)
  obtain hdr d where f: "f = (hdr, d)"
    by fastforce
  define ctx1 where "ctx1 = wake (ctx\<lparr> ws_data_queue := ws_data_queue ctx @ [chars d] \<rparr>)"
  obtain s1 where "OnData hdr d s = Some s1" "hs_streams s1 sid = Some ctx1"
    using OnData_queue [of s hdr ctx d "[]"] Cons.prems by (auto simp: f plain_data_def ctx1_def)
  with Cons.IH [of s1 ctx1] Cons.prems show ?case
    by (auto simp: f ctx1_def)
qed auto

primrec h2ws_reads :: "nat \<Rightarrow> h2ws_state \<Rightarrow> (h2ws_read list \<times> h2ws_state) option" where
  "h2ws_reads 0 cs = Some ([], cs)"
| "h2ws_reads (Suc n) cs =
     (case H2WsRead cs of None \<Rightarrow> None
      | Some (r, cs1) \<Rightarrow> map_option (\<lambda>(rs, cs2). (r # rs, cs2)) (h2ws_reads n cs1))"

lemma h2ws_reads_queue:
  "hs_streams s (h2ws_sid c) = Some ctx \<Longrightarrow> \<not> h2ws_closed c \<Longrightarrow> \<not> ws_closed ctx \<Longrightarrow>
   \<not> stream_closed ctx \<Longrightarrow> \<exists>cs'. h2ws_reads (Suc (length (ws_data_queue ctx))) (c, s) =
     Some (map (\<lambda>d. Got \<lparr> fin = True, opcode = Binary, payload = bytes d \<rparr>) (ws_data_queue ctx) @ [Wait], cs')"
proof (induction "ws_data_queue ctx" arbitrary: s ctx)
  case Nil
  then show ?case
    by (simp add: H2WsRead_def)
next
  case (Cons d ds)
  let ?ctx = "ctx\<lparr> ws_data_queue := ds \<rparr>"
  have "\<exists>cs'. h2ws_reads (Suc (length (ws_data_queue ?ctx))) (c, put_stream (h2ws_sid c) ?ctx s) =
     Some (map (\<lambda>d. Got \<lparr> fin = True, opcode = Binary, payload = bytes d \<rparr>) (ws_data_queue ?ctx) @ [Wait], cs')"
    using Cons.prems by (intro Cons.hyps(1)) (auto simp: put_stream_def)
  moreover have "H2WsRead (c, s) = Some (Got \<lparr> fin = True, opcode = Binary, payload = bytes d \<rparr>, c,
      put_stream (h2ws_sid c) ?ctx s)"
    using Cons.prems Cons.hyps(2) [symmetric] by (simp add: H2WsRead_def)
  ultimately show ?case
    using Cons.hyps(2) [symmetric] by (auto simp del: h2ws_reads.simps(2) simp: h2ws_reads.simps(2) [of "Suc (length ds)"])
qed

text \<open>C20. On an open WebSocket stream the payloads of the DATA frames a client sends are what the
  handler reads: each once, whole and in the order of arrival, and then the reader waits.\<close>

theorem h2_ws_data_in_order:
  assumes "list_all (plain_data (h2ws_sid c)) fs" and "hs_streams s (h2ws_sid c) = Some ctx"
    and "ws_active ctx" and "\<not> ws_closed ctx" and "\<not> stream_closed ctx" and "ws_data_queue ctx = []"
    and "\<not> h2ws_closed c"
  shows "\<exists>s' cs'. run_ops (\<lambda>(hdr, d). OnData hdr d) fs s = Some s' \<and>
    h2ws_reads (Suc (length fs)) (c, s') =
      Some (map (\<lambda>(hdr, d). Got \<lparr> fin = True, opcode = Binary, payload = d \<rparr>) fs @ [Wait], cs')"
proof -
  obtain s' ctx' where s': "run_ops (\<lambda>(hdr, d). OnData hdr d) fs s = Some s'"
    "hs_streams s' (h2ws_sid c) = Some ctx'" "ws_data_queue ctx' = map (chars \<circ> snd) fs"
    "\<not> ws_closed ctx'" "\<not> stream_closed ctx'"
    using OnData_queues [OF assms(1-3)] assms(4-6) by auto
  with h2ws_reads_queue [OF s'(2) assms(7) s'(4,5)] show ?thesis
    by (auto simp: comp_def bytes_chars case_prod_beta simp del: h2ws_reads.simps)
qed

definition ws_session :: H2Session where
  "ws_session = put_stream 1 (new_stream_context\<lparr> ws_active := True \<rparr>) sample_session"

lemma ws_session_stream:
  "hs_streams ws_session 1 = Some (new_stream_context\<lparr> ws_active := True \<rparr>)"
  by (simp add: ws_session_def put_stream_def)

definition data_1 :: "u32 \<Rightarrow> H2FrameHeader" where
  "data_1 n = \<lparr> fh_length = n, fh_type = DATA, fh_flags = 0, fh_stream_id = 1 \<rparr>"

lemma plain_data_1: "unat n = length d \<Longrightarrow> plain_data 1 (data_1 n, d)"
  by (simp add: plain_data_def data_1_def sid_of_def has_flag_def)

theorem h2_ws_data_in_order_witness:
  "\<exists>s' cs'. run_ops (\<lambda>(hdr, d). OnData hdr d) [(data_1 1, [7]), (data_1 2, [8, 9])] ws_session = Some s' \<and>
    h2ws_reads 3 (\<lparr> h2ws_sid = 1, h2ws_closed = False \<rparr>, s') =
      Some ([Got \<lparr> fin = True, opcode = Binary, payload = [7] \<rparr>,
             Got \<lparr> fin = True, opcode = Binary, payload = [8, 9] \<rparr>, Wait], cs')"
  using h2_ws_data_in_order [of "\<lparr> h2ws_sid = 1, h2ws_closed = False \<rparr>"
      "[(data_1 1, [7]), (data_1 2, [8, 9])]", OF _ _ _ _ _ _ _, of ws_session
      "new_stream_context\<lparr> ws_active := True \<rparr>"]
  by (simp add: plain_data_1 ws_session_stream new_stream_context_def numeral_3_eq_3
      del: run_ops.simps h2ws_reads.simps)

text \<open>The connection interface as the echo handler uses it over HTTP/2.\<close>

definition h2_read :: "h2ws_state \<Rightarrow> (WsFrame \<times> h2ws_state) option" where
  "h2_read cs = (case H2WsRead cs of Some (Got fr, cs') \<Rightarrow> Some (fr, cs') | _ \<Rightarrow> None)"

definition h2_send :: "WsOpcode \<Rightarrow> byte list \<Rightarrow> bool \<Rightarrow> h2ws_state \<Rightarrow> h2ws_state" where
  "h2_send op p f cs = (case H2WsSend op p f cs of Some cs' \<Rightarrow> cs' | None \<Rightarrow> cs)"

lemma FlushOutput_total:
  "hs_io s = [] \<Longrightarrow> hs_sent (snd (FlushOutput s)) @ hs_output (snd (FlushOutput s)) = hs_sent s @ hs_output s"
  by (simp add: FlushOutput_def next_io_def)

lemma FlushOutput_streams: "hs_streams (snd (FlushOutput s)) = hs_streams s"
  by (auto simp: FlushOutput_def next_io_def split: list.splits prod.splits)

text \<open>Over HTTP/2 the echo handler answers the first message only: it sends every reply with
  the final flag, which there ends the stream, so the handler returns after one DATA frame with
  END\_STREAM and the messages still queued are never read.\<close>

theorem h2_echo_stops_after_first:
  assumes "hs_streams s (h2ws_sid c) = Some ctx" and "\<not> h2ws_closed c" and "\<not> ws_closed ctx"
    and "ws_data_queue ctx = d # ds" and "d \<noteq> []" and "hs_io s = []"
  shows "\<exists>c' s' ctx'. HandleWebSocket h2_read h2_send (Suc (Suc n)) (c, s) = (True, c', s')
    \<and> hs_sent s' @ hs_output s' =
        hs_sent s @ hs_output s @ frame_bytes DATA FLAG_END_STREAM (of_int (h2ws_sid c)) (bytes d)
    \<and> hs_streams s' (h2ws_sid c) = Some ctx' \<and> ws_data_queue ctx' = ds"
proof -
  let ?sid = "h2ws_sid c" and ?c = "c\<lparr> h2ws_closed := True \<rparr>"
  let ?s1 = "put_stream ?sid (ctx\<lparr> ws_data_queue := ds \<rparr>) s"
  let ?s2 = "put_stream ?sid (ctx\<lparr> ws_data_queue := ds, ws_closed := True \<rparr>)
               (emit_frame DATA FLAG_END_STREAM (of_int ?sid) (bytes d) ?s1)"
  have "h2_read (c, s) = Some (\<lparr> fin = True, opcode = Binary, payload = bytes d \<rparr>, c, ?s1)"
    using assms by (simp add: h2_read_def H2WsRead_def)
  moreover have "h2_send Binary (bytes d) True (c, ?s1) = (?c, snd (FlushOutput ?s2))"
    using assms by (simp add: h2_send_def H2WsSend_def put_stream_def Let_def)
  moreover have "h2_read (?c, snd (FlushOutput ?s2)) = Some (empty_frame, ?c, snd (FlushOutput ?s2))"
    by (simp add: h2_read_def H2WsRead_def FlushOutput_streams put_stream_def)
  ultimately have "HandleWebSocket h2_read h2_send (Suc (Suc n)) (c, s) = (True, ?c, snd (FlushOutput ?s2))"
    using assms(5) by (simp add: empty_frame_def bytes_def)
  moreover have "hs_sent (snd (FlushOutput ?s2)) @ hs_output (snd (FlushOutput ?s2)) =
      hs_sent s @ hs_output s @ frame_bytes DATA FLAG_END_STREAM (of_int ?sid) (bytes d)"
    using FlushOutput_total [of ?s2] assms(6) by (simp add: put_stream_def emit_frame_def)
  ultimately show ?thesis
    by (simp add: FlushOutput_streams put_stream_def)
qed

theorem h2_echo_stops_after_first_witness:
  "\<exists>c' s' ctx'. HandleWebSocket h2_read h2_send 5
      (\<lparr> h2ws_sid = 1, h2ws_closed = False \<rparr>,
       put_stream 1 (new_stream_context\<lparr> ws_data_queue := [''a'', ''b''] \<rparr>) sample_session) = (True, c', s')
    \<and> hs_sent s' @ hs_output s' = [0, 0, 1, 0, 1, 0, 0, 0, 1, 97]
    \<and> hs_streams s' 1 = Some ctx' \<and> ws_data_queue ctx' = [''b'']"
proof -
  let ?c = "\<lparr> h2ws_sid = 1, h2ws_closed = False \<rparr>"
  let ?ctx = "new_stream_context\<lparr> ws_data_queue := [''a'', ''b''] \<rparr>"
  have eqs: "hs_sent (put_stream 1 ?ctx sample_session) = []" "hs_output (put_stream 1 ?ctx sample_session) = []"
    "hs_io (put_stream 1 ?ctx sample_session) = []" "hs_streams (put_stream 1 ?ctx sample_session) 1 = Some ?ctx"
    "ws_closed new_stream_context = False"
    by (simp_all add: put_stream_def sample_session_def new_session_def new_stream_context_def)
  have frame: "frame_bytes DATA FLAG_END_STREAM 1 (bytes ''a'') = [0, 0, 1, 0, 1, 0, 0, 0, 1, 97]"
    by code_simp
  show ?thesis
    using h2_echo_stops_after_first [of "put_stream 1 ?ctx sample_session" ?c ?ctx "''a''" "[''b'']" 3]
    by (simp add: eqs frame eval_nat_numeral del: HandleWebSocket.simps)
qed

end
