(* ===== verification/Pools.thy ===== *)
theory Pools
  imports Web_Prelude
begin

text \<open>
  Pools that lend resources to concurrent users: the database connection pool
  (\<^verbatim>\<open>db/connection_pool.cpp\<close>) and the object pool (\<^verbatim>\<open>net/object_pool.hpp\<close>). Their common contract
  is the locale \<open>lending_pool\<close>; the upstream connection pool of the reverse proxy meets it too.
  Each operation runs under the pool's lock (or on one thread), so a history of the program is
  a sequence of whole operations.
\<close>

section \<open>The contract\<close>

text \<open>
  All states a pool and its users can get into: \<open>held\<close> lists the resources in the users'
  hands. A user may acquire with any key, create a resource of its own (with an address that
  no living resource has), change one it holds, destroy it, or release it.
\<close>

inductive lend_reach ::
  "('k \<Rightarrow> 's \<Rightarrow> 'r option \<times> 's) \<Rightarrow> ('k \<Rightarrow> 'r \<Rightarrow> 's \<Rightarrow> 's) \<Rightarrow> ('s \<Rightarrow> 'i list) \<Rightarrow> ('r \<Rightarrow> 'i) \<Rightarrow> 's
    \<Rightarrow> 's \<Rightarrow> 'r list \<Rightarrow> bool"
  for acquire :: "'k \<Rightarrow> 's \<Rightarrow> 'r option \<times> 's" and release :: "'k \<Rightarrow> 'r \<Rightarrow> 's \<Rightarrow> 's"
    and idle :: "'s \<Rightarrow> 'i list" and rid :: "'r \<Rightarrow> 'i" and start :: 's where
  lend_start: "lend_reach acquire release idle rid start start []"
| lend_acquire: "lend_reach acquire release idle rid start s held \<Longrightarrow> acquire k s = (Some r, s') \<Longrightarrow>
     lend_reach acquire release idle rid start s' (r # held)"
| lend_miss: "lend_reach acquire release idle rid start s held \<Longrightarrow> acquire k s = (None, s') \<Longrightarrow>
     lend_reach acquire release idle rid start s' held"
| lend_create: "lend_reach acquire release idle rid start s held \<Longrightarrow>
     rid r \<notin> set (idle s) \<union> rid ` set held \<Longrightarrow>
     lend_reach acquire release idle rid start s (r # held)"
| lend_change: "lend_reach acquire release idle rid start s (h1 @ r # h2) \<Longrightarrow> rid r' = rid r \<Longrightarrow>
     lend_reach acquire release idle rid start s (h1 @ r' # h2)"
| lend_destroy: "lend_reach acquire release idle rid start s (h1 @ r # h2) \<Longrightarrow>
     lend_reach acquire release idle rid start s (h1 @ h2)"
| lend_release: "lend_reach acquire release idle rid start s (h1 @ r # h2) \<Longrightarrow>
     lend_reach acquire release idle rid start (release k r s) (h1 @ h2)"

lemma distinct_sub:
  assumes "mset ys \<subseteq># mset xs" and "distinct xs"
  shows "distinct ys"
proof -
  have "count (mset ys) a \<le> 1" for a
    using mset_subset_eq_count [OF assms(1), of a] assms(2)
    by (metis distinct_count_atmost_1 le_trans le_zero_eq linorder_linear zero_le_one)
  then show ?thesis
    by (metis One_nat_def Suc_leI count_greater_zero_iff distinct_count_atmost_1 le_antisym
        not_in_iff set_mset_mset)
qed

locale lending_pool =
  fixes acquire :: "'k \<Rightarrow> 's \<Rightarrow> 'r option \<times> 's"
    and release :: "'k \<Rightarrow> 'r \<Rightarrow> 's \<Rightarrow> 's"
    and idle :: "'s \<Rightarrow> 'i list"
    and rid :: "'r \<Rightarrow> 'i"
    and invar :: "'s \<Rightarrow> bool"
  assumes acquire_some:
    "invar s \<Longrightarrow> acquire k s = (Some r, s') \<Longrightarrow> invar s' \<and> add_mset (rid r) (mset (idle s')) \<subseteq># mset (idle s)"
    and acquire_none:
    "invar s \<Longrightarrow> acquire k s = (None, s') \<Longrightarrow> invar s' \<and> mset (idle s') \<subseteq># mset (idle s)"
    and release_idle:
    "invar s \<Longrightarrow> invar (release k r s) \<and> mset (idle (release k r s)) \<subseteq># add_mset (rid r) (mset (idle s))"
begin

lemma exclusive:
  assumes "lend_reach acquire release idle rid start s held" and "invar start"
    and "distinct (idle start)"
  shows "invar s \<and> distinct (idle s @ map rid held)"
  using assms
proof (induction rule: lend_reach.induct)
  case (lend_acquire s held k r s')
  then have sub: "invar s' \<and> add_mset (rid r) (mset (idle s')) \<subseteq># mset (idle s)"
    using acquire_some by blast
  then have "mset (idle s' @ map rid (r # held)) \<subseteq># mset (idle s @ map rid held)"
    by simp
  with sub lend_acquire show ?case
    using distinct_sub by blast
next
  case (lend_miss s held k s')
  then have sub: "invar s' \<and> mset (idle s') \<subseteq># mset (idle s)"
    using acquire_none by blast
  then have "mset (idle s' @ map rid held) \<subseteq># mset (idle s @ map rid held)"
    by simp
  with sub lend_miss show ?case
    using distinct_sub by blast
next
  case (lend_release s h1 r h2 k)
  then have sub: "invar (release k r s) \<and> mset (idle (release k r s)) \<subseteq># add_mset (rid r) (mset (idle s))"
    using release_idle by blast
  then have "mset (idle (release k r s) @ map rid (h1 @ h2)) \<subseteq># mset (idle s @ map rid (h1 @ r # h2))"
    by simp
  with sub lend_release show ?case
    using distinct_sub by blast
qed auto

end

section \<open>Database connections\<close>

text \<open>
  A connection is its index in \<^verbatim>\<open>all_\<close>. A call of \<open>AcquireDb\<close> is one round of the polling loop
  of \<^verbatim>\<open>Acquire\<close>: without a free connection it returns nothing and the caller tries again 50 ms
  later.
\<close>

record ConnectionPool =
  db_all :: "nat list"
  db_available :: "nat list"

definition new_connection_pool :: "nat \<Rightarrow> ConnectionPool" where
  "new_connection_pool max_connections =
     \<lparr> db_all = [0..<max_connections], db_available = [0..<max_connections] \<rparr>"

definition AcquireDb :: "ConnectionPool \<Rightarrow> nat option \<times> ConnectionPool" where
  "AcquireDb p =
     (case db_available p of [] \<Rightarrow> (None, p)
      | db # rest \<Rightarrow> (Some db, p\<lparr> db_available := rest \<rparr>))"

definition ReleaseDb :: "nat \<Rightarrow> ConnectionPool \<Rightarrow> ConnectionPool" where
  "ReleaseDb db p = p\<lparr> db_available := db_available p @ [db] \<rparr>"

interpretation db_pool: lending_pool "\<lambda>_ :: unit. AcquireDb" "\<lambda>_. ReleaseDb" db_available id "\<lambda>_. True"
  by unfold_locales (auto simp: AcquireDb_def ReleaseDb_def split: list.splits)

text \<open>Users of this pool create and destroy no connections of their own.\<close>

inductive db_reach :: "nat \<Rightarrow> ConnectionPool \<Rightarrow> nat list \<Rightarrow> bool" for n where
  db_start: "db_reach n (new_connection_pool n) []"
| db_acquire: "db_reach n p held \<Longrightarrow> AcquireDb p = (Some db, p') \<Longrightarrow> db_reach n p' (db # held)"
| db_miss: "db_reach n p held \<Longrightarrow> AcquireDb p = (None, p') \<Longrightarrow> db_reach n p' held"
| db_release: "db_reach n p (h1 @ db # h2) \<Longrightarrow> db_reach n (ReleaseDb db p) (h1 @ h2)"

lemma db_reach_lend:
  "db_reach n p held \<Longrightarrow>
   lend_reach (\<lambda>_ :: unit. AcquireDb) (\<lambda>_. ReleaseDb) db_available id (new_connection_pool n) p held"
  by (induction rule: db_reach.induct)
    (auto intro: lend_reach.intros(1-3) lend_release [where k = "()"])

lemma db_reach_mset:
  "db_reach n p held \<Longrightarrow> mset (db_available p) + mset held = mset [0..<n] \<and> db_all p = [0..<n]"
  by (induction rule: db_reach.induct)
    (auto simp: new_connection_pool_def AcquireDb_def ReleaseDb_def split: list.splits)

text \<open>C21. Whatever the order in which requests acquire and release database connections, no
  connection is with two requests, none is lost, and a request that asks is refused only while
  all connections are in use.\<close>

theorem db_connections_exclusive:
  assumes "db_reach n p held"
  shows "distinct (db_available p @ held) \<and> set (db_available p) \<union> set held = {..<n}
    \<and> (fst (AcquireDb p) = None \<longleftrightarrow> length held = n)"
proof (intro conjI)
  show "distinct (db_available p @ held)"
    using db_pool.exclusive [OF db_reach_lend [OF assms]] by (simp add: new_connection_pool_def)
  have m: "mset (db_available p) + mset held = mset [0..<n]"
    using db_reach_mset [OF assms] by blast
  then show "set (db_available p) \<union> set held = {..<n}"
    by (metis atLeast_upt set_mset_mset set_mset_union)
  have "length (db_available p) + length held = n"
    using m by (metis diff_zero length_upt size_mset size_union)
  then show "fst (AcquireDb p) = None \<longleftrightarrow> length held = n"
    by (auto simp: AcquireDb_def split: list.splits)
qed

theorem db_connections_exclusive_witness:
  "distinct (db_available \<lparr> db_all = [0, 1], db_available = [1] \<rparr> @ [0])"
proof -
  have "db_reach 2 (new_connection_pool 2) []"
    by (rule db_start)
  then have "db_reach 2 \<lparr> db_all = [0, 1], db_available = [1] \<rparr> [0]"
    by (rule db_acquire) (simp add: AcquireDb_def new_connection_pool_def upt_rec)
  then show ?thesis
    by (rule conjunct1 [OF db_connections_exclusive])
qed

section \<open>The object pool\<close>

text \<open>
  \<open>op_stack\<close> holds the free objects, the top of the stack first; \<open>take_free\<close> and \<open>Return\<close> are
  the two sections under the lock. \<open>new_obj\<close> is the address the allocator returns when the
  pool is empty. Objects are reset before they are returned, so an address is all that
  the pool keeps of them.
\<close>

record ObjectPool =
  op_stack :: "nat list"
  op_created :: nat
  op_reused :: nat

definition new_object_pool :: ObjectPool where
  "new_object_pool = \<lparr> op_stack = [], op_created = 0, op_reused = 0 \<rparr>"

definition take_free :: "ObjectPool \<Rightarrow> nat option \<times> ObjectPool" where
  "take_free p =
     (case op_stack p of [] \<Rightarrow> (None, p) | obj # rest \<Rightarrow> (Some obj, p\<lparr> op_stack := rest \<rparr>))"

definition AcquireObject :: "nat \<Rightarrow> ObjectPool \<Rightarrow> nat \<times> ObjectPool" where
  "AcquireObject new_obj p =
     (case take_free p of
        (None, p1) \<Rightarrow> (new_obj, p1\<lparr> op_created := Suc (op_created p1) \<rparr>)
      | (Some obj, p1) \<Rightarrow> (obj, p1\<lparr> op_reused := Suc (op_reused p1) \<rparr>))"

definition ReturnObject :: "nat \<Rightarrow> nat \<Rightarrow> ObjectPool \<Rightarrow> ObjectPool" where
  "ReturnObject capacity obj p =
     (if length (op_stack p) < capacity then p\<lparr> op_stack := obj # op_stack p \<rparr> else p)"

definition FreeCount :: "ObjectPool \<Rightarrow> nat" where
  "FreeCount p = length (op_stack p)"

interpretation object_pool: lending_pool "\<lambda>_ :: unit. take_free" "\<lambda>_. ReturnObject capacity" op_stack id
  "\<lambda>p. length (op_stack p) \<le> capacity" for capacity
  by unfold_locales (auto simp: take_free_def ReturnObject_def split: list.splits)

text \<open>The users of a pool: \<open>obj_acquire\<close> is a call of \<^verbatim>\<open>Acquire\<close> with a fresh address.\<close>

inductive obj_reach :: "nat \<Rightarrow> ObjectPool \<Rightarrow> nat list \<Rightarrow> bool" for capacity where
  obj_start: "obj_reach capacity new_object_pool []"
| obj_acquire: "obj_reach capacity p held \<Longrightarrow> new_obj \<notin> set (op_stack p) \<union> set held \<Longrightarrow>
     AcquireObject new_obj p = (obj, p') \<Longrightarrow> obj_reach capacity p' (obj # held)"
| obj_return: "obj_reach capacity p (h1 @ obj # h2) \<Longrightarrow> obj_reach capacity (ReturnObject capacity obj p) (h1 @ h2)"

lemma obj_reach_lend:
  "obj_reach c p held \<Longrightarrow> \<exists>q. op_stack q = op_stack p \<and>
     lend_reach (\<lambda>_ :: unit. take_free) (\<lambda>_. ReturnObject c) op_stack id new_object_pool q held"
proof (induction rule: obj_reach.induct)
  case obj_start
  show ?case
    by (intro exI conjI, rule refl, rule lend_start)
next
  case (obj_acquire p held new_obj obj p')
  then obtain q where q: "op_stack q = op_stack p"
    "lend_reach (\<lambda>_ :: unit. take_free) (\<lambda>_. ReturnObject c) op_stack id new_object_pool q held"
    by blast
  show ?case
  proof (cases "op_stack p")
    case Nil
    then have obj: "obj = new_obj" and "op_stack p' = []"
      using obj_acquire(3) by (auto simp: AcquireObject_def take_free_def)
    then have "op_stack q = op_stack p'"
      using q(1) Nil by simp
    moreover have "lend_reach (\<lambda>_ :: unit. take_free) (\<lambda>_. ReturnObject c) op_stack id new_object_pool q
        (obj # held)"
      unfolding obj using obj_acquire(2) q(1) by (intro lend_create [OF q(2)]) simp
    ultimately show ?thesis
      by (intro exI conjI)
  next
    case (Cons x xs)
    then have "take_free q = (Some obj, q\<lparr> op_stack := xs \<rparr>)" "op_stack (q\<lparr> op_stack := xs \<rparr>) = op_stack p'"
      using obj_acquire(3) q(1) by (auto simp: AcquireObject_def take_free_def)
    then show ?thesis
      using lend_acquire [OF q(2)] by metis
  qed
next
  case (obj_return p h1 obj h2)
  then obtain q where q: "op_stack q = op_stack p"
    "lend_reach (\<lambda>_ :: unit. take_free) (\<lambda>_. ReturnObject c) op_stack id new_object_pool q (h1 @ obj # h2)"
    by blast
  have "op_stack (ReturnObject c obj q) = op_stack (ReturnObject c obj p)"
    using q(1) by (simp add: ReturnObject_def)
  then show ?case
    by (intro exI conjI) (assumption, rule lend_release [OF q(2)])
qed

text \<open>No object is ever with two users, or with a user and in the pool, and the pool keeps at
  most \<open>capacity\<close> free objects; it has created at least as many as exist.\<close>

theorem objects_exclusive:
  assumes "obj_reach capacity p held"
  shows "distinct (op_stack p @ held) \<and> FreeCount p \<le> capacity
    \<and> FreeCount p + length held \<le> op_created p"
proof (intro conjI)
  obtain q where q: "op_stack q = op_stack p"
    "lend_reach (\<lambda>_ :: unit. take_free) (\<lambda>_. ReturnObject capacity) op_stack id new_object_pool q held"
    using obj_reach_lend [OF assms] by blast
  then show "distinct (op_stack p @ held)" and "FreeCount p \<le> capacity"
    using object_pool.exclusive [OF q(2)] by (simp_all add: new_object_pool_def FreeCount_def)
  show "FreeCount p + length held \<le> op_created p"
    using assms
    by induction (auto simp: new_object_pool_def AcquireObject_def take_free_def ReturnObject_def
        FreeCount_def split: list.splits)
qed

theorem objects_exclusive_witness:
  "FreeCount (ReturnObject 1 5 \<lparr> op_stack = [], op_created = 1, op_reused = 0 \<rparr>) \<le> 1"
proof -
  have "obj_reach 1 new_object_pool []"
    by (rule obj_start)
  then have "obj_reach 1 \<lparr> op_stack = [], op_created = 1, op_reused = 0 \<rparr> [5]"
    by (rule obj_acquire [where new_obj = 5]) (simp_all add: AcquireObject_def take_free_def new_object_pool_def)
  then have "obj_reach 1 (ReturnObject 1 5 \<lparr> op_stack = [], op_created = 1, op_reused = 0 \<rparr>) []"
    using obj_return [of 1 _ "[]" 5 "[]"] by simp
  then show ?thesis
    by (rule conjunct1 [OF conjunct2 [OF objects_exclusive]])
qed

end
