(* ===== verification/Upstream.thy ===== *)
theory Upstream
  imports Pools
begin

text \<open>
  The backends of the reverse proxy: selection with passive health checks
  (\<^verbatim>\<open>handler/upstream_pool.cpp\<close>) and the per-worker pool of idle connections
  (\<^verbatim>\<open>handler/upstream_conn_pool.cpp\<close>).

  A pointer to a server is its index in \<^verbatim>\<open>servers_\<close>, which never changes its length. Points in
  time are nanoseconds of the steady clock and are arguments of the operations.
\<close>

section \<open>Selecting a backend\<close>

record UpstreamServer =
  us_host :: string
  us_port :: u16
  us_weight :: int
  us_failures :: int
  us_alive :: bool
  us_dead_since :: int

definition kCooldownMs :: int where "kCooldownMs = 10000"
definition kMaxFailures :: int where "kMaxFailures = 3"

record UpstreamPool =
  up_servers :: "UpstreamServer list"
  up_counter :: u64

definition new_upstream_pool :: "UpstreamServer list \<Rightarrow> UpstreamPool" where
  "new_upstream_pool servers = \<lparr> up_servers = servers, up_counter = 0 \<rparr>"

definition elapsed_ms :: "int \<Rightarrow> UpstreamServer \<Rightarrow> int" where
  "elapsed_ms now srv = (now - us_dead_since srv) div 1000000"

definition set_server :: "nat \<Rightarrow> UpstreamServer \<Rightarrow> UpstreamPool \<Rightarrow> UpstreamPool" where
  "set_server i srv p = p\<lparr> up_servers := (up_servers p)[i := srv] \<rparr>"

primrec pick_loop :: "nat \<Rightarrow> int \<Rightarrow> UpstreamPool \<Rightarrow> nat option \<times> UpstreamPool" where
  "pick_loop 0 now p = (None, p)"
| "pick_loop (Suc attempts) now p =
     (let idx = unat (up_counter p) mod length (up_servers p);
          p1 = p\<lparr> up_counter := up_counter p + 1 \<rparr>;
          srv = up_servers p ! idx
      in if us_alive srv then (Some idx, p1)
         else if kCooldownMs \<le> elapsed_ms now srv
         then (Some idx, set_server idx (srv\<lparr> us_alive := True, us_failures := 0 \<rparr>) p1)
         else pick_loop attempts now p1)"

definition Pick :: "int \<Rightarrow> UpstreamPool \<Rightarrow> nat option \<times> UpstreamPool" where
  "Pick now p = (if up_servers p = [] then (None, p) else pick_loop (length (up_servers p)) now p)"

definition fail_server :: "int \<Rightarrow> UpstreamServer \<Rightarrow> UpstreamServer" where
  "fail_server now srv =
     (let srv1 = srv\<lparr> us_failures := us_failures srv + 1 \<rparr>
      in if kMaxFailures \<le> us_failures srv1 \<and> us_alive srv1
         then srv1\<lparr> us_alive := False, us_dead_since := now \<rparr> else srv1)"

definition ReportFailure :: "int \<Rightarrow> nat option \<Rightarrow> UpstreamPool \<Rightarrow> UpstreamPool" where
  "ReportFailure now server p =
     (case server of None \<Rightarrow> p
      | Some i \<Rightarrow> if i < length (up_servers p) then set_server i (fail_server now (up_servers p ! i)) p
                  else p)"

definition recover_server :: "UpstreamServer \<Rightarrow> UpstreamServer" where
  "recover_server srv =
     (if 0 < us_failures srv then srv\<lparr> us_failures := 0, us_alive := True \<rparr> else srv)"

definition ReportSuccess :: "nat option \<Rightarrow> UpstreamPool \<Rightarrow> UpstreamPool" where
  "ReportSuccess server p =
     (case server of None \<Rightarrow> p
      | Some i \<Rightarrow> if i < length (up_servers p) then set_server i (recover_server (up_servers p ! i)) p
                  else p)"

section \<open>The circuit breaker it implements\<close>

text \<open>
  The specification: a server is healthy with a number of failures in a row, or suspended since
  a point in time. A suspended server may be tried again ten seconds later, and a pick takes
  the first server in cyclic order that may be used.
\<close>

datatype breaker = Healthy nat | Suspended int

fun usable_at :: "int \<Rightarrow> breaker \<Rightarrow> bool" where
  "usable_at now (Healthy k) = True"
| "usable_at now (Suspended t) = (10000 \<le> (now - t) div 1000000)"

fun trip :: "int \<Rightarrow> breaker \<Rightarrow> breaker" where
  "trip now (Healthy k) = (if 2 \<le> k then Suspended now else Healthy (Suc k))"
| "trip now (Suspended t) = Suspended t"

fun retry :: "breaker \<Rightarrow> breaker" where
  "retry (Healthy k) = Healthy k"
| "retry (Suspended t) = Healthy 0"

primrec scan :: "(nat \<Rightarrow> bool) \<Rightarrow> nat \<Rightarrow> nat \<Rightarrow> nat option" where
  "scan P c 0 = None"
| "scan P c (Suc m) = (if P c then Some c else scan P (Suc c) m)"

text \<open>The position the counter value \<open>c\<close> stands for; the counter has 64 bits.\<close>

definition slot :: "nat \<Rightarrow> nat \<Rightarrow> nat" where
  "slot n c = c mod 2 ^ 64 mod n"

definition first_usable :: "int \<Rightarrow> nat \<Rightarrow> breaker list \<Rightarrow> nat option" where
  "first_usable now cnt bs = scan (\<lambda>c. usable_at now (bs ! slot (length bs) c)) cnt (length bs)"

datatype report = PickServer int | Failed nat int | Succeeded nat

fun spec_report :: "report \<Rightarrow> nat \<times> breaker list \<Rightarrow> nat \<times> breaker list" where
  "spec_report (PickServer now) (cnt, bs) =
     (case first_usable now cnt bs of
        None \<Rightarrow> ((cnt + length bs) mod 2 ^ 64, bs)
      | Some c \<Rightarrow> (Suc c mod 2 ^ 64, bs[slot (length bs) c := retry (bs ! slot (length bs) c)]))"
| "spec_report (Failed i now) (cnt, bs) = (cnt, bs[i := trip now (bs ! i)])"
| "spec_report (Succeeded i) (cnt, bs) = (cnt, bs[i := Healthy 0])"

definition breaker_of :: "UpstreamServer \<Rightarrow> breaker" where
  "breaker_of srv = (if us_alive srv then Healthy (nat (us_failures srv)) else Suspended (us_dead_since srv))"

definition server_ok :: "UpstreamServer \<Rightarrow> bool" where
  "server_ok srv \<longleftrightarrow> 0 \<le> us_failures srv \<and> (us_alive srv \<longleftrightarrow> us_failures srv < 3)"

lemma breaker_fail: "server_ok srv \<Longrightarrow> server_ok (fail_server now srv) \<and> breaker_of (fail_server now srv) = trip now (breaker_of srv)"
  by (auto simp: server_ok_def breaker_of_def fail_server_def kMaxFailures_def Let_def nat_add_distrib)

lemma breaker_recover: "server_ok srv \<Longrightarrow> server_ok (recover_server srv) \<and> breaker_of (recover_server srv) = Healthy 0"
  by (auto simp: server_ok_def breaker_of_def recover_server_def)

lemma breaker_retry:
  "server_ok srv \<Longrightarrow> \<not> us_alive srv \<Longrightarrow> server_ok (srv\<lparr> us_alive := True, us_failures := 0 \<rparr>)
     \<and> breaker_of (srv\<lparr> us_alive := True, us_failures := 0 \<rparr>) = retry (breaker_of srv)"
  by (auto simp: server_ok_def breaker_of_def)

lemma breaker_usable:
  "usable_at now (breaker_of srv) \<longleftrightarrow> us_alive srv \<or> kCooldownMs \<le> elapsed_ms now srv"
  by (auto simp: breaker_of_def kCooldownMs_def elapsed_ms_def)

lemma set_server_ok:
  assumes "list_all server_ok (up_servers p)" and "server_ok srv" and "breaker_of srv = b"
  shows "list_all server_ok (up_servers (set_server i srv p))"
    and "map breaker_of (up_servers (set_server i srv p)) = (map breaker_of (up_servers p))[i := b]"
  using assms by (auto simp: set_server_def map_update list_all_iff dest!: set_update_subset_insert [THEN subsetD])

lemma scan_Some: "scan P c m = Some d \<Longrightarrow> c \<le> d \<and> d < c + m \<and> P d \<and> (\<forall>j. c \<le> j \<and> j < d \<longrightarrow> \<not> P j)"
proof (induction m arbitrary: c)
  case (Suc m)
  show ?case
  proof (cases "P c")
    case False
    then have "Suc c \<le> d \<and> d < Suc c + m \<and> P d \<and> (\<forall>j. Suc c \<le> j \<and> j < d \<longrightarrow> \<not> P j)"
      using Suc.IH [of "Suc c"] Suc.prems by simp
    with False show ?thesis
      by (metis Suc_leI Suc_leD add_Suc_right add_Suc le_neq_implies_less)
  qed (use Suc.prems in auto)
qed simp

lemma scan_None: "scan P c m = None \<longleftrightarrow> (\<forall>j. c \<le> j \<and> j < c + m \<longrightarrow> \<not> P j)"
proof (induction m arbitrary: c)
  case (Suc m)
  show ?case
  proof
    assume "scan P c (Suc m) = None"
    then have "\<not> P c" "scan P (Suc c) m = None"
      by (auto split: if_splits)
    then show "\<forall>j. c \<le> j \<and> j < c + Suc m \<longrightarrow> \<not> P j"
      using Suc.IH [of "Suc c"] by (metis Suc_leI add_Suc_right add_Suc le_neq_implies_less)
  qed (use Suc.IH [of "Suc c"] in auto)
qed auto

text \<open>Any \<open>n\<close> consecutive counter values visit all \<open>n\<close> positions while the counter does not wrap.\<close>

lemma cyclic_cover:
  assumes "j < n" and "c + n \<le> 2 ^ 64"
  shows "\<exists>d. c \<le> d \<and> d < c + n \<and> slot n d = j"
proof -
  define d where "d = c + (j + n - c mod n) mod n"
  have "d mod n = (c mod n + (j + n - c mod n)) mod n"
    by (simp add: d_def mod_add_left_eq mod_add_right_eq)
  also have "c mod n + (j + n - c mod n) = j + n"
    using mod_less_divisor [of n c] assms(1) by linarith
  also have "(j + n) mod n = j"
    using assms(1) by simp
  finally have "d mod n = j" .
  moreover have "c \<le> d" "d < c + n"
    using assms(1) by (simp_all add: d_def)
  ultimately show ?thesis
    using assms(2) by (intro exI [of _ d]) (simp add: slot_def)
qed

lemma unat_of_nat_counter: "unat (of_nat c :: u64) = c mod 2 ^ 64"
  by (simp add: unsigned_of_nat take_bit_eq_mod)

lemma pick_loop_spec:
  assumes "list_all server_ok (up_servers p)" and "up_servers p \<noteq> []" and "up_counter p = of_nat c"
    and "n = length (up_servers p)" and "bs = map breaker_of (up_servers p)"
  shows "case scan (\<lambda>c. usable_at now (bs ! slot n c)) c m of
       None \<Rightarrow> pick_loop m now p = (None, p\<lparr> up_counter := of_nat (c + m) \<rparr>)
     | Some d \<Rightarrow> \<exists>srv. pick_loop m now p = (Some (slot n d), set_server (slot n d) srv (p\<lparr> up_counter := of_nat (Suc d) \<rparr>))
         \<and> server_ok srv \<and> us_alive srv \<and> breaker_of srv = retry (bs ! slot n d)"
  using assms
proof (induction m arbitrary: p c)
  case (Suc m)
  let ?i = "slot n c"
  let ?srv = "up_servers p ! ?i"
  have i: "unat (up_counter p) mod length (up_servers p) = ?i" "?i < length (up_servers p)"
    using Suc.prems(2-4) by (simp_all add: unat_of_nat_counter slot_def)
  then have srv: "server_ok ?srv" "breaker_of ?srv = bs ! ?i"
    using Suc.prems(1,5) by (auto simp: list_all_length not_less list_update_beyond)
  let ?p1 = "p\<lparr> up_counter := of_nat (Suc c) \<rparr>"
  have p1: "up_counter p + 1 = of_nat (Suc c)"
    using Suc.prems(3) by simp
  show ?case
  proof (cases "usable_at now (bs ! ?i)")
    case True
    let ?new = "if us_alive ?srv then ?srv else ?srv\<lparr> us_alive := True, us_failures := 0 \<rparr>"
    have "pick_loop (Suc m) now p = (Some ?i, set_server ?i ?new ?p1)"
      using True breaker_usable [of now ?srv] srv(2) i p1 by (auto simp: Let_def set_server_def)
    moreover have "server_ok ?new \<and> us_alive ?new \<and> breaker_of ?new = retry (bs ! ?i)"
      using breaker_retry [OF srv(1)] srv(1) unfolding srv(2) [symmetric]
      by (auto simp: breaker_of_def)
    ultimately show ?thesis
      using True by auto
  next
    case False
    then have "pick_loop (Suc m) now p = pick_loop m now ?p1"
      using breaker_usable [of now ?srv] srv(2) i p1 by (simp add: Let_def add.commute)
    with False Suc.IH [of ?p1 "Suc c"] Suc.prems show ?thesis
      by (simp add: set_server_def split: option.splits)
  qed
qed simp

fun up_step :: "report \<Rightarrow> UpstreamPool \<Rightarrow> UpstreamPool option" where
  "up_step (PickServer now) p = Some (snd (Pick now p))"
| "up_step (Failed i now) p = Some (ReportFailure now (Some i) p)"
| "up_step (Succeeded i) p = Some (ReportSuccess (Some i) p)"

definition pool_ok :: "UpstreamPool \<Rightarrow> bool" where
  "pool_ok p \<longleftrightarrow> list_all server_ok (up_servers p)"

definition breakers :: "UpstreamPool \<Rightarrow> nat \<times> breaker list" where
  "breakers p = (unat (up_counter p), map breaker_of (up_servers p))"

lemma slot_less: "0 < n \<Longrightarrow> slot n c < n"
  by (simp add: slot_def)

lemma set_server_fields [simp]:
  "length (up_servers (set_server i srv p)) = length (up_servers p)"
  "up_counter (set_server i srv p) = up_counter p"
  "set_server i srv (p\<lparr> up_counter := c \<rparr>) = (set_server i srv p)\<lparr> up_counter := c \<rparr>"
  by (simp_all add: set_server_def)

lemma Pick_cases:
  assumes "pool_ok p"
  obtains (none) "first_usable now (unat (up_counter p)) (map breaker_of (up_servers p)) = None"
      "Pick now p = (None, p\<lparr> up_counter := up_counter p + of_nat (length (up_servers p)) \<rparr>)"
  | (some) d i srv where
      "first_usable now (unat (up_counter p)) (map breaker_of (up_servers p)) = Some d"
      "i = slot (length (up_servers p)) d" "i < length (up_servers p)"
      "Pick now p = (Some i, (set_server i srv p)\<lparr> up_counter := of_nat (Suc d) \<rparr>)"
      "server_ok srv" "us_alive srv" "breaker_of srv = retry (breaker_of (up_servers p ! i))"
proof (cases "up_servers p = []")
  case True
  then show thesis
    by (intro none) (simp_all add: first_usable_def Pick_def)
next
  case False
  let ?n = "length (up_servers p)" and ?bs = "map breaker_of (up_servers p)"
  have "case scan (\<lambda>c. usable_at now (?bs ! slot ?n c)) (unat (up_counter p)) ?n of
       None \<Rightarrow> pick_loop ?n now p = (None, p\<lparr> up_counter := of_nat (unat (up_counter p) + ?n) \<rparr>)
     | Some d \<Rightarrow> \<exists>srv. pick_loop ?n now p =
           (Some (slot ?n d), set_server (slot ?n d) srv (p\<lparr> up_counter := of_nat (Suc d) \<rparr>))
         \<and> server_ok srv \<and> us_alive srv \<and> breaker_of srv = retry (?bs ! slot ?n d)"
    using assms False by (intro pick_loop_spec) (simp_all add: pool_ok_def)
  with False show thesis
    using none some slot_less [of ?n]
    by (cases "first_usable now (unat (up_counter p)) ?bs")
      (auto simp: first_usable_def Pick_def)
qed

lemma Pick_refines:
  assumes "pool_ok p"
  shows "pool_ok (snd (Pick now p)) \<and> breakers (snd (Pick now p)) = spec_report (PickServer now) (breakers p)"
  using assms
proof (cases rule: Pick_cases [of p now])
  case none
  with assms show ?thesis
    by (simp add: pool_ok_def breakers_def unat_word_ariths unat_of_nat_counter mod_add_right_eq)
next
  case (some d i srv)
  with assms set_server_ok [of p srv _ i] show ?thesis
    by (simp add: pool_ok_def breakers_def unat_of_nat_counter del: of_nat_Suc)
qed

interpretation upstream: op_refinement up_step spec_report breakers pool_ok "\<lambda>_. True"
proof
  fix p r
  assume ok: "pool_ok p"
  show "\<exists>p'. up_step r p = Some p' \<and> pool_ok p' \<and> breakers p' = spec_report r (breakers p)"
  proof (cases r)
    case (PickServer now)
    with Pick_refines [OF ok] show ?thesis
      by simp
  next
    case (Failed i now)
    with ok show ?thesis
      using set_server_ok [of p "fail_server now (up_servers p ! i)" _ i] breaker_fail [of "up_servers p ! i" now]
      by (cases "i < length (up_servers p)")
        (auto simp: ReportFailure_def pool_ok_def breakers_def list_all_length not_less list_update_beyond)
  next
    case (Succeeded i)
    with ok show ?thesis
      using set_server_ok [of p "recover_server (up_servers p ! i)" _ i] breaker_recover [of "up_servers p ! i"]
      by (cases "i < length (up_servers p)")
        (auto simp: ReportSuccess_def pool_ok_def breakers_def list_all_length not_less list_update_beyond)
  qed
qed


definition two_backends :: "UpstreamServer list" where
  "two_backends =
     [\<lparr> us_host = ''a'', us_port = 80, us_weight = 1, us_failures = 0, us_alive = True, us_dead_since = 0 \<rparr>,
      \<lparr> us_host = ''b'', us_port = 80, us_weight = 5, us_failures = 0, us_alive = True, us_dead_since = 0 \<rparr>]"


lemma usable_slot:
  assumes "0 < length (up_servers p)"
  shows "usable_at now (map breaker_of (up_servers p) ! slot (length (up_servers p)) c) \<longleftrightarrow>
    us_alive (up_servers p ! slot (length (up_servers p)) c)
    \<or> kCooldownMs \<le> elapsed_ms now (up_servers p ! slot (length (up_servers p)) c)"
  using slot_less [OF assms, of c] breaker_usable by simp

lemma first_usable_none:
  assumes "unat (up_counter p) + length (up_servers p) \<le> 2 ^ 64"
  shows "first_usable now (unat (up_counter p)) (map breaker_of (up_servers p)) = None \<longleftrightarrow>
    (\<forall>srv \<in> set (up_servers p). \<not> us_alive srv \<and> elapsed_ms now srv < kCooldownMs)" (is "?L \<longleftrightarrow> ?R")
proof
  let ?n = "length (up_servers p)" and ?c = "unat (up_counter p)"
  assume none: ?L
  show ?R
  proof
    fix srv
    assume "srv \<in> set (up_servers p)"
    then obtain j where j: "j < ?n" "srv = up_servers p ! j"
      by (auto simp: in_set_conv_nth)
    obtain c where c: "?c \<le> c" "c < ?c + ?n" "slot ?n c = j"
      using cyclic_cover [OF j(1) assms] by blast
    have "\<not> usable_at now (map breaker_of (up_servers p) ! slot ?n c)"
      using none c(1,2) by (simp add: first_usable_def scan_None)
    then show "\<not> us_alive srv \<and> elapsed_ms now srv < kCooldownMs"
      using usable_slot [OF order_le_less_trans [OF le0 j(1)], of now c] j(2) c(3) by simp
  qed
next
  let ?n = "length (up_servers p)"
  assume all: ?R
  have "\<not> usable_at now (map breaker_of (up_servers p) ! slot ?n c)" if "0 < ?n" for c
    using usable_slot [OF that, of now c] all [rule_format, OF nth_mem [OF slot_less [OF that, of c]]]
    by simp
  then show ?L
    by (cases "?n = 0") (auto simp: first_usable_def scan_None)
qed

text \<open>As long as the counter has not run through its 64 bits, a pick fails exactly when every
  server is suspended and within its cooldown; otherwise it returns a live server that was
  alive or had served its cooldown, and leaves all other servers as they are.\<close>

theorem pick_finds_usable:
  assumes "pool_ok p" and "unat (up_counter p) + length (up_servers p) \<le> 2 ^ 64"
  shows "(fst (Pick now p) = None \<longleftrightarrow>
      (\<forall>srv \<in> set (up_servers p). \<not> us_alive srv \<and> elapsed_ms now srv < kCooldownMs))
    \<and> (\<forall>i. fst (Pick now p) = Some i \<longrightarrow> i < length (up_servers p) \<and> us_alive (up_servers (snd (Pick now p)) ! i)
      \<and> (us_alive (up_servers p ! i) \<or> kCooldownMs \<le> elapsed_ms now (up_servers p ! i))
      \<and> (\<forall>j. j \<noteq> i \<longrightarrow> up_servers (snd (Pick now p)) ! j = up_servers p ! j))"
proof (intro conjI [OF _ allI] impI)
  let ?n = "length (up_servers p)"
  show "fst (Pick now p) = None \<longleftrightarrow>
      (\<forall>srv \<in> set (up_servers p). \<not> us_alive srv \<and> elapsed_ms now srv < kCooldownMs)"
    using first_usable_none [OF assms(2), of now] by (cases rule: Pick_cases [OF assms(1), of now]) auto
  show "i < length (up_servers p) \<and> us_alive (up_servers (snd (Pick now p)) ! i)
      \<and> (us_alive (up_servers p ! i) \<or> kCooldownMs \<le> elapsed_ms now (up_servers p ! i))
      \<and> (\<forall>j. j \<noteq> i \<longrightarrow> up_servers (snd (Pick now p)) ! j = up_servers p ! j)"
    if "fst (Pick now p) = Some i" for i
  proof (cases rule: Pick_cases [OF assms(1), of now])
    case (2 d k srv)
    have "usable_at now (map breaker_of (up_servers p) ! slot ?n d)" "0 < ?n"
      using scan_Some [of _ "unat (up_counter p)" ?n d] 2(1,3) by (auto simp: first_usable_def)
    then show ?thesis
      using that 2 usable_slot [of p now d] by (auto simp: set_server_def)
  qed (use that in auto)
qed

theorem pick_finds_usable_witness:
  "fst (Pick 5 (new_upstream_pool two_backends)) \<noteq> None"
proof -
  have "pool_ok (new_upstream_pool two_backends)"
    by (simp add: pool_ok_def new_upstream_pool_def two_backends_def server_ok_def)
  moreover have "unat (up_counter (new_upstream_pool two_backends))
      + length (up_servers (new_upstream_pool two_backends)) \<le> 2 ^ 64"
    by (simp add: new_upstream_pool_def two_backends_def)
  ultimately show ?thesis
    using pick_finds_usable [of "new_upstream_pool two_backends" 5]
    by (auto simp: new_upstream_pool_def two_backends_def)
qed

section \<open>Idle connections\<close>

text \<open>
  A connection has an identity, its local open flag and the time of its last use. Entries with
  a null connection pointer are the \<open>None\<close> of \<open>en_conn\<close>. In \<open>AcquireConn\<close> the branch for a
  matching connection that is not open goes on with an iterator that \<^verbatim>\<open>erase\<close> has invalidated:
  undefined behaviour, the result \<open>None\<close> of the model.
\<close>

record Conn =
  cn_id :: nat
  cn_open :: bool
  cn_last_used :: int

record Entry =
  en_conn :: "Conn option"
  en_host :: string
  en_port :: u16

definition kIdleTimeout :: int where "kIdleTimeout = 30 * 1000000000"
definition kMaxEntries :: nat where "kMaxEntries = 64"

definition stale :: "int \<Rightarrow> Entry \<Rightarrow> bool" where
  "stale now e =
     (case en_conn e of None \<Rightarrow> True
      | Some c \<Rightarrow> \<not> cn_open c \<or> kIdleTimeout < now - cn_last_used c)"

definition EvictStale :: "int \<Rightarrow> Entry list \<Rightarrow> Entry list" where
  "EvictStale now entries = filter (\<lambda>e. \<not> stale now e) entries"

primrec acquire_loop :: "string \<Rightarrow> u16 \<Rightarrow> Entry list \<Rightarrow> (Conn option \<times> Entry list) option" where
  "acquire_loop host port [] = Some (None, [])"
| "acquire_loop host port (e # es) =
     (case en_conn e of
        Some c \<Rightarrow>
          if en_host e = host \<and> en_port e = port
          then (if cn_open c then Some (Some c, es) else None)
          else map_option (\<lambda>(r, es'). (r, e # es')) (acquire_loop host port es)
      | None \<Rightarrow> map_option (\<lambda>(r, es'). (r, e # es')) (acquire_loop host port es))"

definition AcquireConn :: "int \<Rightarrow> string \<Rightarrow> u16 \<Rightarrow> Entry list \<Rightarrow> (Conn option \<times> Entry list) option" where
  "AcquireConn now host port entries = acquire_loop host port (EvictStale now entries)"

text \<open>
  The search for the oldest entry dereferences the connection of the entry found so far;
  \<open>None\<close> is a null pointer there.
\<close>

primrec oldest_loop :: "nat \<Rightarrow> Conn \<Rightarrow> nat \<Rightarrow> Entry list \<Rightarrow> nat" where
  "oldest_loop best bc i [] = best"
| "oldest_loop best bc i (e # es) =
     (case en_conn e of
        Some c \<Rightarrow> if cn_last_used c < cn_last_used bc then oldest_loop i c (Suc i) es
                   else oldest_loop best bc (Suc i) es
      | None \<Rightarrow> oldest_loop best bc (Suc i) es)"

definition oldest :: "Entry list \<Rightarrow> nat option" where
  "oldest entries =
     (case entries of [] \<Rightarrow> None
      | e # es \<Rightarrow> map_option (\<lambda>c. oldest_loop 0 c 1 es) (en_conn e))"

definition remove_nth :: "nat \<Rightarrow> 'a list \<Rightarrow> 'a list" where
  "remove_nth i xs = take i xs @ drop (Suc i) xs"

definition ReleaseConn :: "int \<Rightarrow> Conn option \<Rightarrow> string \<Rightarrow> u16 \<Rightarrow> Entry list \<Rightarrow> Entry list option" where
  "ReleaseConn now conn host port entries =
     (case conn of
        None \<Rightarrow> Some entries
      | Some c \<Rightarrow>
          if \<not> cn_open c then Some entries
          else
            let e = \<lparr> en_conn = Some (c\<lparr> cn_last_used := now \<rparr>), en_host = host, en_port = port \<rparr>
            in if kMaxEntries \<le> length entries
               then map_option (\<lambda>i. remove_nth i entries @ [e]) (oldest entries)
               else Some (entries @ [e]))"

definition IdleCount :: "Entry list \<Rightarrow> nat" where
  "IdleCount entries = length entries"

text \<open>
  The pool's invariant: every entry has a connection, and there are at most 64. A pooled socket
  may be closed at any time only by the pool itself.
\<close>

definition conns_ok :: "Entry list \<Rightarrow> bool" where
  "conns_ok entries \<longleftrightarrow> list_all (\<lambda>e. \<exists>c. en_conn e = Some c \<and> cn_open c) entries \<and> length entries \<le> kMaxEntries"

definition entry_ids :: "Entry list \<Rightarrow> nat list" where
  "entry_ids entries = map (\<lambda>e. cn_id (the (en_conn e))) entries"

lemma EvictStale_ok: "conns_ok entries \<Longrightarrow> conns_ok (EvictStale now entries)"
  using order_trans [OF length_filter_le [of "\<lambda>e. \<not> stale now e" entries]]
  by (auto simp: conns_ok_def EvictStale_def list_all_iff)

lemma EvictStale_ids: "mset (entry_ids (EvictStale now entries)) \<subseteq># mset (entry_ids entries)"
  by (simp add: entry_ids_def EvictStale_def mset_map [symmetric] del: mset_map)
    (simp add: image_mset_subseteq_mono multiset_filter_subset)

lemma acquire_loop_spec:
  assumes "list_all (\<lambda>e. \<exists>c. en_conn e = Some c \<and> cn_open c) es"
  obtains (hit) es1 e es2 c where "es = es1 @ e # es2" "acquire_loop host port es = Some (Some c, es1 @ es2)"
      "en_conn e = Some c" "en_host e = host" "en_port e = port"
  | (miss) "acquire_loop host port es = Some (None, es)"
      "\<forall>e \<in> set es. en_host e \<noteq> host \<or> en_port e \<noteq> port"
proof -
  have "(\<exists>es1 e es2 c. es = es1 @ e # es2 \<and> acquire_loop host port es = Some (Some c, es1 @ es2)
      \<and> en_conn e = Some c \<and> en_host e = host \<and> en_port e = port)
    \<or> acquire_loop host port es = Some (None, es) \<and> (\<forall>e \<in> set es. en_host e \<noteq> host \<or> en_port e \<noteq> port)"
    using assms
  proof (induction es)
    case (Cons e es)
    then obtain c where c: "en_conn e = Some c" "cn_open c"
      by auto
    show ?case
    proof (cases "en_host e = host \<and> en_port e = port")
      case True
      with c have "acquire_loop host port (e # es) = Some (Some c, [] @ es)"
        by simp
      with True c(1) show ?thesis
        by (metis append_Nil)
    next
      case False
      from Cons consider (h) es1 e' es2 c' where "es = es1 @ e' # es2" "acquire_loop host port es = Some (Some c', es1 @ es2)"
          "en_conn e' = Some c'" "en_host e' = host" "en_port e' = port"
        | (m) "acquire_loop host port es = Some (None, es)" "\<forall>e \<in> set es. en_host e \<noteq> host \<or> en_port e \<noteq> port"
        by auto
      then show ?thesis
      proof cases
        case h
        with False c(1) have "acquire_loop host port (e # es) = Some (Some c', (e # es1) @ es2)"
          "e # es = (e # es1) @ e' # es2"
          by auto
        with h(3-5) show ?thesis
          by blast
      next
        case m
        with False c(1) show ?thesis
          by auto
      qed
    qed
  qed simp
  with hit miss show thesis
    by blast
qed

definition acquire_conn :: "int \<times> string \<times> u16 \<Rightarrow> Entry list \<Rightarrow> Conn option \<times> Entry list" where
  "acquire_conn k es =
     (case k of (now, host, port) \<Rightarrow>
        case AcquireConn now host port es of Some res \<Rightarrow> res | None \<Rightarrow> (None, es))"

definition release_conn :: "int \<times> string \<times> u16 \<Rightarrow> Conn \<Rightarrow> Entry list \<Rightarrow> Entry list" where
  "release_conn k c es =
     (case k of (now, host, port) \<Rightarrow>
        case ReleaseConn now (Some c) host port es of Some es' \<Rightarrow> es' | None \<Rightarrow> es)"

lemma AcquireConn_cases:
  assumes "conns_ok entries"
  obtains (hit) c es1 e es2 where "EvictStale now entries = es1 @ e # es2" "conns_ok (es1 @ es2)"
      "AcquireConn now host port entries = Some (Some c, es1 @ es2)"
      "en_conn e = Some c" "en_host e = host" "en_port e = port"
  | (miss) "AcquireConn now host port entries = Some (None, EvictStale now entries)"
      "conns_ok (EvictStale now entries)"
      "\<forall>e \<in> set (EvictStale now entries). en_host e \<noteq> host \<or> en_port e \<noteq> port"
proof -
  have ok: "conns_ok (EvictStale now entries)"
    by (rule EvictStale_ok [OF assms])
  then have all: "list_all (\<lambda>e. \<exists>c. en_conn e = Some c \<and> cn_open c) (EvictStale now entries)"
    by (simp add: conns_ok_def)
  show thesis
  proof (cases rule: acquire_loop_spec [OF all, of host port])
    case (1 es1 e es2 c)
    with ok have "conns_ok (es1 @ es2)"
      by (simp add: conns_ok_def)
    with 1 hit show thesis
      by (simp add: AcquireConn_def)
  next
    case 2
    with ok miss show thesis
      by (simp add: AcquireConn_def)
  qed
qed

lemma oldest_loop_bound: "best < i \<Longrightarrow> oldest_loop best bc i es < i + length es"
proof (induction es arbitrary: best bc i)
  case (Cons e es)
  then have "oldest_loop best bc (Suc i) es < Suc i + length es"
    "oldest_loop i c (Suc i) es < Suc i + length es" for c
    using Cons.IH [of best "Suc i" bc] Cons.IH [of i "Suc i" c] by simp_all
  then show ?case
    by (auto split: option.splits)
qed simp

lemma remove_nth_length: "i < length xs \<Longrightarrow> length (remove_nth i xs) = length xs - 1"
  by (simp add: remove_nth_def)

lemma mset_remove_nth: "mset (remove_nth i xs) \<subseteq># mset xs"
proof (cases "i < length xs")
  case True
  have "mset xs = add_mset (xs ! i) (mset (remove_nth i xs))"
    by (subst id_take_nth_drop [OF True]) (simp add: remove_nth_def)
  then show ?thesis
    by simp
qed (simp add: remove_nth_def)

lemma set_remove_nth: "set (remove_nth i xs) \<subseteq> set xs"
  by (auto simp: remove_nth_def dest: in_set_takeD in_set_dropD)

lemma entry_ids_remove: "entry_ids (remove_nth i es) = remove_nth i (entry_ids es)"
  by (simp add: entry_ids_def remove_nth_def take_map drop_map)

lemma ReleaseConn_spec:
  assumes "conns_ok entries"
  obtains entries' where "ReleaseConn now (Some c) host port entries = Some entries'" "conns_ok entries'"
    "mset (entry_ids entries') \<subseteq># add_mset (cn_id c) (mset (entry_ids entries))"
proof -
  let ?e = "\<lparr> en_conn = Some (c\<lparr> cn_last_used := now \<rparr>), en_host = host, en_port = port \<rparr>"
  have id: "entry_ids (es @ [?e]) = entry_ids es @ [cn_id c]" for es
    by (simp add: entry_ids_def)
  consider "\<not> cn_open c" | "cn_open c" "length entries < kMaxEntries"
    | e es where "cn_open c" "kMaxEntries \<le> length entries" "entries = e # es"
    by (cases entries; cases "length entries < kMaxEntries"; cases "cn_open c")
      (auto simp: kMaxEntries_def)
  then show thesis
  proof cases
    case 1
    with assms that show thesis
      by (simp add: ReleaseConn_def)
  next
    case 2
    with assms show thesis
      by (intro that [of "entries @ [?e]"]) (simp_all add: ReleaseConn_def id conns_ok_def)
  next
    case 3
    then obtain bc where bc: "en_conn e = Some bc"
      using assms by (auto simp: conns_ok_def)
    define i where "i = oldest_loop 0 bc 1 es"
    have "i < length entries"
      using oldest_loop_bound [of 0 1 bc es] 3(3) by (simp add: i_def)
    then have "conns_ok (remove_nth i entries @ [?e])"
      using assms 3(1) set_remove_nth [of i entries]
      by (auto simp: conns_ok_def remove_nth_length list_all_iff)
    moreover have "ReleaseConn now (Some c) host port entries = Some (remove_nth i entries @ [?e])"
      using 3 bc by (simp add: ReleaseConn_def oldest_def i_def)
    ultimately show thesis
      using that mset_remove_nth [of i "entry_ids entries"] by (simp add: id entry_ids_remove)
  qed
qed

interpretation conn_pool: lending_pool acquire_conn release_conn entry_ids cn_id conns_ok
proof
  fix s k r s'
  assume ok: "conns_ok s" and a: "acquire_conn k s = (Some r, s')"
  obtain now host port where k: "k = (now, host, port)"
    by (cases k)
  show "conns_ok s' \<and> add_mset (cn_id r) (mset (entry_ids s')) \<subseteq># mset (entry_ids s)"
  proof (cases rule: AcquireConn_cases [OF ok, of now host port])
    case (1 c es1 e es2)
    then have "mset (entry_ids (EvictStale now s)) = add_mset (cn_id c) (mset (entry_ids (es1 @ es2)))"
      by (simp add: entry_ids_def)
    with 1 a show ?thesis
      using EvictStale_ids [of now s] by (simp add: acquire_conn_def k)
  qed (use a in \<open>simp add: acquire_conn_def k\<close>)
next
  fix s k s'
  assume ok: "conns_ok s" and a: "acquire_conn k s = (None, s')"
  obtain now host port where k: "k = (now, host, port)"
    by (cases k)
  show "conns_ok s' \<and> mset (entry_ids s') \<subseteq># mset (entry_ids s)"
    using a EvictStale_ids [of now s]
    by (cases rule: AcquireConn_cases [OF ok, of now host port]) (auto simp: acquire_conn_def k)
next
  fix s r and k :: "int \<times> string \<times> u16"
  assume ok: "conns_ok s"
  obtain now host port where k: "k = (now, host, port)"
    by (cases k)
  obtain s' where "ReleaseConn now (Some r) host port s = Some s'" "conns_ok s'"
    "mset (entry_ids s') \<subseteq># add_mset (cn_id r) (mset (entry_ids s))"
    by (rule ReleaseConn_spec [OF ok])
  then show "conns_ok (release_conn k r s)
      \<and> mset (entry_ids (release_conn k r s)) \<subseteq># add_mset (cn_id r) (mset (entry_ids s))"
    by (simp add: release_conn_def k)
qed

text \<open>C23. However the coroutines of a worker acquire, open, close and release upstream connections,
  no connection is handed to two of them or pooled while in use, at most 64 are idle, and
  \<open>Acquire\<close> never reaches its use of an invalidated iterator: it returns an open connection that
  was released for the same host and port at most 30 seconds ago, or reports that none is left.\<close>

theorem upstream_connections_exclusive:
  assumes "lend_reach acquire_conn release_conn entry_ids cn_id [] entries held"
  shows "distinct (entry_ids entries @ map cn_id held) \<and> IdleCount entries \<le> 64
    \<and> (\<exists>r entries'. AcquireConn now host port entries = Some (r, entries') \<and>
      (case r of
         Some c \<Rightarrow> \<exists>e \<in> set entries. en_conn e = Some c \<and> en_host e = host \<and> en_port e = port
           \<and> cn_open c \<and> now - cn_last_used c \<le> kIdleTimeout
       | None \<Rightarrow> \<forall>e \<in> set entries. en_host e = host \<and> en_port e = port \<longrightarrow> stale now e))"
proof (intro conjI)
  have ok: "conns_ok entries" "distinct (entry_ids entries @ map cn_id held)"
    using conn_pool.exclusive [OF assms] by (simp_all add: conns_ok_def entry_ids_def)
  then show "distinct (entry_ids entries @ map cn_id held)" and "IdleCount entries \<le> 64"
    by (simp_all add: conns_ok_def IdleCount_def kMaxEntries_def)
  show "\<exists>r entries'. AcquireConn now host port entries = Some (r, entries') \<and>
      (case r of
         Some c \<Rightarrow> \<exists>e \<in> set entries. en_conn e = Some c \<and> en_host e = host \<and> en_port e = port
           \<and> cn_open c \<and> now - cn_last_used c \<le> kIdleTimeout
       | None \<Rightarrow> \<forall>e \<in> set entries. en_host e = host \<and> en_port e = port \<longrightarrow> stale now e)"
  proof (cases rule: AcquireConn_cases [OF ok(1), of now host port])
    case (1 c es1 e es2)
    then have "e \<in> set (EvictStale now entries)"
      by simp
    then have "e \<in> set entries" "\<not> stale now e"
      by (auto simp: EvictStale_def)
    with 1 show ?thesis
      by (auto simp: stale_def)
  next
    case 2
    then show ?thesis
      by (auto simp: EvictStale_def)
  qed
qed

theorem upstream_connections_exclusive_witness:
  "IdleCount (release_conn (5, ''a'', 80) \<lparr> cn_id = 1, cn_open = True, cn_last_used = 0 \<rparr> []) \<le> 64"
proof -
  let ?c = "\<lparr> cn_id = 1, cn_open = True, cn_last_used = 0 \<rparr>"
  have "lend_reach acquire_conn release_conn entry_ids cn_id [] [] []"
    by (rule lend_start)
  then have "lend_reach acquire_conn release_conn entry_ids cn_id [] [] [?c]"
    by (rule lend_create) (simp add: entry_ids_def)
  then have "lend_reach acquire_conn release_conn entry_ids cn_id [] (release_conn (5, ''a'', 80) ?c []) []"
    using lend_release [where ?h1.0 = "[]" and ?h2.0 = "[]"] by fastforce
  then show ?thesis
    by (rule conjunct1 [OF conjunct2 [OF upstream_connections_exclusive]])
qed

end
