(* ===== verification/Response.thy ===== *)
theory Response
  imports Region
begin

text \<open>
  Building responses (\<^verbatim>\<open>net/response.cpp\<close>). On an HTTP/1.1 session the text of a response is
  written into the session's region as it is built; on an HTTP/2 session (structured mode of
  the region) the header fields go to a fixed array from which the session encodes them.
  \<^verbatim>\<open>CachedDate()\<close> is the argument \<open>date\<close>. The header operations dereference \<^verbatim>\<open>region_\<close> and are
  used for responses with a region only.
\<close>

section \<open>Data\<close>

definition kMaxResponseHeaders :: nat where "kMaxResponseHeaders = 32"
definition kMaxFieldLen :: nat where "kMaxFieldLen = 128"

record PendingHeader =
  ph_name :: string
  ph_value :: string
  ph_int_buf :: string
  ph_is_int :: bool

record Response =
  rs_region :: bool
  rs_begin_off :: nat
  rs_header_end :: nat
  rs_code :: nat
  rs_hdr :: "PendingHeader list option"
  rs_ext_body :: "string option"
  rs_fd :: int
  rs_file_size :: nat
  rs_range_offset :: nat
  rs_range_len :: nat
  rs_raw_wire :: string
  rs_raw_mode :: bool
  rs_sse :: bool
  rs_push_interval :: int
  rs_ws_upgrade :: bool
  rs_ws_accept :: string

definition NoneResponse :: Response where
  "NoneResponse = \<lparr> rs_region = False, rs_begin_off = 0, rs_header_end = 0, rs_code = 200, rs_hdr = None,
     rs_ext_body = None, rs_fd = -1, rs_file_size = 0, rs_range_offset = 0, rs_range_len = 0,
     rs_raw_wire = [], rs_raw_mode = False, rs_sse = False, rs_push_interval = 1000,
     rs_ws_upgrade = False, rs_ws_accept = [] \<rparr>"

type_synonym response_state = "region_state \<times> Response"

section \<open>Building\<close>

definition status_text :: "nat \<Rightarrow> string" where
  "status_text code =
     (if code = 200 then ''200 OK'' else if code = 206 then ''206 Partial Content''
      else if code = 301 then ''301 Moved Permanently'' else if code = 302 then ''302 Found''
      else if code = 307 then ''307 Temporary Redirect'' else if code = 308 then ''308 Permanent Redirect''
      else if code = 204 then ''204 No Content'' else if code = 304 then ''304 Not Modified''
      else if code = 101 then ''101 Switching Protocols'' else if code = 400 then ''400 Bad Request''
      else if code = 403 then ''403 Forbidden'' else if code = 404 then ''404 Not Found''
      else if code = 426 then ''426 Upgrade Required'' else if code = 501 then ''501 Not Implemented''
      else ''500 Internal Server Error'')"

definition new_response :: "nat \<Rightarrow> region_state \<Rightarrow> response_state" where
  "new_response code st =
     (WriteCRLF (WriteRegion (status_text code) (WriteRegion ''HTTP/1.1 '' st)),
      NoneResponse\<lparr> rs_region := True, rs_begin_off := sr_used (snd st), rs_code := code \<rparr>)"

definition RawResponse :: "nat \<Rightarrow> string \<Rightarrow> Response" where
  "RawResponse code wire = NoneResponse\<lparr> rs_code := code, rs_raw_wire := wire, rs_raw_mode := True \<rparr>"

text \<open>
  Storing a structured field: up to 32 fields, name and value cut to 127 bytes.
\<close>

definition field_text :: "string \<Rightarrow> string" where
  "field_text s = take (min (length s) (kMaxFieldLen - 1)) s"

definition store_header :: "PendingHeader \<Rightarrow> Response \<Rightarrow> Response" where
  "store_header p r =
     (let hdr = (case rs_hdr r of None \<Rightarrow> [] | Some hs \<Rightarrow> hs)
      in if length hdr < kMaxResponseHeaders then r\<lparr> rs_hdr := Some (hdr @ [p]) \<rparr> else r\<lparr> rs_hdr := Some hdr \<rparr>)"

definition ResponseHeader :: "string \<Rightarrow> string \<Rightarrow> response_state \<Rightarrow> response_state" where
  "ResponseHeader key value sr =
     (case sr of (st, r) \<Rightarrow>
        if \<not> sr_structured (snd st)
        then (WriteCRLF (WriteRegion value (WriteRegion '': '' (WriteRegion key st))), r)
        else (st, store_header \<lparr> ph_name = field_text key, ph_value = field_text value,
                    ph_int_buf = [], ph_is_int = False \<rparr> r))"

definition ResponseHeaderUint :: "string \<Rightarrow> nat \<Rightarrow> response_state \<Rightarrow> response_state" where
  "ResponseHeaderUint key value sr =
     (case sr of (st, r) \<Rightarrow>
        if \<not> sr_structured (snd st)
        then (WriteCRLF (WriteUint value (WriteRegion '': '' (WriteRegion key st))), r)
        else (st, store_header \<lparr> ph_name = field_text key, ph_value = [],
                    ph_int_buf = uint_text value, ph_is_int = True \<rparr> r))"

definition EndHeaders :: "string \<Rightarrow> response_state \<Rightarrow> response_state" where
  "EndHeaders date sr =
     (case sr of (st, r) \<Rightarrow>
        let st1 = (if \<not> sr_structured (snd st)
                   then let st2 = WriteCRLF (WriteRegion date (WriteRegion ''Date: '' st))
                        in if \<not> rs_sse r \<and> \<not> rs_ws_upgrade r
                           then WriteRegion (''Connection: keep-alive'' @ [CHR 0x0D, CHR 0x0A]) st2 else st2
                   else st);
            st3 = WriteCRLF st1
        in (st3, r\<lparr> rs_header_end := sr_used (snd st3) \<rparr>))"

definition ResponseBody :: "string \<Rightarrow> Response \<Rightarrow> Response" where
  "ResponseBody s r = r\<lparr> rs_ext_body := Some s \<rparr>"

definition BodyFile :: "int \<Rightarrow> nat \<Rightarrow> nat \<Rightarrow> nat \<Rightarrow> Response \<Rightarrow> Response" where
  "BodyFile fd file_size range_offset range_len r =
     r\<lparr> rs_fd := fd, rs_file_size := file_size, rs_range_offset := range_offset, rs_range_len := range_len \<rparr>"

section \<open>Queries\<close>

definition IsNone :: "Response \<Rightarrow> bool" where
  "IsNone r \<longleftrightarrow> \<not> rs_region r \<and> \<not> rs_raw_mode r"

definition IsFile :: "Response \<Rightarrow> bool" where
  "IsFile r \<longleftrightarrow> rs_region r \<and> 0 \<le> rs_fd r"

definition region_text :: "region_state \<Rightarrow> nat \<Rightarrow> nat \<Rightarrow> string" where
  "region_text st from till =
     mem_read (pool_mem (fst st)) (RegionData (snd st) + from) (till - from)"

definition HeaderWire :: "response_state \<Rightarrow> string" where
  "HeaderWire sr =
     (case sr of (st, r) \<Rightarrow>
        if rs_raw_mode r then rs_raw_wire r
        else if rs_region r then region_text st (rs_begin_off r) (rs_header_end r) else [])"

definition BodyWire :: "response_state \<Rightarrow> string" where
  "BodyWire sr =
     (case sr of (st, r) \<Rightarrow>
        case rs_ext_body r of
          Some s \<Rightarrow> s
        | None \<Rightarrow>
            if rs_region r \<and> 0 < rs_header_end r \<and> rs_header_end r < sr_used (snd st)
            then region_text st (rs_header_end r) (sr_used (snd st)) else [])"

definition ResponseHeaderCount :: "Response \<Rightarrow> nat" where
  "ResponseHeaderCount r = (case rs_hdr r of None \<Rightarrow> 0 | Some hs \<Rightarrow> length hs)"

definition ResponseHeaderAt :: "nat \<Rightarrow> Response \<Rightarrow> string \<times> string" where
  "ResponseHeaderAt i r =
     (case rs_hdr r of
        None \<Rightarrow> ([], [])
      | Some hs \<Rightarrow>
          if length hs \<le> i then ([], [])
          else (ph_name (hs ! i), if ph_is_int (hs ! i) then ph_int_buf (hs ! i) else ph_value (hs ! i)))"

section \<open>Factories\<close>

definition SSEStream :: "string \<Rightarrow> int \<Rightarrow> region_state \<Rightarrow> response_state" where
  "SSEStream date min_interval_ms st =
     (let (st0, r0) = new_response 200 st;
          (st1, r1) = EndHeaders date (ResponseHeader ''Cache-Control'' ''no-cache''
                        (ResponseHeader ''Content-Type'' ''text/event-stream'' (st0, r0\<lparr> rs_sse := True \<rparr>)))
      in (st1, r1\<lparr> rs_push_interval := max min_interval_ms 200 \<rparr>))"

definition WebSocketUpgrade :: "string \<Rightarrow> string \<Rightarrow> region_state \<Rightarrow> response_state" where
  "WebSocketUpgrade date accept st =
     (let (st0, r0) = new_response 101 st
      in EndHeaders date (ResponseHeader ''Sec-WebSocket-Accept'' accept
           (ResponseHeader ''Connection'' ''Upgrade'' (ResponseHeader ''Upgrade'' ''websocket''
             (st0, r0\<lparr> rs_ws_upgrade := True, rs_ws_accept := accept \<rparr>)))))"

definition error_text :: "nat \<Rightarrow> string" where
  "error_text code =
     (if code = 400 then ''Bad Request'' else if code = 403 then ''Forbidden''
      else if code = 404 then ''Not Found'' else if code = 416 then ''Range Not Satisfiable''
      else if code = 501 then ''Not Implemented'' else ''Error'')"

text \<open>The body always fits the 128 bytes of its buffer.\<close>

definition error_page :: "nat \<Rightarrow> string" where
  "error_page code = ''<h1>'' @ uint_text code @ '' '' @ error_text code @ ''</h1>''"

definition ErrorResponse :: "string \<Rightarrow> nat \<Rightarrow> region_state \<Rightarrow> response_state" where
  "ErrorResponse date code st =
     (let (st1, r1) = EndHeaders date (ResponseHeaderUint ''Content-Length'' (length (error_page code))
                        (ResponseHeader ''Content-Type'' ''text/html'' (new_response code st)))
      in (WriteRegion (error_page code) st1, r1))"

section \<open>Text in the region\<close>

lemma mem_write_Nil [simp]: "mem_write a [] m = m"
  by (auto simp: mem_write_def fun_eq_iff)

lemma WriteRegion_eq:
  assumes "region_inv others st" and "sr_used (snd st) + length s \<le> sr_cap (snd st)"
  shows "WriteRegion s st =
    ((fst st)\<lparr> pool_mem := mem_write (sr_offset (snd st) + sr_used (snd st)) s (pool_mem (fst st)) \<rparr>,
     (snd st)\<lparr> sr_used := sr_used (snd st) + length s \<rparr>)"
proof -
  have "wrap64 (sr_used (snd st) + length s) = sr_used (snd st) + length s"
    using region_inv_bounds [of others "fst st" "snd st"] assms
    by (intro wrap64_small) (simp add: kPoolSize_def)
  with assms(2) show ?thesis
    by (cases st) (auto simp: WriteRegion_def RegionData_def Let_def)
qed

text \<open>
  \<open>appended others st tx st'\<close>: the text \<open>tx\<close> was written behind what the region of \<open>st\<close> held, and
  nothing else changed for the users of the region.
\<close>

definition appended :: "FreeSlot list \<Rightarrow> region_state \<Rightarrow> string \<Rightarrow> region_state \<Rightarrow> bool" where
  "appended others st tx st' \<longleftrightarrow>
     region_inv others st' \<and> sr_used (snd st') = sr_used (snd st) + length tx
     \<and> sr_cap (snd st') = sr_cap (snd st) \<and> sr_structured (snd st') = sr_structured (snd st)
     \<and> (\<forall>from \<le> sr_used (snd st). region_text st' from (sr_used (snd st) + length tx) =
           region_text st from (sr_used (snd st)) @ tx)
     \<and> (\<forall>from till. till \<le> sr_used (snd st) \<longrightarrow> region_text st' from till = region_text st from till)"

lemma appended_refl: "region_inv others st \<Longrightarrow> appended others st [] st"
  by (simp add: appended_def)

lemma appended_trans:
  "appended others st t1 st1 \<Longrightarrow> appended others st1 t2 st2 \<Longrightarrow> appended others st (t1 @ t2) st2"
  by (auto simp: appended_def add.assoc)

lemma appended_write:
  assumes "appended others st tx st'" and "sr_used (snd st) + length tx + length s \<le> sr_cap (snd st)"
  shows "appended others st (tx @ s) (WriteRegion s st')"
proof (rule appended_trans [OF assms(1)])
  have inv: "region_inv others st'" and room: "sr_used (snd st') + length s \<le> sr_cap (snd st')"
    using assms by (auto simp: appended_def)
  have "region_inv others (WriteRegion s st')"
    using WriteRegion_eq [OF inv room] inv room by (cases st') (simp add: region_inv_def pool_inv_def)
  moreover have "region_text (WriteRegion s st') from (sr_used (snd st') + length s) =
      region_text st' from (sr_used (snd st')) @ s" if "from \<le> sr_used (snd st')" for "from"
    using that
    by (intro nth_equalityI)
      (auto simp: WriteRegion_eq [OF inv room] region_text_def RegionData_def mem_write_def mem_read_def
         nth_append add.commute)
  moreover have "region_text (WriteRegion s st') from till = region_text st' from till"
    if "till \<le> sr_used (snd st')" for "from" till
    using that
    by (auto simp: WriteRegion_eq [OF inv room] region_text_def RegionData_def mem_write_def mem_read_def)
  ultimately show "appended others st' s (WriteRegion s st')"
    by (simp add: appended_def WriteRegion_eq [OF inv room])
qed

section \<open>The wire form of a response\<close>

abbreviation line_end :: string where
  "line_end \<equiv> [CHR 0x0D, CHR 0x0A]"

definition status_line :: "nat \<Rightarrow> string" where
  "status_line code = ''HTTP/1.1 '' @ status_text code @ line_end"

definition field_line :: "string \<times> string \<Rightarrow> string" where
  "field_line h = fst h @ '': '' @ snd h @ line_end"

definition head_end :: "string \<Rightarrow> bool \<Rightarrow> string" where
  "head_end date keep =
     field_line (''Date'', date) @ (if keep then field_line (''Connection'', ''keep-alive'') else []) @ line_end"

definition head_text :: "nat \<Rightarrow> (string \<times> string) list \<Rightarrow> string \<Rightarrow> bool \<Rightarrow> string" where
  "head_text code hs date keep = status_line code @ concat (map field_line hs) @ head_end date keep"

lemma appended_writes:
  assumes "appended others st tx st'"
    and "sr_used (snd st) + length tx + length (concat ss) \<le> sr_cap (snd st)"
  shows "appended others st (tx @ concat ss) (fold WriteRegion ss st')"
  using assms
proof (induction ss arbitrary: tx st')
  case (Cons s ss)
  have "appended others st (tx @ s) (WriteRegion s st')"
    using Cons.prems by (intro appended_write) auto
  from Cons.IH [OF this] Cons.prems(2) show ?case
    by simp
qed simp

lemma new_response_appended:
  assumes "region_inv others st"
    and "sr_used (snd st) + length (status_line code) \<le> sr_cap (snd st)"
  shows "appended others st (status_line code) (fst (new_response code st))"
  using appended_writes [OF appended_refl [OF assms(1)], of "[''HTTP/1.1 '', status_text code, line_end]"] assms(2)
  by (simp add: new_response_def status_line_def WriteCRLF_def)

lemma ResponseHeader_appended:
  assumes "appended others st tx st'" and "\<not> sr_structured (snd st)"
    and "sr_used (snd st) + length tx + length (field_line (k, v)) \<le> sr_cap (snd st)"
  shows "appended others st (tx @ field_line (k, v)) (fst (ResponseHeader k v (st', r)))"
    and "snd (ResponseHeader k v (st', r)) = r"
proof -
  have "\<not> sr_structured (snd st')"
    using assms(1,2) by (simp add: appended_def)
  then show "appended others st (tx @ field_line (k, v)) (fst (ResponseHeader k v (st', r)))"
    and "snd (ResponseHeader k v (st', r)) = r"
    using appended_writes [OF assms(1), of "[k, '': '', v, line_end]"] assms(3)
    by (simp_all add: ResponseHeader_def field_line_def WriteCRLF_def)
qed

lemma ResponseHeaderUint_text:
  "\<not> sr_structured (snd (fst sr)) \<Longrightarrow> ResponseHeaderUint k n sr = ResponseHeader k (uint_text n) sr"
  by (cases sr) (simp add: ResponseHeaderUint_def ResponseHeader_def WriteUint_def)

lemma headers_appended:
  assumes "appended others st tx st'" and "\<not> sr_structured (snd st)"
    and "sr_used (snd st) + length tx + length (concat (map field_line hs)) \<le> sr_cap (snd st)"
  shows "\<exists>st''. fold (\<lambda>(k, v). ResponseHeader k v) hs (st', r) = (st'', r)
    \<and> appended others st (tx @ concat (map field_line hs)) st''"
  using assms
proof (induction hs arbitrary: tx st')
  case (Cons h hs)
  obtain k v where h: "h = (k, v)"
    by fastforce
  obtain st1 where "ResponseHeader k v (st', r) = (st1, r)" "appended others st (tx @ field_line h) st1"
    using ResponseHeader_appended [of others st tx st' k v r] Cons.prems by (fastforce simp: h prod_eq_iff)
  with Cons.IH [of "tx @ field_line h" st1] Cons.prems show ?case
    by (auto simp: h)
qed auto

lemma EndHeaders_appended:
  assumes "appended others st tx st'" and "\<not> sr_structured (snd st)"
    and "keep \<longleftrightarrow> \<not> rs_sse r \<and> \<not> rs_ws_upgrade r"
    and "sr_used (snd st) + length tx + length (head_end date keep) \<le> sr_cap (snd st)"
  shows "\<exists>st''. EndHeaders date (st', r) = (st'', r\<lparr> rs_header_end := sr_used (snd st'') \<rparr>)
    \<and> appended others st (tx @ head_end date keep) st''"
proof -
  have ns: "\<not> sr_structured (snd st')"
    using assms(1,2) by (simp add: appended_def)
  let ?keep = "if keep then [''Connection: keep-alive'' @ line_end] else []"
  have "appended others st (tx @ head_end date keep)
      (fold WriteRegion ([''Date: '', date, line_end] @ ?keep @ [line_end]) st')"
    using appended_writes [OF assms(1), of "[''Date: '', date, line_end] @ ?keep @ [line_end]"] assms(4)
    by (cases keep) (simp_all add: head_end_def field_line_def)
  moreover have "EndHeaders date (st', r) =
      (let st'' = fold WriteRegion ([''Date: '', date, line_end] @ ?keep @ [line_end]) st'
       in (st'', r\<lparr> rs_header_end := sr_used (snd st'') \<rparr>))"
    using ns assms(3) by (simp add: EndHeaders_def WriteCRLF_def Let_def)
  ultimately show ?thesis
    by (auto simp: Let_def)
qed

text \<open>A response built on an HTTP/1.1 region with \<open>new_response\<close>, the header calls and \<open>EndHeaders\<close>.\<close>

lemma build_wire:
  assumes "region_inv others st" and "\<not> sr_structured (snd st)"
    and "sr_used (snd st) + length (head_text code hs date True) + length body \<le> sr_cap (snd st)"
    and "EndHeaders date (fold (\<lambda>(k, v). ResponseHeader k v) hs (new_response code st)) = (st', r)"
  shows "HeaderWire (WriteRegion body st', r) = head_text code hs date True"
    and "BodyWire (WriteRegion body st', r) = body"
proof -
  have "appended others st (status_line code) (fst (new_response code st))"
    using assms(1,3) by (intro new_response_appended) (simp_all add: head_text_def)
  then obtain st2 where st2: "fold (\<lambda>(k, v). ResponseHeader k v) hs (new_response code st) = (st2, snd (new_response code st))"
    "appended others st (status_line code @ concat (map field_line hs)) st2"
    using headers_appended [of others st "status_line code" "fst (new_response code st)" hs "snd (new_response code st)"]
      assms(2,3) by (auto simp: head_text_def)
  then have st': "r = (snd (new_response code st))\<lparr> rs_header_end := sr_used (snd st') \<rparr>"
    "appended others st (head_text code hs date True) st'"
    using EndHeaders_appended [OF st2(2) assms(2), of True "snd (new_response code st)" date] assms(3,4)
    by (auto simp: head_text_def new_response_def NoneResponse_def)
  have r: "rs_region r" "\<not> rs_raw_mode r" "rs_begin_off r = sr_used (snd st)" "rs_ext_body r = None"
    "rs_header_end r = sr_used (snd st) + length (head_text code hs date True)"
    using st' by (simp_all add: new_response_def NoneResponse_def appended_def)
  have b: "appended others st' body (WriteRegion body st')"
    using appended_write [OF appended_refl, of others st' body] st'(2) assms(3) by (simp add: appended_def)
  have empty: "region_text s n n = []" for s n
    by (simp add: region_text_def mem_read_def)
  show "HeaderWire (WriteRegion body st', r) = head_text code hs date True"
    using r b st'(2) by (simp add: HeaderWire_def appended_def empty)
  show "BodyWire (WriteRegion body st', r) = body"
    using r b st'(2) by (auto simp: BodyWire_def appended_def empty head_text_def status_line_def)
qed

text \<open>C24. On an HTTP/1.1 session a response is serialised exactly: the header text is the status line,
  the fields in the order they were added, the date, \<open>Connection: keep-alive\<close> and an empty line,
  and the body is what was written after the headers, whatever the region held before.\<close>

theorem response_wire_exact:
  assumes "region_inv others st" and "\<not> sr_structured (snd st)"
    and "sr_used (snd st) + length (head_text code hs date True) + length body \<le> sr_cap (snd st)"
  shows "case EndHeaders date (fold (\<lambda>(k, v). ResponseHeader k v) hs (new_response code st)) of (st', r) \<Rightarrow>
     HeaderWire (WriteRegion body st', r) = head_text code hs date True \<and> BodyWire (WriteRegion body st', r) = body"
  using build_wire [OF assms] by (auto split: prod.splits)

lemma WriteRegion_structured [simp]: "sr_structured (snd (WriteRegion s st)) = sr_structured (snd st)"
  by (cases st) (auto simp: WriteRegion_def Migrate_def Let_def split: prod.splits if_splits)

lemma ErrorResponse_build:
  assumes "\<not> sr_structured (snd st)"
  shows "ErrorResponse date code st =
    (case EndHeaders date (fold (\<lambda>(k, v). ResponseHeader k v)
       [(''Content-Type'', ''text/html''), (''Content-Length'', uint_text (length (error_page code)))]
       (new_response code st)) of (st1, r1) \<Rightarrow> (WriteRegion (error_page code) st1, r1))"
  using assms
  by (simp add: ErrorResponse_def ResponseHeaderUint_text ResponseHeader_def [of "''Content-Type''"]
      new_response_def WriteCRLF_def)

lemma status_text_length: "length (status_text code) \<le> 25"
  by (simp add: status_text_def)

lemma error_text_length: "length (error_text code) \<le> 21"
  by (simp add: error_text_def)

text \<open>An error response of an HTTP/1.1 session announces the length of the page it carries.\<close>

theorem error_length_matches:
  assumes "region_inv others st" and "\<not> sr_structured (snd st)"
    and "sr_used (snd st) + 512 + length date \<le> sr_cap (snd st)" and "code < 1000"
  shows "HeaderWire (ErrorResponse date code st) =
      head_text code [(''Content-Type'', ''text/html''),
        (''Content-Length'', uint_text (length (BodyWire (ErrorResponse date code st))))] date True"
    and "BodyWire (ErrorResponse date code st) = error_page code"
proof -
  let ?hs = "[(''Content-Type'', ''text/html''), (''Content-Length'', uint_text (length (error_page code)))]"
  have "length (uint_text code) \<le> 20"
    using assms(4) by (intro uint_text_length) simp
  then have page: "length (error_page code) \<le> 51"
    using error_text_length [of code] by (simp add: error_page_def)
  then have "length (uint_text (length (error_page code))) \<le> 20"
    by (intro uint_text_length) simp
  with page have room: "sr_used (snd st) + length (head_text code ?hs date True) + length (error_page code) \<le> sr_cap (snd st)"
    using assms(3) status_text_length [of code]
    by (simp add: head_text_def status_line_def field_line_def head_end_def)
  obtain st1 r1 where e: "EndHeaders date (fold (\<lambda>(k, v). ResponseHeader k v) ?hs (new_response code st)) = (st1, r1)"
    by fastforce
  show body: "BodyWire (ErrorResponse date code st) = error_page code"
    using build_wire(2) [OF assms(1,2) room e] by (simp only: ErrorResponse_build [OF assms(2)] e prod.case)
  show "HeaderWire (ErrorResponse date code st) =
      head_text code [(''Content-Type'', ''text/html''),
        (''Content-Length'', uint_text (length (BodyWire (ErrorResponse date code st))))] date True"
    using build_wire(1) [OF assms(1,2) room e]
    unfolding body by (simp only: ErrorResponse_build [OF assms(2)] e prod.case)
qed

text \<open>The status line of a response names its status code exactly for the fourteen codes the
  constructor knows and for 500; every other code, such as the 502 of the proxy handlers or a
  status passed on from an upstream server, goes out as 500.\<close>

theorem status_line_code:
  "digits_value (takeWhile (\<lambda>c. c \<noteq> CHR '' '') (status_text code)) =
     (if code \<in> {101, 200, 204, 206, 301, 302, 304, 307, 308, 400, 403, 404, 426, 501} then code else 500)"
  by (simp add: status_text_def digits_value_def)

section \<open>Structured headers\<close>

definition stored :: "Response \<Rightarrow> PendingHeader list" where
  "stored r = (case rs_hdr r of None \<Rightarrow> [] | Some hs \<Rightarrow> hs)"

definition pending :: "string \<times> string \<Rightarrow> PendingHeader" where
  "pending h = \<lparr> ph_name = field_text (fst h), ph_value = field_text (snd h), ph_int_buf = [], ph_is_int = False \<rparr>"

lemma headers_stored:
  assumes "sr_structured (snd st)" and "length (stored r) \<le> 32"
  shows "\<exists>r'. fold (\<lambda>(k, v). ResponseHeader k v) hs (st, r) = (st, r') \<and> stored r' = take 32 (stored r @ map pending hs)"
  using assms(2)
proof (induction hs arbitrary: r)
  case (Cons h hs)
  define r1 where "r1 = store_header (pending h) r"
  have "ResponseHeader (fst h) (snd h) (st, r) = (st, r1)"
    using assms(1) by (simp add: ResponseHeader_def r1_def pending_def)
  moreover have r1: "stored r1 = take 32 (stored r @ [pending h])"
    using Cons.prems by (auto simp: r1_def store_header_def stored_def kMaxResponseHeaders_def Let_def split: option.splits)
  then have "length (stored r1) \<le> 32"
    by simp
  from Cons.IH [OF this] obtain r' where "fold (\<lambda>(k, v). ResponseHeader k v) hs (st, r1) = (st, r')"
    "stored r' = take 32 (stored r1 @ map pending hs)"
    by blast
  moreover have "take 32 (stored r1 @ map pending hs) = take 32 (stored r @ map pending (h # hs))"
    using Cons.prems unfolding r1 by (cases "length (stored r) = 32") auto
  ultimately show ?case
    by (cases h) auto
qed simp

lemma stored_view:
  "map (\<lambda>i. ResponseHeaderAt i r) [0..<ResponseHeaderCount r] =
     map (\<lambda>p. (ph_name p, if ph_is_int p then ph_int_buf p else ph_value p)) (stored r)"
proof (rule nth_equalityI)
  show "length (map (\<lambda>i. ResponseHeaderAt i r) [0..<ResponseHeaderCount r]) =
      length (map (\<lambda>p. (ph_name p, if ph_is_int p then ph_int_buf p else ph_value p)) (stored r))"
    by (simp add: ResponseHeaderCount_def stored_def split: option.splits)
qed (auto simp: ResponseHeaderAt_def ResponseHeaderCount_def stored_def split: option.splits)

text \<open>On an HTTP/2 session the fields of a response are the first 32 that were added, in
  order, each name and value cut to 127 bytes; nothing is written to the region for them.\<close>

theorem structured_headers:
  assumes "sr_structured (snd st)" and "rs_hdr r = None"
  shows "case fold (\<lambda>(k, v). ResponseHeader k v) hs (st, r) of (st', r') \<Rightarrow>
     st' = st \<and> map (\<lambda>i. ResponseHeaderAt i r') [0..<ResponseHeaderCount r'] =
       take 32 (map (\<lambda>(k, v). (take 127 k, take 127 v)) hs)"
proof -
  have "stored r = []"
    using assms(2) by (simp add: stored_def)
  then obtain r' where "fold (\<lambda>(k, v). ResponseHeader k v) hs (st, r) = (st, r')" "stored r' = take 32 (map pending hs)"
    using headers_stored [OF assms(1), of r hs] by auto
  then show ?thesis
    by (auto simp: stored_view take_map pending_def field_text_def kMaxFieldLen_def min_def)
qed

section \<open>Concrete responses\<close>

lemma fresh_region: "region_inv [(0, 65536)] (fst two_sessions, hd (snd two_sessions))"
  using pool_reach_inv [OF two_sessions_reach] by (simp add: two_sessions_eq region_inv_def region_slot_def)

lemma fresh_region_fields:
  "sr_used (hd (snd two_sessions)) = 0" "sr_cap (hd (snd two_sessions)) = 65536"
  "\<not> sr_structured (hd (snd two_sessions))"
  by (simp_all add: two_sessions_eq)

theorem response_wire_exact_witness:
  "case EndHeaders ''now'' (fold (\<lambda>(k, v). ResponseHeader k v) [(''A'', ''b'')]
       (new_response 200 (fst two_sessions, hd (snd two_sessions)))) of (st', r) \<Rightarrow>
     HeaderWire (WriteRegion ''hi'' st', r) = head_text 200 [(''A'', ''b'')] ''now'' True
     \<and> BodyWire (WriteRegion ''hi'' st', r) = ''hi''"
  by (rule response_wire_exact [OF fresh_region])
    (simp_all add: fresh_region_fields head_text_def status_line_def status_text_def field_line_def head_end_def)

theorem error_length_matches_witness:
  "BodyWire (ErrorResponse ''now'' 404 (fst two_sessions, hd (snd two_sessions))) = error_page 404"
  by (rule error_length_matches(2) [OF fresh_region]) (simp_all add: fresh_region_fields)

theorem structured_headers_witness:
  "case fold (\<lambda>(k, v). ResponseHeader k v) [(''a'', ''b'')]
       ((fst two_sessions, SetStructuredMode True (hd (snd two_sessions))), NoneResponse) of (st', r') \<Rightarrow>
     st' = (fst two_sessions, SetStructuredMode True (hd (snd two_sessions)))
     \<and> map (\<lambda>i. ResponseHeaderAt i r') [0..<ResponseHeaderCount r'] =
       take 32 (map (\<lambda>(k, v). (take 127 k, take 127 v)) [(''a'', ''b'')])"
  by (rule structured_headers) (simp_all add: SetStructuredMode_def NoneResponse_def)

end
