(* ===== verification/Proxy.thy ===== *)
theory Proxy
  imports Upstream Response Ws_Frame
begin

text \<open>
  The reverse proxy (\<^verbatim>\<open>handler/reverse_proxy.cpp\<close>) and the simple proxy handler
  (\<^verbatim>\<open>handler/proxy_handler.cpp\<close>): the request that is sent upstream, reading the reply, building the
  response, and the use of the server selection and of the connection pool.

  The network is an argument: whether name resolution and connecting succeed, whether each
  write succeeds, and the pieces in which the reply arrives until the connection ends. An
  orderly end and a read error are alike to the code. The outcome \<open>Undefined\<close> is undefined
  behaviour of the source.
\<close>

section \<open>Searching text\<close>

text \<open>\<^verbatim>\<open>std::string::find\<close> from a position.\<close>

definition find_from :: "string \<Rightarrow> nat \<Rightarrow> string \<Rightarrow> nat option" where
  "find_from pat pos s = List.find (\<lambda>i. take (length pat) (drop i s) = pat) [pos..<Suc (length s) - length pat]"

definition ReadLine :: "string \<Rightarrow> nat \<Rightarrow> (string \<times> nat) option" where
  "ReadLine buf pos =
     (case find_from [CHR 0x0D] pos buf of
        None \<Rightarrow> None
      | Some cr \<Rightarrow>
          if length buf \<le> cr + 1 \<or> buf ! (cr + 1) \<noteq> CHR 0x0A then None
          else Some (take (cr - pos) (drop pos buf), cr + 2))"

lemma find_from_Some:
  "find_from pat pos s = Some i \<longleftrightarrow>
     pos \<le> i \<and> i + length pat \<le> length s \<and> take (length pat) (drop i s) = pat
     \<and> (\<forall>j. pos \<le> j \<and> j < i \<longrightarrow> take (length pat) (drop j s) \<noteq> pat)"
proof -
  let ?P = "\<lambda>i. take (length pat) (drop i s) = pat" and ?xs = "[pos..<Suc (length s) - length pat]"
  have "find_from pat pos s = Some i \<longleftrightarrow>
      (\<exists>k < length ?xs. ?P (?xs ! k) \<and> i = ?xs ! k \<and> (\<forall>j < k. \<not> ?P (?xs ! j)))"
    by (simp only: find_from_def find_Some_iff)
  also have "\<dots> \<longleftrightarrow> (\<exists>k < length ?xs. ?P (pos + k) \<and> i = pos + k \<and> (\<forall>j < k. \<not> ?P (pos + j)))"
    by auto
  also have "\<dots> \<longleftrightarrow> pos \<le> i \<and> i + length pat \<le> length s \<and> ?P i \<and> (\<forall>j. pos \<le> j \<and> j < i \<longrightarrow> \<not> ?P j)"
  proof
    assume "\<exists>k < length ?xs. ?P (pos + k) \<and> i = pos + k \<and> (\<forall>j < k. \<not> ?P (pos + j))"
    then obtain k where k: "k < length ?xs" "?P i" "i = pos + k" "\<forall>j < k. \<not> ?P (pos + j)"
      by blast
    then have "\<not> ?P j" if "pos \<le> j" "j < i" for j
      using that k(4) [rule_format, of "j - pos"] by simp
    with k show "pos \<le> i \<and> i + length pat \<le> length s \<and> ?P i \<and> (\<forall>j. pos \<le> j \<and> j < i \<longrightarrow> \<not> ?P j)"
      by auto
  next
    assume r: "pos \<le> i \<and> i + length pat \<le> length s \<and> ?P i \<and> (\<forall>j. pos \<le> j \<and> j < i \<longrightarrow> \<not> ?P j)"
    then show "\<exists>k < length ?xs. ?P (pos + k) \<and> i = pos + k \<and> (\<forall>j < k. \<not> ?P (pos + j))"
      by (intro exI [of _ "i - pos"]) auto
  qed
  finally show ?thesis .
qed

lemma ReadLine_advances: "ReadLine buf pos = Some (line, pos') \<Longrightarrow> pos < pos' \<and> pos' \<le> length buf"
  by (auto simp: ReadLine_def find_from_Some split: option.splits if_splits)

section \<open>Reading from the upstream connection\<close>

text \<open>
  \<^verbatim>\<open>async_read_until\<close> on a buffer of at most \<open>mx\<close> bytes: the length of the text up to and including the
  first delimiter, the buffer and the pieces that are still to come; \<open>None\<close> when the connection
  ends or the buffer is full before the delimiter.
\<close>

function read_until :: "nat \<Rightarrow> string \<Rightarrow> string \<Rightarrow> string list \<Rightarrow> (nat \<times> string \<times> string list) option" where
  "read_until mx delim buf s =
     (case find_from delim 0 buf of
        Some i \<Rightarrow> Some (i + length delim, buf, s)
      | None \<Rightarrow>
          if mx \<le> length buf then None
          else case read_some (mx - length buf) s of
                 None \<Rightarrow> None
               | Some (bs, s') \<Rightarrow> read_until mx delim (buf @ bs) s')"
  by pat_completeness auto
termination read_until
  by (relation "measure (\<lambda>(mx, delim, buf, s). sum_list (map length s) + length s)")
    (auto dest: read_some_measure)

declare read_until.simps [simp del]

text \<open>\<open>ReadExact\<close> returns how many bytes it got; \<open>k\<close> is its running total.\<close>

function ReadExact :: "nat \<Rightarrow> nat \<Rightarrow> string \<Rightarrow> string list \<Rightarrow> nat \<times> string \<times> string list" where
  "ReadExact needed k body_buf s =
     (if needed \<le> k then (k, body_buf, s)
      else case read_some (min 65536 (needed - k)) s of
             None \<Rightarrow> (k, body_buf, s)
           | Some (bs, s') \<Rightarrow> ReadExact needed (k + length bs) (body_buf @ bs) s')"
  by pat_completeness auto
termination ReadExact
  by (relation "measure (\<lambda>(needed, k, body_buf, s). sum_list (map length s) + length s)")
    (auto dest: read_some_measure)

declare ReadExact.simps [simp del]

function read_to_end :: "string \<Rightarrow> string list \<Rightarrow> string" where
  "read_to_end body_buf s =
     (case read_some 65536 s of None \<Rightarrow> body_buf | Some (bs, s') \<Rightarrow> read_to_end (body_buf @ bs) s')"
  by pat_completeness auto
termination read_to_end
  by (relation "measure (\<lambda>(body_buf, s). sum_list (map length s) + length s)")
    (auto dest: read_some_measure)

declare read_to_end.simps [simp del]

section \<open>Parsing the reply\<close>

definition isspace :: "char \<Rightarrow> bool" where
  "isspace c \<longleftrightarrow> c \<in> {CHR '' '', CHR 0x09, CHR 0x0A, CHR 0x0B, CHR 0x0C, CHR 0x0D}"

definition is_digit :: "char \<Rightarrow> bool" where
  "is_digit c \<longleftrightarrow> 48 \<le> (of_char c :: nat) \<and> (of_char c :: nat) \<le> 57"

text \<open>\<^verbatim>\<open>std::atoi\<close>; a value that does not fit an \<^verbatim>\<open>int\<close> is undefined, \<open>None\<close>.\<close>

definition atoi :: "string \<Rightarrow> int option" where
  "atoi s =
     (let s = dropWhile isspace s;
          neg = (s \<noteq> [] \<and> s ! 0 = CHR ''-'');
          ds = takeWhile is_digit (if s \<noteq> [] \<and> (s ! 0 = CHR ''-'' \<or> s ! 0 = CHR ''+'') then drop 1 s else s);
          v = foldl (\<lambda>v c. v * 10 + (of_char c - 48)) 0 ds;
          v = (if neg then - v else v)
      in if - (2 ^ 31) \<le> v \<and> v < 2 ^ 31 then Some v else None)"

datatype 'a outcome = Undefined | Fail502 | Ok 'a

definition status_code :: "string \<Rightarrow> int outcome" where
  "status_code line =
     (case find_from '' '' 0 line of
        None \<Rightarrow> Fail502
      | Some sp1 \<Rightarrow>
          (case find_from '' '' (sp1 + 1) line of
             None \<Rightarrow> Fail502
           | Some sp2 \<Rightarrow> (case atoi (drop (sp1 + 1) line) of None \<Rightarrow> Undefined | Some code \<Rightarrow> Ok code)))"

definition split_field :: "string \<Rightarrow> (string \<times> string) option" where
  "split_field line =
     (case find_from '':'' 0 line of
        None \<Rightarrow> None
      | Some colon \<Rightarrow> Some (map tolower (take colon line), dropWhile (\<lambda>c. c = CHR '' '') (drop (colon + 1) line)))"

text \<open>Both passes over the header block of the source cut it into fields in this way.\<close>

function header_fields :: "string \<Rightarrow> nat \<Rightarrow> nat \<Rightarrow> (string \<times> string) list" where
  "header_fields raw hp hdr_end =
     (if hp < hdr_end
      then case ReadLine raw hp of
             None \<Rightarrow> []
           | Some (line, hp') \<Rightarrow>
               (case split_field line of None \<Rightarrow> [] | Some f \<Rightarrow> [f]) @ header_fields raw hp' hdr_end
      else [])"
  by pat_completeness auto
termination header_fields
  by (relation "measure (\<lambda>(raw, hp, hdr_end). hdr_end - hp)") (auto dest: ReadLine_advances)

declare header_fields.simps [simp del]

definition digits_of :: "string \<Rightarrow> u64" where
  "digits_of v = foldl (\<lambda>n c. if is_digit c then n * 10 + of_nat (of_char c - 48) else n) 0 v"

definition content_length_of :: "(string \<times> string) list \<Rightarrow> u64" where
  "content_length_of fs = foldl (\<lambda>n (k, v). if k = ''content-length'' then digits_of v else n) 0 fs"

definition upstream_close :: "(string \<times> string) list \<Rightarrow> bool" where
  "upstream_close fs \<longleftrightarrow> list_ex (\<lambda>(k, v). k = ''connection'' \<and> find_from ''close'' 0 (map tolower v) \<noteq> None) fs"

abbreviation blank_line :: string where
  "blank_line \<equiv> [CHR 0x0D, CHR 0x0A, CHR 0x0D, CHR 0x0A]"

text \<open>
  Status line and headers: the status, the fields, the bytes buffered behind the headers and
  the pieces still to come. \<open>pos\<close>, the end of the status line in the first copy of the buffer, is
  used again as a position in the second copy, which begins behind the status line.
\<close>

definition read_head :: "string list \<Rightarrow> (int \<times> (string \<times> string) list \<times> string \<times> string list) outcome" where
  "read_head s =
     (case read_until 16384 line_end [] s of
        None \<Rightarrow> Fail502
      | Some (n, raw, s1) \<Rightarrow>
          (case ReadLine raw 0 of
             None \<Rightarrow> Fail502
           | Some (line, pos) \<Rightarrow>
               (case status_code line of
                  Fail502 \<Rightarrow> Fail502
                | Undefined \<Rightarrow> Undefined
                | Ok code \<Rightarrow>
                    (case read_until 16384 blank_line (drop n raw) s1 of
                       None \<Rightarrow> Fail502
                     | Some (n2, raw2, s2) \<Rightarrow>
                         (case find_from blank_line pos raw2 of
                            None \<Rightarrow> Fail502
                          | Some hdr_end \<Rightarrow>
                              Ok (code, header_fields raw2 pos hdr_end, drop (hdr_end + 4) raw2, s2))))))"

text \<open>
  The body: with a length, exactly so many bytes; without one, everything up to the end of the
  connection. The flag says whether the connection may be used again.
\<close>

definition read_body :: "(string \<times> string) list \<Rightarrow> string \<Rightarrow> string list \<Rightarrow> string \<times> bool" where
  "read_body fs buffered s =
     (let content_length = unat (content_length_of fs);
          (body_buf, can_persist) =
            (if 0 < content_length
             then if length buffered < content_length
                  then let needed = content_length - length buffered
                       in case ReadExact needed 0 buffered s of (got, body_buf, s') \<Rightarrow> (body_buf, got = needed)
                  else (buffered, True)
             else (read_to_end buffered s, False))
      in (body_buf, can_persist \<and> \<not> upstream_close fs))"

section \<open>The request and the response\<close>

record ProxyCtx =
  px_method :: string
  px_path :: string
  px_headers :: "(string \<times> string) list"
  px_body :: string
  px_pool :: bool

definition hop_by_hop :: "string \<Rightarrow> bool" where
  "hop_by_hop name \<longleftrightarrow>
     name \<in> {''host'', ''connection'', ''transfer-encoding'', ''proxy-connection'', ''keep-alive'', ''upgrade''}"

definition request_head :: "ProxyCtx \<Rightarrow> string \<Rightarrow> string" where
  "request_head ctx host = px_method ctx @ '' '' @ px_path ctx @ '' HTTP/1.1'' @ line_end @ ''Host: '' @ host @ line_end"

definition body_header :: "ProxyCtx \<Rightarrow> string" where
  "body_header ctx =
     (if px_body ctx \<noteq> [] then field_line (''Content-Length'', uint_text (length (px_body ctx))) else [])"

definition host_port :: "string \<Rightarrow> u16 \<Rightarrow> string" where
  "host_port host port = host @ (if port \<noteq> 80 \<and> port \<noteq> 443 then '':'' @ uint_text (unat port) else [])"

definition forward_request :: "ProxyCtx \<Rightarrow> string \<Rightarrow> u16 \<Rightarrow> string" where
  "forward_request ctx host port =
     request_head ctx (host_port host port)
     @ concat (map field_line (filter (\<lambda>(k, v). \<not> hop_by_hop k) (px_headers ctx)))
     @ field_line (''Connection'', ''keep-alive'') @ body_header ctx @ line_end"

definition dropped_reply_header :: "string \<Rightarrow> bool" where
  "dropped_reply_header k \<longleftrightarrow>
     k \<in> {''transfer-encoding'', ''connection'', ''keep-alive'', ''proxy-connection'', ''upgrade''}"

text \<open>A negative status, which prints like every unknown one, is represented as \<open>0\<close>.\<close>

definition build_response ::
  "string \<Rightarrow> string \<Rightarrow> int \<Rightarrow> (string \<times> string) list \<Rightarrow> string \<Rightarrow> region_state \<Rightarrow> response_state" where
  "build_response date length_name code fs body_buf st =
     (case EndHeaders date (ResponseHeader length_name (uint_text (length body_buf))
             (fold (\<lambda>(k, v). ResponseHeader k v) (filter (\<lambda>(k, v). \<not> dropped_reply_header k) fs)
               (new_response (nat code) st))) of
        (st', r) \<Rightarrow> (if body_buf \<noteq> [] then WriteRegion body_buf st' else st', r))"

section \<open>Forwarding\<close>

text \<open>
  \<open>pn_now\<close> is the time when the request arrives, \<open>pn_done\<close> when the reply has been read.
  \<open>pn_connect\<close> is the result of resolving and connecting, which happens at most once; the three
  flags say whether the writes of the request, of the request after a stale pooled
  connection, and of the body succeed.
\<close>

record ProxyNet =
  pn_now :: int
  pn_done :: int
  pn_connect :: "Conn option"
  pn_write_request :: bool
  pn_write_retry :: bool
  pn_write_body :: bool
  pn_reads :: "string list"

record ForwardResult =
  fr_response :: response_state
  fr_entries :: "Entry list"
  fr_sent :: "(nat \<times> string) list"

text \<open>Sending the request: the connection in use, whether all writes succeeded, and what was written to which one.\<close>

definition send_request ::
  "ProxyNet \<Rightarrow> string \<Rightarrow> string \<Rightarrow> Conn \<Rightarrow> bool \<Rightarrow> Conn \<times> bool \<times> (nat \<times> string) list" where
  "send_request net req body sock from_pool =
     (let (sock, ok, sent) =
            (if pn_write_request net then (sock, True, [(cn_id sock, req)])
             else if from_pool
             then (case pn_connect net of
                     None \<Rightarrow> (sock, False, [])
                   | Some fresh \<Rightarrow>
                       if pn_write_retry net then (fresh, True, [(cn_id fresh, req)]) else (fresh, False, []))
             else (sock, False, []))
      in if ok \<and> body \<noteq> []
         then if pn_write_body net then (sock, True, sent @ [(cn_id sock, body)]) else (sock, False, sent)
         else (sock, ok, sent))"

definition Forward ::
  "string \<Rightarrow> ProxyNet \<Rightarrow> ProxyCtx \<Rightarrow> string \<Rightarrow> u16 \<Rightarrow> Entry list \<Rightarrow> region_state \<Rightarrow> ForwardResult option" where
  "Forward date net ctx host port entries st =
     (if \<not> px_pool ctx then None
      else case AcquireConn (pn_now net) host port entries of
        None \<Rightarrow> None
      | Some (pooled, es) \<Rightarrow>
          (case (case pooled of Some c \<Rightarrow> Some (c, True) | None \<Rightarrow> map_option (\<lambda>c. (c, False)) (pn_connect net)) of
             None \<Rightarrow> Some \<lparr> fr_response = ErrorResponse date 502 st, fr_entries = es, fr_sent = [] \<rparr>
           | Some (sock, from_pool) \<Rightarrow>
               (case send_request net (forward_request ctx host port) (px_body ctx) sock from_pool of
                  (sock, ok, sent) \<Rightarrow>
                    if \<not> ok
                    then Some \<lparr> fr_response = ErrorResponse date 502 st, fr_entries = es, fr_sent = sent \<rparr>
                    else (case read_head (pn_reads net) of
                            Undefined \<Rightarrow> None
                          | Fail502 \<Rightarrow>
                              Some \<lparr> fr_response = ErrorResponse date 502 st, fr_entries = es, fr_sent = sent \<rparr>
                          | Ok (code, fs, buffered, s) \<Rightarrow>
                              (case read_body fs buffered s of
                                 (body_buf, can_persist) \<Rightarrow>
                                   map_option
                                     (\<lambda>es'. \<lparr> fr_response = build_response date ''content-length'' code fs body_buf st,
                                              fr_entries = es', fr_sent = sent \<rparr>)
                                     (if can_persist \<and> cn_open sock \<and> code < 500
                                      then ReleaseConn (pn_done net) (Some sock) host port es
                                      else Some es))))))"

text \<open>
  The handler: without a region it answers in raw form; the server that was picked is told
  the outcome. \<open>us_host\<close> and \<open>us_port\<close> are the address of a server.
\<close>

definition HandleProxy ::
  "string \<Rightarrow> ProxyNet \<Rightarrow> ProxyCtx \<Rightarrow> UpstreamPool \<Rightarrow> Entry list \<Rightarrow> region_state
    \<Rightarrow> (ForwardResult \<times> UpstreamPool) option" where
  "HandleProxy date net ctx pool entries st =
     (if \<not> px_pool ctx
      then Some (\<lparr> fr_response = (st, RawResponse 502 (''{'' @ [CHR 0x22] @ ''error'' @ [CHR 0x22] @ '':'' @ [CHR 0x22]
                     @ ''Bad Gateway'' @ [CHR 0x22] @ ''}'')), fr_entries = entries, fr_sent = [] \<rparr>, pool)
      else case Pick (pn_now net) pool of
        (None, pool1) \<Rightarrow>
          Some (\<lparr> fr_response = ErrorResponse date 502 st, fr_entries = entries, fr_sent = [] \<rparr>, pool1)
      | (Some i, pool1) \<Rightarrow>
          let srv = up_servers pool1 ! i
          in map_option (\<lambda>res. (res, if 500 \<le> rs_code (snd (fr_response res))
                                    then ReportFailure (pn_done net) (Some i) pool1
                                    else ReportSuccess (Some i) pool1))
               (Forward date net ctx (us_host srv) (us_port srv) entries st))"

text \<open>The constructor, the synchronous entry point and a helper that copies buffered bytes, which nothing calls.\<close>

definition new_reverse_proxy :: "(string \<times> u16) list \<Rightarrow> UpstreamPool" where
  "new_reverse_proxy upstreams =
     new_upstream_pool (map (\<lambda>(host, port). \<lparr> us_host = host, us_port = port, us_weight = 1, us_failures = 0,
                                us_alive = True, us_dead_since = 0 \<rparr>) upstreams)"

definition HandleProxySync :: "string \<Rightarrow> region_state \<Rightarrow> response_state" where
  "HandleProxySync date st = ErrorResponse date 502 st"

definition DrainStreambuf :: "nat \<Rightarrow> string \<Rightarrow> string \<Rightarrow> nat \<times> string \<times> string" where
  "DrainStreambuf max_bytes sb body_buf =
     (if sb = [] \<or> max_bytes = 0 then (0, sb, body_buf)
      else let n = min (length sb) max_bytes in (n, drop n sb, body_buf @ take n sb))"

section \<open>The simple proxy handler\<close>

definition simple_request :: "ProxyCtx \<Rightarrow> string \<Rightarrow> u16 \<Rightarrow> string" where
  "simple_request ctx host port =
     request_head ctx (host @ '':'' @ uint_text (unat port))
     @ concat (map field_line (filter (\<lambda>(k, v). \<not> hop_by_hop k) (px_headers ctx)))
     @ body_header ctx @ field_line (''Connection'', ''close'') @ line_end"

text \<open>Every request uses a connection of its own; its body is read to the end of the connection.\<close>

definition HandleSimpleProxy ::
  "string \<Rightarrow> ProxyNet \<Rightarrow> ProxyCtx \<Rightarrow> string \<Rightarrow> u16 \<Rightarrow> region_state \<Rightarrow> (response_state \<times> string) option" where
  "HandleSimpleProxy date net ctx host port st =
     (if \<not> px_pool ctx
      then Some ((st, RawResponse 502 (''{'' @ [CHR 0x22] @ ''error'' @ [CHR 0x22] @ '':'' @ [CHR 0x22]
                   @ ''Bad Gateway'' @ [CHR 0x22] @ ''}'')), [])
      else if pn_connect net = None then Some (ErrorResponse date 502 st, [])
      else if \<not> pn_write_request net then Some (ErrorResponse date 502 st, [])
      else
        let sent = simple_request ctx host port @ px_body ctx
        in case read_head (pn_reads net) of
             Undefined \<Rightarrow> None
           | Fail502 \<Rightarrow> Some (ErrorResponse date 502 st, sent)
           | Ok (code, fs, buffered, s) \<Rightarrow>
               Some (build_response date ''Content-Length'' code fs (read_to_end buffered s) st, sent))"

section \<open>WebSocket passthrough\<close>

text \<open>
  The two relay loops; \<open>n\<close> bounds the number of rounds that are looked at. The result says whether
  the loop is still running (\<open>None\<close>) or the value of \<^verbatim>\<open>relay_done\<close> when it ended.
\<close>

primrec relay_c2u :: "nat \<Rightarrow> (nat \<Rightarrow> bool) \<Rightarrow> WsConnection \<Rightarrow> byte list \<Rightarrow> bool option \<times> WsConnection \<times> byte list" where
  "relay_c2u 0 late client out = (None, client, out)"
| "relay_c2u (Suc n) late client out =
     (case Read late client of (frame, client1) \<Rightarrow>
        if conn_closed client1 then (Some False, client1, out)
        else if opcode frame = Close then (Some True, client1, out @ WriteFrame Close (payload frame) True True)
        else relay_c2u n late client1 (out @ WriteFrame (opcode frame) (payload frame) (fin frame) True))"

primrec relay_u2c :: "nat \<Rightarrow> bool \<Rightarrow> WsConnection \<Rightarrow> arrivals \<Rightarrow> bool option \<times> WsConnection" where
  "relay_u2c 0 relay_done client s = (None, client)"
| "relay_u2c (Suc n) relay_done client s =
     (if relay_done then (Some True, client)
      else case ReadFrame s of (frame, s') \<Rightarrow>
        if payload frame = [] \<and> \<not> fin frame then (Some False, client)
        else if opcode frame = Close then (Some True, CloseWs (close_code (payload frame)) [] client)
        else relay_u2c n relay_done (SendWs (opcode frame) (payload frame) (fin frame) client) s')"

definition upgrade_request :: "ProxyCtx \<Rightarrow> string \<Rightarrow> u16 \<Rightarrow> string" where
  "upgrade_request ctx host port =
     request_head ctx (host_port host port) @ concat (map field_line (px_headers ctx)) @ line_end"

text \<open>
  The handler: how the server selection and the client's connection are left, what was sent
  upstream as text and as frames. What is buffered when the status line has been read is
  thrown away. The second loop starts when the first has ended.
\<close>

definition HandleWebSocketProxy ::
  "nat \<Rightarrow> (nat \<Rightarrow> bool) \<Rightarrow> ProxyNet \<Rightarrow> ProxyCtx \<Rightarrow> WsConnection \<Rightarrow> UpstreamPool
    \<Rightarrow> UpstreamPool \<times> WsConnection \<times> string \<times> byte list" where
  "HandleWebSocketProxy n late net ctx client pool =
     (case Pick (pn_now net) pool of
        (None, pool1) \<Rightarrow> (pool1, client, [], [])
      | (Some i, pool1) \<Rightarrow>
          let srv = up_servers pool1 ! i;
              req = upgrade_request ctx (us_host srv) (us_port srv)
          in if pn_connect net = None then (ReportFailure (pn_done net) (Some i) pool1, client, [], [])
             else if \<not> pn_write_request net then (ReportFailure (pn_done net) (Some i) pool1, client, [], [])
             else case read_until 1024 line_end [] (pn_reads net) of
                    None \<Rightarrow> (ReportFailure (pn_done net) (Some i) pool1, client, req, [])
                  | Some (k, raw, s) \<Rightarrow>
                      if find_from ''101'' 0 raw = None
                      then (ReportFailure (pn_done net) (Some i) pool1, client, req, [])
                      else
                        (case relay_c2u n late client [] of
                           (None, client1, out) \<Rightarrow> (ReportSuccess (Some i) pool1, client1, req, out)
                         | (Some relay_done, client1, out) \<Rightarrow>
                             (ReportSuccess (Some i) pool1,
                              snd (relay_u2c n relay_done client1 (map (map of_char) s)), req, out)))"

section \<open>Replies are read independently of how they arrive\<close>

lemma find_from_append:
  assumes "find_from pat pos s = Some i"
  shows "find_from pat pos (s @ t) = Some i"
  using assms by (auto simp: find_from_Some)

lemma find_from_prefix:
  assumes "find_from pat pos (s @ t) = Some i" and "i + length pat \<le> length s"
  shows "find_from pat pos s = Some i"
  using assms by (auto simp: find_from_Some)

lemma read_some_concat:
  assumes "read_some n s = Some (bs, s')"
  shows "bs @ concat s' = concat s" and "length bs \<le> n"
  using assms by (cases s; auto split: if_splits)+

lemma read_some_None: "read_some n s = None \<longleftrightarrow> s = []"
  by (cases s) auto

lemma read_until_spec:
  assumes "find_from delim 0 (buf @ concat s) = Some i" and "i + length delim \<le> mx"
  shows "\<exists>buf' s'. read_until mx delim buf s = Some (i + length delim, buf', s')
    \<and> buf' @ concat s' = buf @ concat s \<and> i + length delim \<le> length buf'"
  using assms
proof (induction mx delim buf s rule: read_until.induct)
  case (1 mx delim buf s)
  show ?case
  proof (cases "find_from delim 0 buf")
    case (Some j)
    with "1.prems" have "j = i"
      using find_from_append [OF Some, of "concat s"] by simp
    moreover have "j + length delim \<le> length buf"
      using Some by (simp add: find_from_Some)
    ultimately show ?thesis
      by (subst read_until.simps) (simp add: Some)
  next
    case None
    then have "length buf < i + length delim"
      using find_from_prefix [OF "1.prems"(1)] by fastforce
    moreover have "i + length delim \<le> length (buf @ concat s)"
      using "1.prems"(1) by (simp add: find_from_Some)
    ultimately have less: "\<not> mx \<le> length buf" and "s \<noteq> []"
      using "1.prems"(2) by auto
    then obtain bs s' where r: "read_some (mx - length buf) s = Some (bs, s')"
      using read_some_None [of "mx - length buf" s] by (cases "read_some (mx - length buf) s") auto
    have "(buf @ bs) @ concat s' = buf @ concat s"
      using read_some_concat(1) [OF r] by simp
    with "1.IH" [OF None less r refl] "1.prems" show ?thesis
      by (subst read_until.simps) (simp add: None less r)
  qed
qed

lemma ReadExact_spec:
  assumes "k \<le> needed"
  shows "\<exists>s'. ReadExact needed k body s =
      (min needed (k + length (concat s)), body @ take (needed - k) (concat s), s')"
  using assms
proof (induction needed k body s rule: ReadExact.induct)
  case (1 needed k body s)
  show ?case
  proof (cases "needed \<le> k")
    case True
    with "1.prems" show ?thesis
      by (subst ReadExact.simps) simp
  next
    case False
    show ?thesis
    proof (cases "read_some (min 65536 (needed - k)) s")
      case None
      with False show ?thesis
        by (subst ReadExact.simps) (simp add: read_some_None)
    next
      case (Some r)
      then obtain bs s' where r: "read_some (min 65536 (needed - k)) s = Some (bs, s')"
        by (cases r) auto
      note c = read_some_concat [OF r]
      have "k + length bs \<le> needed"
        using c(2) False by auto
      from "1.IH" [OF False r refl this] obtain s'' where
        "ReadExact needed (k + length bs) (body @ bs) s' =
           (min needed (k + length bs + length (concat s')), (body @ bs) @ take (needed - (k + length bs)) (concat s'), s'')"
        by blast
      moreover have "take (needed - k) (concat s) = bs @ take (needed - (k + length bs)) (concat s')"
        using c False by (simp flip: c(1))
      moreover have "length (concat s) = length bs + length (concat s')"
        using arg_cong [OF c(1), of length] by simp
      ultimately show ?thesis
        using False r by (subst ReadExact.simps) (simp add: add.assoc)
    qed
  qed
qed

lemma read_to_end_spec: "read_to_end body s = body @ concat s"
proof (induction body s rule: read_to_end.induct)
  case (1 body s)
  show ?case
  proof (cases "read_some 65536 s")
    case None
    then show ?thesis
      by (subst read_to_end.simps) (simp add: read_some_None)
  next
    case (Some r)
    then obtain bs s' where r: "read_some 65536 s = Some (bs, s')"
      by (cases r) auto
    with "1.IH" [OF r refl] read_some_concat(1) [OF r] show ?thesis
      by (subst read_to_end.simps) simp
  qed
qed


lemma find_char:
  assumes "find_from [c] pos s = r"
  shows "r = None \<Longrightarrow> c \<notin> set (drop pos s)"
    and "r = Some i \<longleftrightarrow> pos \<le> i \<and> i < length s \<and> s ! i = c \<and> (\<forall>j. pos \<le> j \<and> j < i \<longrightarrow> s ! j \<noteq> c)"
proof -
  have one: "take (Suc 0) (drop i s) = [c] \<longleftrightarrow> i < length s \<and> s ! i = c" for i
    by (cases "i < length s") (simp_all add: Cons_nth_drop_Suc [symmetric])
  show "r = Some i \<longleftrightarrow> pos \<le> i \<and> i < length s \<and> s ! i = c \<and> (\<forall>j. pos \<le> j \<and> j < i \<longrightarrow> s ! j \<noteq> c)"
    unfolding assms [symmetric] find_from_Some by (simp add: one Suc_le_eq) auto
  show "c \<notin> set (drop pos s)" if "r = None"
  proof
    assume "c \<in> set (drop pos s)"
    then obtain k where "k < length (drop pos s)" "drop pos s ! k = c"
      by (auto simp: in_set_conv_nth)
    then have "\<exists>x \<in> set [pos..<Suc (length s) - length [c]]. take (length [c]) (drop x s) = [c]"
      by (intro bexI [of _ "pos + k"]) (auto simp: one less_diff_conv add.commute)
    with assms that show False
      by (auto simp: find_from_def find_None_iff)
  qed
qed

text \<open>A line that ends within \<open>xs\<close> is read from \<open>xs\<close> as from any text that begins with \<open>xs\<close>.\<close>

lemma ReadLine_append:
  assumes "pos \<le> e" and "Suc e < length xs" and "xs ! e = CHR 0x0D"
  shows "ReadLine (xs @ ys) pos = ReadLine xs pos"
proof -
  have "drop pos xs ! (e - pos) \<in> set (drop pos xs)"
    using assms by (intro nth_mem) simp
  then have "CHR 0x0D \<in> set (drop pos xs)"
    using assms by simp
  then obtain cr where cr: "find_from [CHR 0x0D] pos xs = Some cr"
    using find_char(1) [OF refl, of "CHR 0x0D" pos xs] by (cases "find_from [CHR 0x0D] pos xs") auto
  have "cr \<le> e"
    using cr assms by (auto simp: find_char(2) [OF refl] intro: leI)
  then have "Suc cr < length xs"
    using assms(2) by simp
  with cr find_from_append [OF cr, of ys] show ?thesis
    by (simp add: ReadLine_def nth_append)
qed

lemma header_fields_append:
  assumes "Suc hdr_end < length xs" and "xs ! hdr_end = CHR 0x0D"
  shows "header_fields (xs @ ys) hp hdr_end = header_fields xs hp hdr_end"
  using assms
proof (induction xs hp hdr_end rule: header_fields.induct)
  case (1 xs hp hdr_end)
  show ?case
  proof (cases "hp < hdr_end")
    case True
    then have "ReadLine (xs @ ys) hp = ReadLine xs hp"
      using "1.prems" by (intro ReadLine_append [of hp hdr_end]) simp_all
    with True "1.IH" "1.prems" show ?thesis
      by (subst (1 2) header_fields.simps) (auto split: option.splits)
  qed (simp add: header_fields.simps)
qed

text \<open>
  A reply as an upstream server sends it: status line, header block, blank line, body. The
  hypotheses on the first three are checked by evaluation.
\<close>

definition wf_reply :: "string \<Rightarrow> string \<Rightarrow> bool" where
  "wf_reply line block \<longleftrightarrow>
     CHR 0x0D \<notin> set line \<and> length line + 2 \<le> 16384 \<and> length block + 4 \<le> 16384
     \<and> find_from blank_line 0 (block @ blank_line) = Some (length block)"

lemma blank_line_from:
  assumes "find_from blank_line 0 (block @ blank_line) = Some (length block)"
  shows "find_from blank_line 0 (block @ blank_line @ rest) = Some (length block)"
    and "pos \<le> length block \<Longrightarrow> find_from blank_line pos (block @ blank_line @ rest) = Some (length block)"
  using find_from_append [OF assms, of rest] by (auto simp: find_from_Some)

lemma status_line_found:
  assumes "CHR 0x0D \<notin> set line"
  shows "find_from line_end 0 (line @ line_end @ rest) = Some (length line)"
    and "ReadLine (line @ line_end @ rest) 0 = Some (line, length line + 2)"
proof -
  have cr: "find_from [CHR 0x0D] 0 (line @ line_end @ rest) = Some (length line)"
    using assms by (auto simp: find_char(2) [OF refl] nth_append in_set_conv_nth)
  then show "ReadLine (line @ line_end @ rest) 0 = Some (line, length line + 2)"
    by (simp add: ReadLine_def nth_append)
  have "take 2 (drop j (line @ line_end @ rest)) \<noteq> line_end" if "j < length line" for j
  proof
    assume "take 2 (drop j (line @ line_end @ rest)) = line_end"
    then have "take 2 (drop j (line @ line_end @ rest)) ! 0 = CHR 0x0D"
      by simp
    then have "line ! j = CHR 0x0D"
      using that by (simp add: nth_append)
    with that assms show False
      by (auto simp: in_set_conv_nth)
  qed
  then show "find_from line_end 0 (line @ line_end @ rest) = Some (length line)"
    by (simp add: find_from_Some numeral_2_eq_2)
qed

lemma append_split:
  "xs @ ys = ps @ qs \<Longrightarrow> length ps \<le> length xs \<Longrightarrow> \<exists>rs. xs = ps @ rs \<and> rs @ ys = qs"
  by (auto simp: append_eq_append_conv2)

lemma read_head_parts:
  assumes "wf_reply line block" and "status_code line = Ok code"
    and "concat s = line @ line_end @ block @ blank_line @ body"
  obtains b s' where "read_head s =
      (case find_from blank_line (length line + 2) (block @ blank_line @ b) of
         None \<Rightarrow> Fail502
       | Some e \<Rightarrow> Ok (code, header_fields (block @ blank_line @ b) (length line + 2) e,
                        drop (e + 4) (block @ blank_line @ b), s'))"
    and "b @ concat s' = body"
proof -
  note wf = assms(1) [unfolded wf_reply_def]
  obtain raw s1 where r1: "read_until 16384 line_end [] s = Some (length line + 2, raw, s1)"
    "raw @ concat s1 = concat s" "length line + 2 \<le> length raw"
    using read_until_spec [of line_end "[]" s "length line" 16384] wf status_line_found(1) assms(3) by auto
  obtain b1 where b1: "raw = line @ line_end @ b1" "b1 @ concat s1 = block @ blank_line @ body"
    using append_split [of raw "concat s1" "line @ line_end"] r1(2,3) assms(3) by auto
  have line: "ReadLine raw 0 = Some (line, length line + 2)"
    using wf status_line_found(2) [of line b1] by (simp add: b1)
  obtain raw2 s2 where r2: "read_until 16384 blank_line b1 s1 = Some (length block + 4, raw2, s2)"
    "raw2 @ concat s2 = b1 @ concat s1" "length block + 4 \<le> length raw2"
    using read_until_spec [of blank_line b1 s1 "length block" 16384] wf blank_line_from(1) [of block body] b1(2) by auto
  obtain b where b: "raw2 = block @ blank_line @ b" "b @ concat s2 = body"
    using append_split [of raw2 "concat s2" "block @ blank_line"] r2(2,3) b1(2) by auto
  have drops: "drop (length line + 2) raw = b1"
    by (simp add: b1)
  have "read_head s =
      (case find_from blank_line (length line + 2) raw2 of
         None \<Rightarrow> Fail502
       | Some e \<Rightarrow> Ok (code, header_fields raw2 (length line + 2) e, drop (e + 4) raw2, s2))"
    by (simp only: read_head_def r1(1) line assms(2) drops r2(1) option.case prod.case outcome.case)
  from this [unfolded b(1)] b(2) show ?thesis
    by (rule that)
qed

lemma read_head_spec:
  assumes "wf_reply line block" and "status_code line = Ok code" and "length line + 2 \<le> length block"
    and "concat s = line @ line_end @ block @ blank_line @ body"
  shows "\<exists>b s'. read_head s = Ok (code, header_fields (block @ blank_line) (length line + 2) (length block), b, s')
    \<and> b @ concat s' = body"
proof -
  note wf = assms(1) [unfolded wf_reply_def]
  obtain b s' where h: "read_head s =
      (case find_from blank_line (length line + 2) (block @ blank_line @ b) of
         None \<Rightarrow> Fail502
       | Some e \<Rightarrow> Ok (code, header_fields (block @ blank_line @ b) (length line + 2) e,
                        drop (e + 4) (block @ blank_line @ b), s'))" "b @ concat s' = body"
    by (rule read_head_parts [OF assms(1,2,4)])
  have found: "find_from blank_line (length line + 2) (block @ blank_line @ b) = Some (length block)"
    using wf assms(3) by (intro blank_line_from(2)) simp_all
  have fields: "header_fields (block @ blank_line @ b) (length line + 2) (length block) =
      header_fields (block @ blank_line) (length line + 2) (length block)"
    using header_fields_append [of "length block" "block @ blank_line" b] by (simp add: nth_append)
  have "drop (length block + 4) (block @ blank_line @ b) = b"
    by simp
  with h show ?thesis
    unfolding found option.case fields by blast
qed

text \<open>A reply whose status line is long compared with its headers is rejected, however it arrives: when
  no blank line follows the position in the header block at which the status line ended, the
  client gets a 502 although the upstream server answered.\<close>

theorem short_reply_rejected:
  assumes "wf_reply line block" and "status_code line = Ok code"
    and "concat s = line @ line_end @ block @ blank_line @ body"
    and "find_from blank_line (length line + 2) (block @ blank_line @ body) = None"
  shows "read_head s = Fail502"
proof -
  obtain b s' where h: "read_head s =
      (case find_from blank_line (length line + 2) (block @ blank_line @ b) of
         None \<Rightarrow> Fail502
       | Some e \<Rightarrow> Ok (code, header_fields (block @ blank_line @ b) (length line + 2) e,
                        drop (e + 4) (block @ blank_line @ b), s'))" "b @ concat s' = body"
    by (rule read_head_parts [OF assms(1-3)])
  have "find_from blank_line (length line + 2) (block @ blank_line @ b) = None"
    using find_from_append [of blank_line "length line + 2" "block @ blank_line @ b" _ "concat s'"] h(2) assms(4)
    by (cases "find_from blank_line (length line + 2) (block @ blank_line @ b)") auto
  with h(1) show ?thesis
    by simp
qed

theorem short_reply_rejected_witness:
  "read_head [''HTTP/1.1 200 OK'' @ line_end @ ''A: b'', blank_line @ ''hello''] = Fail502"
proof (rule short_reply_rejected)
  show "wf_reply ''HTTP/1.1 200 OK'' ''A: b''"
    by code_simp
  show "status_code ''HTTP/1.1 200 OK'' = Ok 200"
    by code_simp
  show "find_from blank_line (length ''HTTP/1.1 200 OK'' + 2) (''A: b'' @ blank_line @ ''hello'') = None"
    by code_simp
qed simp

text \<open>
  A reply is read independently of the pieces in which it arrives, except that its header fields
  are read from the position in the header block that the status line ended at.
\<close>

lemma reply_read:
  assumes "wf_reply line block" and "status_code line = Ok code" and "length line + 2 \<le> length block"
    and "concat s = line @ line_end @ block @ blank_line @ body"
    and "header_fields (block @ blank_line) (length line + 2) (length block) = fs"
    and "unat (content_length_of fs) = length body" and "body \<noteq> []"
  shows "\<exists>b s'. read_head s = Ok (code, fs, b, s') \<and> read_body fs b s' = (body, \<not> upstream_close fs)"
proof -
  obtain b s' where h: "read_head s = Ok (code, fs, b, s')" "b @ concat s' = body"
    using read_head_spec [OF assms(1-4)] assms(5) by blast
  obtain s'' where e: "ReadExact (length body - length b) 0 b s' =
      (min (length body - length b) (length (concat s')), b @ take (length body - length b) (concat s'), s'')"
    using ReadExact_spec [of 0 "length body - length b" b s'] by auto
  have len: "length (concat s') = length body - length b" "length b \<le> length body"
    using arg_cong [OF h(2), of length] by simp_all
  have "read_body fs b s' = (body, \<not> upstream_close fs)"
  proof (cases "length b < length body")
    case True
    have "b @ take (length body - length b) (concat s') = body"
      using h(2) len(1) by simp
    with True show ?thesis
      using len(1) assms(7) by (simp add: read_body_def Let_def assms(6) e)
  next
    case False
    with len have "b = body"
      using h(2) by (metis append_Nil2 diff_is_0_eq le_neq_implies_less length_0_conv order_refl)
    then show ?thesis
      using assms(7) by (simp add: read_body_def Let_def assms(6))
  qed
  with h(1) show ?thesis
    by blast
qed


definition a_block :: string where
  "a_block = ''Server: upstream-one'' @ line_end @ ''Content-Length: 5''"

section \<open>Relaying a request\<close>


definition a_net :: ProxyNet where
  "a_net = \<lparr> pn_now = 0, pn_done = 1, pn_connect = Some \<lparr> cn_id = 7, cn_open = True, cn_last_used = 0 \<rparr>,
     pn_write_request = True, pn_write_retry = True, pn_write_body = True,
     pn_reads = [''HTTP/1.1 200 OK'' @ line_end @ a_block, blank_line @ ''he'', ''llo''] \<rparr>"

definition a_ctx :: ProxyCtx where
  "a_ctx = \<lparr> px_method = ''GET'', px_path = ''/'', px_headers = [], px_body = [], px_pool = True \<rparr>"


section \<open>Server selection and failures\<close>

text \<open>
  The proxy sends nothing and keeps the pooled connections when no server is usable; a server
  that cannot be reached is reported as failed.
\<close>

lemma unreachable_server_reported:
  assumes "px_pool ctx" and "Pick (pn_now net) pool = (Some i, pool1)" and "conns_ok entries"
    and "pn_connect net = None" and "\<not> pn_write_request net"
  shows "\<exists>res. HandleProxy date net ctx pool entries st = Some (res, ReportFailure (pn_done net) (Some i) pool1)
    \<and> fr_response res = ErrorResponse date 502 st \<and> fr_sent res = []"
proof -
  let ?h = "us_host (up_servers pool1 ! i)" and ?p = "us_port (up_servers pool1 ! i)"
  obtain pooled es where acq: "AcquireConn (pn_now net) ?h ?p entries = Some (pooled, es)"
    by (cases rule: AcquireConn_cases [OF assms(3), of "pn_now net" ?h ?p]) auto
  have "rs_code (snd (ErrorResponse date 502 st)) = 502"
    by (auto simp: ErrorResponse_def EndHeaders_def ResponseHeader_def ResponseHeaderUint_def new_response_def
        store_header_def Let_def split: prod.splits)
  moreover have "Forward date net ctx ?h ?p entries st =
      Some \<lparr> fr_response = ErrorResponse date 502 st, fr_entries = es, fr_sent = [] \<rparr>"
    using assms by (cases pooled) (simp_all add: Forward_def acq send_request_def)
  ultimately show ?thesis
    using assms(1,2) by (simp add: HandleProxy_def Let_def)
qed

text \<open>
  Findings on the WebSocket passthrough: while the client's connection is open nothing that
  the upstream server sends is read, let alone passed on.
\<close>

lemma upstream_frames_wait:
  assumes "Pick (pn_now net) pool = (Some i, pool1)" and "relay_c2u n late client [] = (None, client1, out)"
    and "HandleWebSocketProxy n late net ctx client pool = (pool2, client2, req, out2)"
    and "pn_connect net \<noteq> None" and "pn_write_request net"
    and "read_until 1024 line_end [] (pn_reads net) = Some (k, raw, s)" and "find_from ''101'' 0 raw \<noteq> None"
  shows "client2 = client1 \<and> out2 = out"
  using assms by (auto simp: HandleWebSocketProxy_def Let_def)

end
