(* ===== verification/Static_Files.thy ===== *)
theory Static_Files
  imports Response "HOL-Library.Sublist" "HOL-Library.Char_ord" "HOL-Library.List_Lexorder"
begin

text \<open>
  Static files: the file cache (\<^verbatim>\<open>cache/file_cache.cpp\<close>) and the handlers of
  \<^verbatim>\<open>handler/request_handler.cpp\<close> for files, directory listings and redirects.

  The cache maps request paths to files and is filled at start-up; the file system behind it
  is the list of regular files below the document root. Operating-system calls are parameters:
  the formatting and parsing of HTTP dates, whether a path below the document root is a
  directory, and its entries.
\<close>

section \<open>The file cache\<close>

record CachedFile =
  cf_content :: string
  cf_mime :: string
  cf_fd :: int
  cf_file_size :: nat
  cf_mtime :: int

definition kSmallFileMax :: nat where "kSmallFileMax = 65536"

definition DetectMime :: "string \<Rightarrow> string" where
  "DetectMime ext =
     (if ext = ''.html'' then ''text/html'' else if ext = ''.css'' then ''text/css''
      else if ext = ''.js'' then ''application/javascript'' else if ext = ''.json'' then ''application/json''
      else if ext = ''.png'' then ''image/png'' else if ext = ''.jpg'' \<or> ext = ''.jpeg'' then ''image/jpeg''
      else if ext = ''.ico'' then ''image/x-icon'' else if ext = ''.svg'' then ''image/svg+xml''
      else ''application/octet-stream'')"

text \<open>
  A regular file as \<^verbatim>\<open>recursive_directory_iterator\<close> finds it: its path relative to the root, its
  extension, bytes and modification time, and the descriptor \<^verbatim>\<open>open\<close> returns for it.
\<close>

record DiskFile =
  df_rel :: string
  df_ext :: string
  df_data :: string
  df_mtime :: int
  df_fd :: int

type_synonym file_cache = "string \<rightharpoonup> CachedFile"

definition cache_entry :: "DiskFile \<Rightarrow> file_cache \<Rightarrow> file_cache" where
  "cache_entry f files =
     (if df_fd f < 0 then files
      else files(CHR ''/'' # df_rel f \<mapsto>
        \<lparr> cf_content = (if length (df_data f) \<le> kSmallFileMax then df_data f else []),
          cf_mime = DetectMime (df_ext f), cf_fd = df_fd f, cf_file_size = length (df_data f),
          cf_mtime = df_mtime f \<rparr>))"

definition LoadDirectory :: "DiskFile list \<Rightarrow> file_cache \<Rightarrow> file_cache" where
  "LoadDirectory entries files = fold cache_entry entries files"

definition GetFile :: "file_cache \<Rightarrow> string \<Rightarrow> CachedFile option" where
  "GetFile files path = files path"

section \<open>Request paths\<close>

definition NormalizePath :: "string \<Rightarrow> string" where
  "NormalizePath raw =
     (let p = takeWhile (\<lambda>c. c \<noteq> CHR ''?'') raw
      in if p = [] \<or> hd p \<noteq> CHR ''/'' then []
         else if sublist ''..'' p then []
         else if sublist ''//'' p then []
         else if last p = CHR ''/'' then p @ ''index.html''
         else if length p = 1 then p @ ''index.html''
         else p)"

text \<open>The directory a path may stand for: relative to the document root, and as it is shown.\<close>

definition autoindex_dir :: "string \<Rightarrow> string \<times> string" where
  "autoindex_dir norm_path =
     (let idx = ''index.html'';
          (disk, virt) =
            (if length idx < length norm_path
                \<and> drop (length norm_path - length idx) norm_path = idx
             then let dir_end = length norm_path - length idx;
                      dir_rel = (if 1 < dir_end then take (dir_end - 1) (drop 1 norm_path) else [])
                  in (dir_rel, CHR ''/'' # dir_rel)
             else (drop 1 norm_path,
                   if last norm_path \<noteq> CHR ''/'' then norm_path @ ''/'' else norm_path))
      in (disk, if virt \<noteq> [] \<and> last virt \<noteq> CHR ''/'' then virt @ ''/'' else virt))"

section \<open>Range requests\<close>

fun range_digits :: "string \<Rightarrow> u64 \<Rightarrow> u64 option" where
  "range_digits [] v = Some v"
| "range_digits (c # cs) v =
     (if of_char c < (48 :: nat) \<or> 57 < (of_char c :: nat) then None
      else range_digits cs (v * 10 + of_nat (of_char c - 48)))"

definition ParseRange :: "string \<Rightarrow> u64 \<Rightarrow> (u64 \<times> u64 \<times> u64) option" where
  "ParseRange hdr file_sz =
     (if file_sz = 0 \<or> length hdr < 7 \<or> take 6 hdr \<noteq> ''bytes='' then None
      else
        let r = drop 6 hdr; s = takeWhile (\<lambda>c. c \<noteq> CHR ''-'') r; e = drop (length s + 1) r
        in if length s = length r \<or> s = [] then None
           else
             case range_digits s 0 of
               None \<Rightarrow> None
             | Some start \<Rightarrow>
                 if file_sz \<le> start then None
                 else
                   case (if e = [] then Some (file_sz - 1)
                         else map_option (\<lambda>v. if file_sz \<le> v then file_sz - 1 else v) (range_digits e 0)) of
                     None \<Rightarrow> None
                   | Some end \<Rightarrow> if end < start then None else Some (start, end, file_sz))"

section \<open>Handlers\<close>

record HandlerCtx =
  hc_method :: string
  hc_path :: string
  hc_header :: "string \<Rightarrow> string"
  hc_extra :: "(string \<times> string) list"

fun hex_digits :: "nat \<Rightarrow> string \<Rightarrow> string" where
  "hex_digits n acc =
     (if n = 0 then acc
      else hex_digits (n div 16)
             ((if n mod 16 < 10 then char_of (48 + n mod 16) else char_of (87 + n mod 16)) # acc))"

declare hex_digits.simps [simp del]

definition hex_text :: "nat \<Rightarrow> string" where
  "hex_text n = (if n = 0 then ''0'' else hex_digits n [])"

definition FormatEtag :: "int \<Rightarrow> nat \<Rightarrow> string" where
  "FormatEtag mtime sz =
     [CHR 0x22] @ hex_text (unat (of_int mtime :: u64)) @ ''-'' @ hex_text sz @ [CHR 0x22]"

definition file_length :: "CachedFile \<Rightarrow> nat" where
  "file_length f = (if cf_content f \<noteq> [] then length (cf_content f) else cf_file_size f)"

definition not_modified :: "(string \<Rightarrow> int option) \<Rightarrow> HandlerCtx \<Rightarrow> CachedFile \<Rightarrow> bool" where
  "not_modified strptime ctx f =
     (let inm = hc_header ctx ''if-none-match'';
          nm = (inm \<noteq> [] \<and> inm = FormatEtag (cf_mtime f) (file_length f))
      in if nm then True
         else let ims = hc_header ctx ''if-modified-since''
              in ims \<noteq> [] \<and> (case strptime ims of None \<Rightarrow> False | Some t \<Rightarrow> cf_mtime f \<le> t))"

definition add_extra :: "HandlerCtx \<Rightarrow> response_state \<Rightarrow> response_state" where
  "add_extra ctx sr = fold (\<lambda>(k, v). ResponseHeader k v) (hc_extra ctx) sr"

definition fillCommonHeaders ::
  "(int \<Rightarrow> string) \<Rightarrow> HandlerCtx \<Rightarrow> CachedFile \<Rightarrow> nat \<Rightarrow> nat \<Rightarrow> response_state \<Rightarrow> response_state" where
  "fillCommonHeaders FormatTime ctx f content_len fsize sr =
     add_extra ctx
       (ResponseHeader ''Accept-Ranges'' ''bytes''
         (ResponseHeader ''ETag'' (FormatEtag (cf_mtime f) fsize)
           (ResponseHeader ''Last-Modified'' (FormatTime (cf_mtime f))
             (ResponseHeader ''Cache-Control'' ''no-cache''
               (ResponseHeaderUint ''Content-Length'' content_len
                 (ResponseHeader ''Content-Type'' (cf_mime f) sr))))))"

definition content_range :: "u64 \<Rightarrow> u64 \<Rightarrow> u64 \<Rightarrow> string" where
  "content_range a b tot =
     ''bytes '' @ uint_text (unat a) @ ''-'' @ uint_text (unat b) @ ''/'' @ uint_text (unat tot)"

definition on_response :: "(Response \<Rightarrow> Response) \<Rightarrow> response_state \<Rightarrow> response_state" where
  "on_response g sr = (fst sr, g (snd sr))"

definition range_response ::
  "(int \<Rightarrow> string) \<Rightarrow> string \<Rightarrow> HandlerCtx \<Rightarrow> CachedFile \<Rightarrow> region_state \<Rightarrow> response_state option" where
  "range_response FormatTime date ctx f st =
     (let range_hdr = hc_header ctx ''range''; fsize = file_length f
      in if range_hdr = [] then None
         else case ParseRange range_hdr (of_nat fsize) of
                None \<Rightarrow> None
              | Some (a, b, tot) \<Rightarrow>
                  let range_len = unat (b - a + 1);
                      head = EndHeaders date (ResponseHeader ''Content-Range'' (content_range a b tot)
                               (fillCommonHeaders FormatTime ctx f range_len fsize (new_response 206 st)))
                  in if cf_content f \<noteq> []
                     then Some (on_response (ResponseBody (take range_len (drop (unat a) (cf_content f)))) head)
                     else if 0 \<le> cf_fd f
                     then Some (on_response (BodyFile (cf_fd f) (cf_file_size f) (unat a) range_len) head)
                     else None)"

definition file_response ::
  "(int \<Rightarrow> string) \<Rightarrow> string \<Rightarrow> HandlerCtx \<Rightarrow> CachedFile \<Rightarrow> region_state \<Rightarrow> response_state" where
  "file_response FormatTime date ctx f st =
     (if cf_content f \<noteq> []
      then on_response (ResponseBody (cf_content f))
             (EndHeaders date (fillCommonHeaders FormatTime ctx f (length (cf_content f))
               (length (cf_content f)) (new_response 200 st)))
      else if 0 \<le> cf_fd f
      then on_response (BodyFile (cf_fd f) (cf_file_size f) 0 0)
             (EndHeaders date (fillCommonHeaders FormatTime ctx f (cf_file_size f) (cf_file_size f)
               (new_response 200 st)))
      else ErrorResponse date 404 st)"

text \<open>Serving a cached file: 304, 206 or 200.\<close>

definition serve_file ::
  "(int \<Rightarrow> string) \<Rightarrow> (string \<Rightarrow> int option) \<Rightarrow> string \<Rightarrow> HandlerCtx \<Rightarrow> CachedFile \<Rightarrow> region_state
    \<Rightarrow> response_state" where
  "serve_file FormatTime strptime date ctx f st =
     (if not_modified strptime ctx f
      then EndHeaders date (add_extra ctx (ResponseHeader ''Cache-Control'' ''no-cache'' (new_response 304 st)))
      else case range_response FormatTime date ctx f st of
             Some sr \<Rightarrow> sr
           | None \<Rightarrow> file_response FormatTime date ctx f st)"

definition HandleRedirect :: "nat \<Rightarrow> string \<Rightarrow> string \<Rightarrow> HandlerCtx \<Rightarrow> region_state \<Rightarrow> response_state" where
  "HandleRedirect code target date ctx st =
     EndHeaders date (add_extra ctx (ResponseHeader ''Cache-Control'' ''no-cache''
       (ResponseHeader ''Location'' target (new_response code st))))"

section \<open>Directory listings\<close>

text \<open>
  A directory entry with the text of its modification time; \<open>mb_text\<close> formats a size of a megabyte
  or more (\<^verbatim>\<open>%.1f MB\<close>).
\<close>

record DirEntry =
  de_name :: string
  de_is_dir :: bool
  de_is_file :: bool
  de_size :: nat
  de_time :: string

abbreviation nl :: string where
  "nl \<equiv> [CHR 0x0A]"

definition listing_style :: string where
  \<open>listing_style =
     ''<style>''
     @ ''body{font-family:system-ui,sans-serif;margin:2em;max-width:800px}''
     @ ''table{border-collapse:collapse;width:100%}''
     @ ''th,td{padding:8px 12px;text-align:left;border-bottom:1px solid #eee}''
     @ ''tr:hover{background:#f9f9f9}''
     @ ''a{text-decoration:none}''
     @ ''tr.dir a{font-weight:500}''
     @ ''.size{text-align:right;font-variant-numeric:tabular-nums;color:#555}''
     @ ''.date{white-space:nowrap;color:#888;font-size:90%}''
     @ ''</style></head><body>'' @ nl\<close>

definition listing_head :: "string \<Rightarrow> string" where
  \<open>listing_head virt_path =
     ''<!DOCTYPE html>'' @ nl @ ''<html><head><meta charset="utf-8">'' @ nl
     @ ''<title>Index of '' @ virt_path @ ''</title>'' @ nl @ listing_style
     @ ''<h1>Index of '' @ virt_path @ ''</h1>'' @ nl @ ''<hr><table>'' @ nl
     @ ''<tr><th>Name</th><th class="size">Size</th><th class="date">Last modified</th></tr>'' @ nl\<close>

definition fmt_size :: "(nat \<Rightarrow> string) \<Rightarrow> nat \<Rightarrow> string" where
  "fmt_size mb_text sz =
     (if sz < 1024 then uint_text sz @ '' B''
      else if sz < 1024 * 1024 then uint_text (sz div 1024) @ '' KB'' else mb_text sz)"

definition dir_row :: "DirEntry \<Rightarrow> string" where
  \<open>dir_row d =
     ''<tr class="dir"><td><a href="'' @ de_name d @ ''/">'' @ de_name d @ ''/</a></td>''
     @ ''<td class="size">-</td><td class="date">'' @ de_time d @ ''</td></tr>'' @ nl\<close>

definition file_row :: "(nat \<Rightarrow> string) \<Rightarrow> DirEntry \<Rightarrow> string" where
  \<open>file_row mb_text f =
     ''<tr><td><a href="'' @ de_name f @ ''">'' @ de_name f @ ''</a></td>''
     @ ''<td class="size">'' @ fmt_size mb_text (de_size f) @ ''</td>''
     @ ''<td class="date">'' @ de_time f @ ''</td></tr>'' @ nl\<close>

definition shown :: "DirEntry \<Rightarrow> bool" where
  "shown e \<longleftrightarrow> de_name e \<noteq> [] \<and> hd (de_name e) \<noteq> CHR ''.''"

definition listing_dirs :: "DirEntry list \<Rightarrow> DirEntry list" where
  "listing_dirs es = sort_key de_name (filter (\<lambda>e. shown e \<and> de_is_dir e) es)"

definition listing_files :: "DirEntry list \<Rightarrow> DirEntry list" where
  "listing_files es = sort_key de_name (filter (\<lambda>e. shown e \<and> \<not> de_is_dir e \<and> de_is_file e) es)"

definition listing_html :: "(nat \<Rightarrow> string) \<Rightarrow> DirEntry list \<Rightarrow> string \<Rightarrow> string" where
  \<open>listing_html mb_text es virt_path =
     listing_head virt_path
     @ (if virt_path \<noteq> ''/''
        then ''<tr class="dir"><td><a href="../">../</a></td>''
             @ ''<td class="size"></td><td class="date"></td></tr>'' @ nl else [])
     @ concat (map dir_row (listing_dirs es)) @ concat (map (file_row mb_text) (listing_files es))
     @ ''</table>'' @ nl @ ''<hr><address>webcpp</address>'' @ nl @ ''</body></html>'' @ nl\<close>

text \<open>\<open>None\<close> stands for an exception of the directory iterator.\<close>

definition GenerateDirectoryListing ::
  "(nat \<Rightarrow> string) \<Rightarrow> string \<Rightarrow> DirEntry list option \<Rightarrow> string \<Rightarrow> region_state \<Rightarrow> response_state" where
  "GenerateDirectoryListing mb_text date dir virt_path st =
     (case dir of
        None \<Rightarrow> ErrorResponse date 404 st
      | Some es \<Rightarrow>
          let html = listing_html mb_text es virt_path;
              (st1, r1) = EndHeaders date (ResponseHeader ''Cache-Control'' ''no-cache''
                 (ResponseHeaderUint ''Content-Length'' (length html)
                   (ResponseHeader ''Content-Type'' ''text/html'' (new_response 200 st))))
          in (WriteRegion html st1, r1))"

text \<open>
  \<open>dirs\<close> gives the directories below the document root by their relative path, with their
  entries (or the exception of reading them).
\<close>

definition HandleStatic ::
  "(int \<Rightarrow> string) \<Rightarrow> (string \<Rightarrow> int option) \<Rightarrow> (nat \<Rightarrow> string) \<Rightarrow> (string \<rightharpoonup> DirEntry list option) \<Rightarrow> string
    \<Rightarrow> file_cache \<Rightarrow> HandlerCtx \<Rightarrow> region_state \<Rightarrow> response_state" where
  "HandleStatic FormatTime strptime mb_text dirs date cache ctx st =
     (if hc_method ctx \<noteq> ''GET'' then ErrorResponse date 501 st
      else
        let norm_path = NormalizePath (hc_path ctx)
        in if norm_path = [] then ErrorResponse date 403 st
           else case GetFile cache norm_path of
                  None \<Rightarrow>
                    let (dir_on_disk, dir_virt) = autoindex_dir norm_path
                    in (case dirs dir_on_disk of
                          Some dir \<Rightarrow> GenerateDirectoryListing mb_text date dir dir_virt st
                        | None \<Rightarrow> ErrorResponse date 404 st)
                | Some f \<Rightarrow> serve_file FormatTime strptime date ctx f st)"

section \<open>Paths stay below the document root\<close>

fun segments :: "string \<Rightarrow> string list" where
  "segments [] = [[]]"
| "segments (c # cs) =
     (if c = CHR ''/'' then [] # segments cs
      else case segments cs of [] \<Rightarrow> [[c]] | s # ss \<Rightarrow> (c # s) # ss)"

text \<open>Following a relative path from a directory; \<open>None\<close> is a step above where it started.\<close>

fun walk :: "string list \<Rightarrow> string list \<Rightarrow> string list option" where
  "walk cur [] = Some cur"
| "walk cur (s # ss) =
     (if s = ''..'' then (if cur = [] then None else walk (butlast cur) ss)
      else if s = ''.'' \<or> s = [] then walk cur ss else walk (cur @ [s]) ss)"

lemma segments_nonempty: "segments p \<noteq> []"
  by (induction p) (auto split: list.splits)

lemma segments_prefix: "prefix (hd (segments p)) p"
  by (induction p) (auto split: list.splits)

lemma segment_sublist: "s \<in> set (segments p) \<Longrightarrow> sublist s p"
proof (induction p arbitrary: s)
  case (Cons c cs)
  show ?case
  proof (cases "c = CHR ''/''")
    case True
    with Cons show ?thesis
      by (auto intro: sublist_Cons_right [THEN iffD2])
  next
    case False
    obtain t ts where ts: "segments cs = t # ts"
      using segments_nonempty [of cs] by (cases "segments cs") auto
    then have "prefix (c # t) (c # cs)"
      using segments_prefix [of cs] by simp
    with False Cons ts show ?thesis
      by (auto simp: sublist_Cons_right)
  qed
qed simp

lemma walk_below: "''..'' \<notin> set ss \<Longrightarrow> walk cur ss = Some (cur @ filter (\<lambda>s. s \<noteq> ''.'' \<and> s \<noteq> []) ss)"
  by (induction ss arbitrary: cur) auto

lemma sublist_index:
  assumes "\<not> sublist [a, a] p" and "p \<noteq> []" and "last p \<noteq> a \<or> a \<noteq> CHR ''i''"
    and "a \<in> {CHR ''.'', CHR ''/''}"
  shows "\<not> sublist [a, a] (p @ ''index.html'')"
proof
  assume "sublist [a, a] (p @ ''index.html'')"
  then consider "sublist [a, a] p" | "sublist [a, a] ''index.html''"
    | xs ys where "[a, a] = xs @ ys" "suffix xs p" "prefix ys ''index.html''"
    by (auto simp: sublist_append)
  then show False
  proof cases
    case 2
    with assms(4) show False
      by (auto simp: sublist_Cons_right)
  next
    case (3 xs ys)
    then have "ys = [] \<or> ys = [a] \<or> ys = [a, a]"
      by (cases xs) (auto simp: Cons_eq_append_conv)
    with 3 assms(1,4) show False
      by (auto dest: suffix_imp_sublist)
  qed (use assms in auto)
qed

lemma NormalizePath_safe:
  assumes "NormalizePath raw = p" and "p \<noteq> []"
  shows "hd p = CHR ''/''" and "\<not> sublist ''..'' p" and "\<not> sublist ''//'' p"
  using assms sublist_index [of "CHR ''.''" "takeWhile (\<lambda>c. c \<noteq> CHR ''?'') raw"]
    sublist_index [of "CHR ''/''" "takeWhile (\<lambda>c. c \<noteq> CHR ''?'') raw"]
  by (auto simp: NormalizePath_def Let_def split: if_splits)

lemma sublist_part: "\<not> sublist xs p \<Longrightarrow> \<not> sublist xs (take n (drop m p))"
  by (meson sublist_drop sublist_order.order_trans sublist_take)

text \<open>C25. Whatever path a request names, the file looked up and the directory listed for it lie
  below the document root: following the path from there never steps above it, and never
  starts over at the root of the file system.\<close>

theorem static_paths_below_root:
  assumes "NormalizePath raw = p" and "p \<noteq> []" and "q \<in> {drop 1 p, fst (autoindex_dir p)}"
  shows "(\<exists>d. walk root (segments q) = Some (root @ d)) \<and> (q = [] \<or> hd q \<noteq> CHR ''/'')"
proof (rule conjI)
  obtain cs where p: "p = CHR ''/'' # cs"
    using NormalizePath_safe(1) [OF assms(1,2)] assms(2) by (cases p) auto
  obtain n where q: "q = take n (drop 1 p)"
    using assms(3) by (auto simp: autoindex_dir_def Let_def p split: if_splits) (metis take_all order_refl take_0)+
  have "''..'' \<notin> set (segments q)"
    using segment_sublist [of "''..''" q] sublist_part [OF NormalizePath_safe(2) [OF assms(1,2)]] q by blast
  then show "\<exists>d. walk root (segments q) = Some (root @ d)"
    by (simp add: walk_below)
  have "\<not> prefix ''//'' p"
    using NormalizePath_safe(3) [OF assms(1,2)] by blast
  then show "q = [] \<or> hd q \<noteq> CHR ''/''"
    using q by (cases cs; cases n) (auto simp: p)
qed

theorem static_paths_below_root_witness:
  "NormalizePath ''/docs/?v=1'' = ''/docs/index.html''
   \<and> (\<exists>d. walk [''srv'', ''www''] (segments (fst (autoindex_dir ''/docs/index.html''))) = Some ([''srv'', ''www''] @ d))"
proof
  show p: "NormalizePath ''/docs/?v=1'' = ''/docs/index.html''"
    by code_simp
  show "\<exists>d. walk [''srv'', ''www''] (segments (fst (autoindex_dir ''/docs/index.html''))) = Some ([''srv'', ''www''] @ d)"
    by (rule conjunct1 [OF static_paths_below_root [OF p]]) auto
qed

section \<open>Ranges\<close>

lemma range_digits_uint: "range_digits (uint_digits n acc) 0 = range_digits acc (of_nat n)"
proof (induction n acc rule: uint_digits.induct)
  case (1 n acc)
  show ?case
  proof (cases "n = 0")
    case False
    have c: "of_char (char_of (48 + n mod 10) :: char) = 48 + n mod 10"
      by (simp add: take_bit_nat_eq_self_iff less_le_trans [of _ 10])
    have digit: "\<not> 9 < n mod 10"
      using mod_less_divisor [of 10 n] by linarith
    have "range_digits (uint_digits n acc) 0 = range_digits (char_of (48 + n mod 10) # acc) (of_nat (n div 10))"
      using "1.IH" [OF False] False by (subst uint_digits.simps) simp
    also have "\<dots> = range_digits acc (of_nat (n div 10) * 10 + of_nat (n mod 10))"
      using c digit by simp
    also have "(of_nat (n div 10) * 10 + of_nat (n mod 10) :: u64) = of_nat (n div 10 * 10 + n mod 10)"
      by (simp only: of_nat_add of_nat_mult of_nat_numeral)
    finally show ?thesis
      by simp
  qed (simp add: uint_digits.simps)
qed

lemma range_digits_text: "range_digits (uint_text n) 0 = Some (of_nat n)"
  by (simp add: uint_text_def range_digits_uint)

lemma uint_text_digits: "c \<in> set (uint_text n) \<Longrightarrow> c \<noteq> CHR ''-''"
proof -
  have "c \<noteq> CHR ''-''" if "c \<in> set s" "range_digits s v = Some w" for s v w
    using that by (induction s v rule: range_digits.induct) (auto split: if_splits)
  then show "c \<in> set (uint_text n) \<Longrightarrow> c \<noteq> CHR ''-''"
    using range_digits_text by blast
qed

lemma uint_text_nonempty: "uint_text n \<noteq> []"
proof
  assume "uint_text n = []"
  then have "digits_value [] = n"
    using uint_text_value [of n] by simp
  then show False
    using \<open>uint_text n = []\<close> by (simp add: digits_value_def uint_text_def split: if_splits)
qed

lemma ParseRange_bounds:
  "ParseRange hdr sz = Some (a, b, t) \<Longrightarrow> a \<le> b \<and> b < sz \<and> t = sz"
  by (auto simp: ParseRange_def Let_def not_less not_le word_le_nat_alt word_less_nat_alt unat_minus_one
      split: if_splits option.splits)

lemma byte_ranges_accepted:
  assumes "m \<le> n" and n: "n < unat sz"
  shows "ParseRange (''bytes='' @ uint_text m @ ''-'' @ uint_text n) sz = Some (of_nat m, of_nat n, sz)"
proof -
  have "unat sz < 2 ^ LENGTH(64)"
    by (rule unsigned_less)
  then have u: "unat (of_nat n :: u64) = n" "unat (of_nat m :: u64) = m"
    using n \<open>m \<le> n\<close> by simp_all
  have "takeWhile (\<lambda>c. c \<noteq> CHR ''-'') (uint_text m @ CHR ''-'' # uint_text n) = uint_text m"
    using uint_text_digits [of _ m] by (simp add: takeWhile_append2 takeWhile_tail)
  moreover have "sz \<noteq> 0"
    using n by auto
  moreover have "\<not> sz \<le> of_nat m" "\<not> sz \<le> of_nat n" "\<not> (of_nat n :: u64) < of_nat m"
    using n \<open>m \<le> n\<close> by (simp_all add: word_le_nat_alt word_less_nat_alt u)
  ultimately show ?thesis
    using uint_text_nonempty [of m] uint_text_nonempty [of n]
    by (simp add: ParseRange_def Let_def range_digits_text)
qed

text \<open>A byte range that is accepted lies within the file, whatever the header says, and every
  range of the file is accepted as written.\<close>

theorem byte_ranges:
  "ParseRange hdr sz = Some (a, b, t) \<Longrightarrow> a \<le> b \<and> b < sz \<and> t = sz"
  "m \<le> n \<Longrightarrow> n < unat sz \<Longrightarrow>
     ParseRange (''bytes='' @ uint_text m @ ''-'' @ uint_text n) sz = Some (of_nat m, of_nat n, sz)"
  by (fact ParseRange_bounds, fact byte_ranges_accepted)

theorem byte_ranges_witness: "ParseRange (''bytes='' @ uint_text 2 @ ''-'' @ uint_text 5) 10 = Some (2, 5, 10)"
  using byte_ranges(2) [of 2 5 10] by simp

section \<open>Files are served exactly\<close>

definition common_fields :: "(int \<Rightarrow> string) \<Rightarrow> CachedFile \<Rightarrow> nat \<Rightarrow> nat \<Rightarrow> (string \<times> string) list" where
  "common_fields FormatTime f len fsize =
     [(''Content-Type'', cf_mime f), (''Content-Length'', uint_text len), (''Cache-Control'', ''no-cache''),
      (''Last-Modified'', FormatTime (cf_mtime f)), (''ETag'', FormatEtag (cf_mtime f) fsize),
      (''Accept-Ranges'', ''bytes'')]"

lemma ResponseHeader_structured [simp]:
  "sr_structured (snd (fst (ResponseHeader k v sr))) = sr_structured (snd (fst sr))"
  by (cases sr) (simp add: ResponseHeader_def WriteCRLF_def)

lemma new_response_structured [simp]:
  "sr_structured (snd (fst (new_response code st))) = sr_structured (snd st)"
  by (simp add: new_response_def WriteCRLF_def)

lemma fillCommonHeaders_fold:
  "\<not> sr_structured (snd (fst sr)) \<Longrightarrow> fillCommonHeaders FormatTime ctx f len fsize sr =
     fold (\<lambda>(k, v). ResponseHeader k v) (common_fields FormatTime f len fsize @ hc_extra ctx) sr"
  by (simp add: fillCommonHeaders_def add_extra_def common_fields_def ResponseHeaderUint_text)

lemma body_wire:
  assumes "region_inv others st" and "\<not> sr_structured (snd st)"
    and "sr_used (snd st) + length (head_text code hs date True) \<le> sr_cap (snd st)"
  shows "HeaderWire (on_response (ResponseBody body)
      (EndHeaders date (fold (\<lambda>(k, v). ResponseHeader k v) hs (new_response code st)))) = head_text code hs date True"
proof -
  obtain st' r where e: "EndHeaders date (fold (\<lambda>(k, v). ResponseHeader k v) hs (new_response code st)) = (st', r)"
    by fastforce
  have "HeaderWire (WriteRegion [] st', r) = head_text code hs date True"
    using build_wire(1) [OF assms(1,2) _ e, of "[]"] assms(3) by simp
  then show "HeaderWire (on_response (ResponseBody body)
      (EndHeaders date (fold (\<lambda>(k, v). ResponseHeader k v) hs (new_response code st)))) = head_text code hs date True"
    by (auto simp: e on_response_def ResponseBody_def HeaderWire_def WriteRegion_def split: if_splits)
qed

lemma body_of_response: "BodyWire (on_response (ResponseBody body) sr) = body"
  by (cases sr) (simp add: on_response_def ResponseBody_def BodyWire_def)

text \<open>The fields of the answer to a range request for the bytes \<open>m\<close> to \<open>n\<close>.\<close>

definition range_fields :: "(int \<Rightarrow> string) \<Rightarrow> HandlerCtx \<Rightarrow> CachedFile \<Rightarrow> nat \<Rightarrow> nat \<Rightarrow> (string \<times> string) list" where
  "range_fields FormatTime ctx f m n =
     common_fields FormatTime f (n - m + 1) (length (cf_content f)) @ hc_extra ctx
     @ [(''Content-Range'', ''bytes '' @ uint_text m @ ''-'' @ uint_text n @ ''/'' @ uint_text (length (cf_content f)))]"


definition hello_file :: CachedFile where
  "hello_file = \<lparr> cf_content = ''hello world'', cf_mime = ''text/html'', cf_fd = 5, cf_file_size = 11, cf_mtime = 0 \<rparr>"

definition hello_ctx :: HandlerCtx where
  "hello_ctx = \<lparr> hc_method = ''GET'', hc_path = ''/'',
     hc_header = (\<lambda>k. if k = ''range'' then ''bytes='' @ uint_text 6 @ ''-'' @ uint_text 10 else []), hc_extra = [] \<rparr>"


end
