(* ===== verification/Binary64.thy ===== *)
theory Binary64
  imports Complex_Main
begin

text \<open>
  Arithmetic on \<^verbatim>\<open>double\<close>: a value is the rational number it stands for, and every operation is
  the exact operation followed by \<open>binary64\<close>, rounding to 53 significant bits, ties to even.
  The exponent is not bounded: every value the server computes lies between \<open>10 ^ -3\<close> and
  \<open>2 ^ 72\<close> or is zero, far from the limits of the format. What the clients rely on is the locale
  \<open>float_rounding\<close>, and its interpretation is \<open>binary64\<close>.
\<close>

section \<open>The interface\<close>

locale float_rounding =
  fixes rnd :: "rat \<Rightarrow> rat"
  assumes rnd_mono: "x \<le> y \<Longrightarrow> rnd x \<le> rnd y"
    and rnd_exact: "0 \<le> n \<Longrightarrow> n \<le> 2 ^ 53 \<Longrightarrow> rnd (of_int n) = of_int n"
begin

lemma rnd_zero: "rnd 0 = 0"
  using rnd_exact [of 0] by simp

lemma rnd_one: "rnd 1 = 1"
  using rnd_exact [of 1] by simp

lemma rnd_nonneg: "0 \<le> x \<Longrightarrow> 0 \<le> rnd x"
  using rnd_mono [of 0 x] by (simp add: rnd_zero)

lemma rnd_le_int: "x \<le> of_int n \<Longrightarrow> 0 \<le> n \<Longrightarrow> n \<le> 2 ^ 53 \<Longrightarrow> rnd x \<le> of_int n"
  using rnd_mono [of x "of_int n"] rnd_exact [of n] by simp

text \<open>A rounded quotient of a part by the whole is a fraction.\<close>

lemma rnd_fraction:
  assumes "0 \<le> x" and "x \<le> y"
  shows "0 \<le> rnd (x / y)" and "rnd (x / y) \<le> 1"
proof -
  show "0 \<le> rnd (x / y)"
    using assms by (intro rnd_nonneg) simp
  have "x / y \<le> 1"
    using assms by (cases "y = 0") (auto simp: divide_le_eq)
  then show "rnd (x / y) \<le> 1"
    using rnd_le_int [of _ 1] by simp
qed

text \<open>Truncating a rounded share of \<open>n\<close> gives a number between \<open>0\<close> and \<open>n\<close>.\<close>

lemma share_bounds:
  assumes "0 \<le> f" and "f \<le> 1" and "0 \<le> n" and "n \<le> 2 ^ 53"
  shows "0 \<le> \<lfloor>rnd (f * of_int n)\<rfloor>" and "\<lfloor>rnd (f * of_int n)\<rfloor> \<le> n"
proof -
  have "f * of_int n \<le> 1 * of_int n"
    using assms(2,3) by (intro mult_right_mono) simp_all
  then have "rnd (f * of_int n) \<le> of_int n"
    using assms(3,4) by (intro rnd_le_int) simp_all
  then show "\<lfloor>rnd (f * of_int n)\<rfloor> \<le> n"
    by linarith
  show "0 \<le> \<lfloor>rnd (f * of_int n)\<rfloor>"
    using assms rnd_nonneg [of "f * of_int n"] by simp
qed

lemma share_mono: "f \<le> g \<Longrightarrow> 0 \<le> n \<Longrightarrow> \<lfloor>rnd (f * of_int n)\<rfloor> \<le> \<lfloor>rnd (g * of_int n)\<rfloor>"
  by (intro floor_mono rnd_mono mult_right_mono) simp_all

end

section \<open>Rounding to 53 bits\<close>

function ilog2 :: "int \<Rightarrow> nat" where
  "ilog2 n = (if n < 2 then 0 else Suc (ilog2 (n div 2)))"
  by pat_completeness auto
termination
  by (relation "measure nat") auto

declare ilog2.simps [simp del]

definition binary_exponent :: "rat \<Rightarrow> int" where
  "binary_exponent x =
     (case quotient_of x of (p, q) \<Rightarrow>
        let e = int (ilog2 p) - int (ilog2 q)
        in if 2 powi e \<le> x then e else e - 1)"

definition round_half_even :: "rat \<Rightarrow> int" where
  "round_half_even x =
     (let f = \<lfloor>x\<rfloor>; d = x - of_int f
      in if d < 1 / 2 then f else if 1 / 2 < d then f + 1 else if even f then f else f + 1)"

definition round_positive :: "rat \<Rightarrow> rat" where
  "round_positive x =
     (let e = binary_exponent x in of_int (round_half_even (x * 2 powi (52 - e))) * 2 powi (e - 52))"

definition binary64 :: "rat \<Rightarrow> rat" where
  "binary64 x = (if x = 0 then 0 else if 0 < x then round_positive x else - round_positive (- x))"

text \<open>Conversions: an unsigned integer to \<^verbatim>\<open>double\<close>, and a non-negative \<^verbatim>\<open>double\<close> to an unsigned integer.\<close>

definition double_of :: "int \<Rightarrow> rat" where "double_of n = binary64 (of_int n)"
definition trunc_double :: "rat \<Rightarrow> int" where "trunc_double x = \<lfloor>x\<rfloor>"

section \<open>The interpretation\<close>

lemma ilog2_bounds: "0 < n \<Longrightarrow> 2 ^ ilog2 n \<le> n \<and> n < 2 ^ Suc (ilog2 n)"
proof (induction n rule: ilog2.induct)
  case (1 n)
  show ?case
  proof (cases "n < 2")
    case True
    with "1.prems" show ?thesis
      by (subst (1 2) ilog2.simps) simp
  next
    case False
    with 1 have "2 ^ ilog2 (n div 2) \<le> n div 2" "n div 2 < 2 ^ Suc (ilog2 (n div 2))"
      by auto
    with False show ?thesis
      by (subst (1 2) ilog2.simps) auto
  qed
qed

lemma exponent_bounds:
  assumes "0 < x"
  shows "2 powi binary_exponent x \<le> x" and "x < 2 powi (binary_exponent x + 1)"
proof -
  obtain p q where pq: "quotient_of x = (p, q)"
    by (cases "quotient_of x")
  have x: "x = of_int p / of_int q" and q: "0 < q"
    using quotient_of_div [OF pq] quotient_of_denom_pos [OF pq] by auto
  then have p: "0 < p"
    using assms by (simp add: zero_less_divide_iff)
  let ?a = "ilog2 p" and ?b = "ilog2 q"
  note logs = ilog2_bounds [OF p, folded of_int_le_iff [where 'a = rat] of_int_less_iff [where 'a = rat]]
    ilog2_bounds [OF q, folded of_int_le_iff [where 'a = rat] of_int_less_iff [where 'a = rat]]
  have P: "(2 :: rat) ^ ?a \<le> of_int p" "of_int p < (2 :: rat) ^ Suc ?a"
    and Q: "(2 :: rat) ^ ?b \<le> of_int q" "of_int q < (2 :: rat) ^ Suc ?b"
    using logs by simp_all
  let ?e = "int ?a - int ?b"
  have split: "(2 :: rat) powi ?e = 2 ^ ?a / 2 ^ ?b" "(2 :: rat) powi (?e + 1) = 2 ^ Suc ?a / 2 ^ ?b"
    "(2 :: rat) powi (?e - 1) = 2 ^ ?a / 2 ^ Suc ?b"
    by (simp_all add: power_int_diff power_int_add)
  have "x < 2 ^ Suc ?a / 2 ^ ?b"
    unfolding x using P Q q p by (intro frac_less) auto
  moreover have "2 ^ ?a / 2 ^ Suc ?b \<le> x"
    unfolding x using P Q q p by (intro frac_le) auto
  ultimately have "2 powi (?e - 1) \<le> x" "x < 2 powi (?e + 1)"
    by (simp_all add: split)
  then show "2 powi binary_exponent x \<le> x" and "x < 2 powi (binary_exponent x + 1)"
    by (auto simp: binary_exponent_def pq Let_def)
qed

lemma round_half_even_bounds: "\<lfloor>x\<rfloor> \<le> round_half_even x" "round_half_even x \<le> \<lfloor>x\<rfloor> + 1"
  by (simp_all add: round_half_even_def Let_def)

lemma round_half_even_int [simp]: "round_half_even (of_int n) = n"
  by (simp add: round_half_even_def)

lemma round_half_even_mono:
  assumes "x \<le> y"
  shows "round_half_even x \<le> round_half_even y"
proof (cases "\<lfloor>x\<rfloor> = \<lfloor>y\<rfloor>")
  case True
  then show ?thesis
    using assms by (simp add: round_half_even_def Let_def)
next
  case False
  then have "\<lfloor>x\<rfloor> + 1 \<le> \<lfloor>y\<rfloor>"
    using floor_mono [OF assms] by linarith
  then show ?thesis
    using round_half_even_bounds [of x] round_half_even_bounds [of y] by linarith
qed

lemma powi_split: "(2 :: rat) powi (a + b) = 2 powi a * 2 powi b"
  by (simp add: power_int_add)

lemma powi_less: "(2 :: rat) powi a < 2 powi b \<Longrightarrow> a < b"
  using power_int_increasing [of b a "2 :: rat"] by (meson not_le one_le_numeral)

lemma scaled_bounds:
  assumes "0 < x"
  shows "2 ^ 52 \<le> x * 2 powi (52 - binary_exponent x)" and "x * 2 powi (52 - binary_exponent x) \<le> 2 ^ 53"
proof -
  let ?e = "binary_exponent x"
  have "(2 :: rat) powi ?e * 2 powi (52 - ?e) = 2 ^ 52"
    using powi_split [of ?e "52 - ?e"] by (simp add: power_int_def)
  moreover have "(2 :: rat) powi (?e + 1) * 2 powi (52 - ?e) = 2 ^ 53"
    using powi_split [of "?e + 1" "52 - ?e"] by (simp add: power_int_def)
  moreover have "(0 :: rat) \<le> 2 powi (52 - ?e)"
    by simp
  ultimately show "2 ^ 52 \<le> x * 2 powi (52 - ?e)" and "x * 2 powi (52 - ?e) \<le> 2 ^ 53"
    using exponent_bounds [OF assms]
    by (metis mult_right_mono, metis mult_right_mono less_imp_le)
qed

lemma round_positive_bounds:
  assumes "0 < x"
  shows "2 powi binary_exponent x \<le> round_positive x" and "round_positive x \<le> 2 powi (binary_exponent x + 1)"
proof -
  let ?e = "binary_exponent x"
  let ?m = "round_half_even (x * 2 powi (52 - ?e))"
  have "2 ^ 52 \<le> ?m" "?m \<le> 2 ^ 53"
    using round_half_even_mono [OF scaled_bounds(1) [OF assms]] round_half_even_mono [OF scaled_bounds(2) [OF assms]]
      round_half_even_int [of "2 ^ 52"] round_half_even_int [of "2 ^ 53"] by simp_all
  then have "(2 :: rat) ^ 52 \<le> of_int ?m" "of_int ?m \<le> (2 :: rat) ^ 53"
    by (metis of_int_le_iff of_int_numeral of_int_power)+
  then have "(2 :: rat) ^ 52 * 2 powi (?e - 52) \<le> round_positive x" "round_positive x \<le> 2 ^ 53 * 2 powi (?e - 52)"
    unfolding round_positive_def Let_def by (intro mult_right_mono; simp)+
  moreover have "(2 :: rat) ^ 52 * 2 powi (?e - 52) = 2 powi ?e" "(2 :: rat) ^ 53 * 2 powi (?e - 52) = 2 powi (?e + 1)"
    using powi_split [of 52 "?e - 52"] powi_split [of 53 "?e - 52"] by (simp_all add: add.commute)
  ultimately show "2 powi ?e \<le> round_positive x" and "round_positive x \<le> 2 powi (?e + 1)"
    by (simp_all only:)
qed

lemma round_positive_mono:
  assumes "0 < x" and "x \<le> y"
  shows "round_positive x \<le> round_positive y"
proof -
  have y: "0 < y"
    using assms by linarith
  let ?e = "binary_exponent x" and ?f = "binary_exponent y"
  show ?thesis
  proof (cases "?e = ?f")
    case True
    then show ?thesis
      unfolding round_positive_def Let_def True using assms(2)
      by (intro mult_right_mono) (auto intro!: round_half_even_mono mult_right_mono)
  next
    case False
    have "2 powi ?e < (2 :: rat) powi (?f + 1)"
      using exponent_bounds [OF assms(1)] exponent_bounds [OF y] assms(2) by linarith
    then have "?e < ?f + 1"
      by (rule powi_less)
    with False have "?e + 1 \<le> ?f"
      by linarith
    then have "(2 :: rat) powi (?e + 1) \<le> 2 powi ?f"
      by (simp add: power_int_increasing)
    then show ?thesis
      using round_positive_bounds [OF assms(1)] round_positive_bounds [OF y] by linarith
  qed
qed

lemma round_positive_pos: "0 < x \<Longrightarrow> 0 < round_positive x"
  using round_positive_bounds(1) [of x] by (metis less_le_trans zero_less_numeral zero_less_power_int)

lemma round_positive_int:
  assumes "0 < n" and "n \<le> 2 ^ 53"
  shows "round_positive (of_int n) = of_int n"
proof -
  let ?e = "binary_exponent (of_int n)"
  have pos: "(0 :: rat) < of_int n"
    using assms(1) by simp
  have "(1 :: rat) \<le> of_int n"
    using assms(1) by simp
  then have "(2 :: rat) powi 0 < 2 powi (?e + 1)"
    using exponent_bounds(2) [OF pos] by simp
  then have "0 \<le> ?e"
    using powi_less [of 0 "?e + 1"] by linarith
  have "(of_int n :: rat) \<le> 2 ^ 53"
    using assms(2) by (metis of_int_le_iff of_int_numeral of_int_power)
  then have "(2 :: rat) powi ?e < 2 powi 54"
    using exponent_bounds(1) [OF pos] by (simp add: power_int_def)
  then have le: "?e \<le> 53"
    using powi_less [of ?e 54] by linarith
  have unit: "(2 :: rat) powi (52 - ?e) * 2 powi (?e - 52) = 1"
    using powi_split [of "52 - ?e" "?e - 52"] by simp
  have "\<exists>k. of_int n * (2 :: rat) powi (52 - ?e) = of_int k"
  proof (cases "?e \<le> 52")
    case True
    then show ?thesis
      by (intro exI [of _ "n * 2 ^ nat (52 - ?e)"]) (simp add: power_int_def)
  next
    case False
    with le have "?e = 53"
      by linarith
    then have "(2 :: rat) ^ 53 \<le> of_int n"
      using exponent_bounds(1) [OF pos] by (simp add: power_int_def)
    then have "n = 2 ^ 53"
      using assms(2) by (metis antisym of_int_le_iff of_int_numeral of_int_power)
    then show ?thesis
      using \<open>?e = 53\<close> by (intro exI [of _ "2 ^ 52"]) (simp add: power_int_def)
  qed
  then obtain k where k: "of_int n * (2 :: rat) powi (52 - ?e) = of_int k"
    by blast
  have "round_positive (of_int n) = of_int n * 2 powi (52 - ?e) * 2 powi (?e - 52)"
    by (simp add: round_positive_def Let_def k)
  also have "\<dots> = of_int n"
    using unit by (simp add: mult.assoc)
  finally show ?thesis .
qed

lemma binary64_mono: "x \<le> y \<Longrightarrow> binary64 x \<le> binary64 y"
  using round_positive_mono [of x y] round_positive_mono [of "- y" "- x"] round_positive_pos [of "- x"]
    round_positive_pos [of y]
  by (auto simp: binary64_def)

lemma binary64_int: "0 \<le> n \<Longrightarrow> n \<le> 2 ^ 53 \<Longrightarrow> binary64 (of_int n) = of_int n"
  using round_positive_int [of n] by (cases "n = 0") (auto simp: binary64_def)

interpretation b64: float_rounding binary64
  by unfold_locales (auto intro: binary64_mono binary64_int)

lemma double_of_mono: "m \<le> n \<Longrightarrow> double_of m \<le> double_of n"
  by (simp add: double_of_def binary64_mono)

lemma double_of_exact: "0 \<le> n \<Longrightarrow> n \<le> 2 ^ 53 \<Longrightarrow> double_of n = of_int n"
  by (simp add: double_of_def binary64_int)

end
