(* ===== verification/Metrics.thy ===== *)
theory Metrics
  imports Region Binary64
begin

text \<open>
  The metrics collector (\<^verbatim>\<open>handler/metrics.cpp\<close>): per-worker counters, the ring of 60 one-second
  slots the workers flush them into, latency percentiles, alert rules, the JSON pages, and
  the payloads of the event stream (\<^verbatim>\<open>net/sse_push.cpp\<close>). Counters are 64-bit words; \<^verbatim>\<open>double\<close> is
  the model of theory \<open>Binary64\<close>. The clock is an argument, in seconds for the ring and in
  nanoseconds for the uptime. The counters of \<^verbatim>\<open>MetricsSnapshot::RpcMetrics\<close> are never written or
  read and are left out.
\<close>

section \<open>State\<close>

definition kLatencyBuckets :: nat where "kLatencyBuckets = 10"
definition kRingHistory :: int where "kRingHistory = 60"
definition kMaxWorkers :: int where "kMaxWorkers = 64"

definition kBucketMax :: "u64 list" where
  "kBucketMax = [64, 128, 256, 512, 1000, 2000, 4000, 8000, 16000, - 1]"

record MetricsSnapshot =
  request_count :: u64
  request_h1 :: u64
  request_h2 :: u64
  error_count :: u64
  error_h1 :: u64
  error_h2 :: u64
  bytes_sent :: u64
  latency_buckets :: "u64 list"

definition zero_snapshot :: MetricsSnapshot where
  "zero_snapshot = \<lparr> request_count = 0, request_h1 = 0, request_h2 = 0, error_count = 0, error_h1 = 0,
     error_h2 = 0, bytes_sent = 0, latency_buckets = replicate kLatencyBuckets 0 \<rparr>"

text \<open>The counters of a worker have the fields of a snapshot; they are kept together in \<open>wm_counts\<close>.\<close>

record WorkerMetrics =
  active_connections :: u64
  wm_counts :: MetricsSnapshot

record RingSlot =
  sl_timestamp :: int
  sl_workers :: "MetricsSnapshot list"
  sl_total :: MetricsSnapshot

datatype AlertMetric = ErrorRate | P99Latency | QPS

record AlertRule =
  ar_name :: string
  ar_metric :: AlertMetric
  ar_threshold :: rat
  ar_window_secs :: int

record AlertState =
  as_name :: string
  as_firing :: bool

record LatencyPercentiles =
  p50 :: u64
  p90 :: u64
  p99 :: u64

record MetricsCollector =
  mx_num_workers :: int
  mx_workers :: "WorkerMetrics list"
  mx_ring :: "RingSlot list"
  mx_start :: int
  alert_rules :: "AlertRule list"
  alert_states :: "AlertState list"

definition default_rules :: "AlertRule list" where
  "default_rules =
     [\<lparr> ar_name = ''high-error-rate'', ar_metric = ErrorRate, ar_threshold = binary64 (1 / 10), ar_window_secs = 5 \<rparr>,
      \<lparr> ar_name = ''high-p99'', ar_metric = P99Latency, ar_threshold = 10000, ar_window_secs = 5 \<rparr>,
      \<lparr> ar_name = ''qps-plummet'', ar_metric = QPS, ar_threshold = 1000, ar_window_secs = 10 \<rparr>]"

definition new_metrics_collector :: "int \<Rightarrow> int \<Rightarrow> MetricsCollector" where
  "new_metrics_collector num_workers start =
     \<lparr> mx_num_workers = num_workers,
       mx_workers = replicate (nat kMaxWorkers) \<lparr> active_connections = 0, wm_counts = zero_snapshot \<rparr>,
       mx_ring = replicate (nat kRingHistory)
         \<lparr> sl_timestamp = 0, sl_workers = replicate (nat kMaxWorkers) zero_snapshot, sl_total = zero_snapshot \<rparr>,
       mx_start = start, alert_rules = default_rules,
       alert_states = map (\<lambda>r. \<lparr> as_name = ar_name r, as_firing = False \<rparr>) default_rules \<rparr>"

definition SetWorkerCount :: "int \<Rightarrow> MetricsCollector \<Rightarrow> MetricsCollector" where
  "SetWorkerCount n m = m\<lparr> mx_num_workers := n \<rparr>"

definition WorkerCount :: "MetricsCollector \<Rightarrow> int" where
  "WorkerCount m = mx_num_workers m"

definition SetAlertRules :: "AlertRule list \<Rightarrow> MetricsCollector \<Rightarrow> MetricsCollector" where
  "SetAlertRules rules m = m\<lparr> alert_rules := rules \<rparr>"

section \<open>Percentiles\<close>

definition lower_bound :: "u64 list" where
  "lower_bound = [0, 64, 128, 256, 512, 1000, 2000, 4000, 8000, 16000]"

definition targets :: "nat list" where "targets = [50, 90, 99]"

definition threshold :: "nat \<Rightarrow> u64 \<Rightarrow> rat" where
  "threshold target tot = binary64 (binary64 (double_of (int target) / 100) * double_of (uint tot))"

definition bucket_range :: "nat \<Rightarrow> u64" where
  "bucket_range i = (if i = kLatencyBuckets - 1 then kBucketMax ! (kLatencyBuckets - 2) else kBucketMax ! i - lower_bound ! i)"

text \<open>\<open>interpolate\<close> is the value stored for a target reached in bucket \<open>i\<close>.\<close>

definition interpolate :: "nat \<Rightarrow> u64 \<Rightarrow> u64 \<Rightarrow> rat \<Rightarrow> u64" where
  "interpolate i prev_cum cum thr =
     (let frac = (if cum \<noteq> prev_cum
                  then binary64 (binary64 (thr - double_of (uint prev_cum)) / double_of (uint (cum - prev_cum)))
                  else 0)
      in lower_bound ! i + of_int (trunc_double (binary64 (frac * double_of (uint (bucket_range i))))))"

fun reach_loop :: "nat \<Rightarrow> u64 \<Rightarrow> u64 \<Rightarrow> u64 \<Rightarrow> nat list \<Rightarrow> u64 list \<Rightarrow> nat list \<times> u64 list" where
  "reach_loop i prev_cum cum tot [] results = ([], results)"
| "reach_loop i prev_cum cum tot (t # ts) results =
     (if threshold t tot \<le> double_of (uint cum)
      then reach_loop i prev_cum cum tot ts (results @ [interpolate i prev_cum cum (threshold t tot)])
      else (t # ts, results))"

fun bucket_loop :: "u64 list \<Rightarrow> nat \<Rightarrow> u64 \<Rightarrow> u64 \<Rightarrow> nat list \<Rightarrow> u64 list \<Rightarrow> nat list \<times> u64 list" where
  "bucket_loop [] i cum tot ts results = (ts, results)"
| "bucket_loop (b # bs) i cum tot ts results =
     (if ts = [] then ([], results)
      else if b = 0 then bucket_loop bs (Suc i) cum tot ts results
      else case reach_loop i cum (cum + b) tot ts results of
             (ts', results') \<Rightarrow> bucket_loop bs (Suc i) (cum + b) tot ts' results')"

definition ComputePercentiles :: "u64 list \<Rightarrow> LatencyPercentiles" where
  "ComputePercentiles buckets =
     (let tot = sum_list buckets
      in if tot = 0 then \<lparr> p50 = 0, p90 = 0, p99 = 0 \<rparr>
         else case bucket_loop buckets 0 0 tot targets [] of
                (ts, results) \<Rightarrow>
                  let all = results @ replicate (length ts) 16000
                  in \<lparr> p50 = all ! 0, p90 = all ! 1, p99 = all ! 2 \<rparr>)"

section \<open>The hot path\<close>

definition bad_worker :: "int \<Rightarrow> bool" where
  "bad_worker wid \<longleftrightarrow> wid < 0 \<or> kMaxWorkers \<le> wid"

definition update_worker :: "int \<Rightarrow> (WorkerMetrics \<Rightarrow> WorkerMetrics) \<Rightarrow> MetricsCollector \<Rightarrow> MetricsCollector" where
  "update_worker wid f m = m\<lparr> mx_workers := (mx_workers m)[nat wid := f (mx_workers m ! nat wid)] \<rparr>"

definition latency_bucket :: "u64 \<Rightarrow> nat" where
  "latency_bucket latency_us =
     (case List.find (\<lambda>i. latency_us < kBucketMax ! i) [0..<kLatencyBuckets - 1] of
        Some i \<Rightarrow> i
      | None \<Rightarrow> kLatencyBuckets - 1)"

definition count_request :: "u64 \<Rightarrow> int \<Rightarrow> u64 \<Rightarrow> bool \<Rightarrow> MetricsSnapshot \<Rightarrow> MetricsSnapshot" where
  "count_request latency_us status_code bytes is_h2 w =
     (let w = w\<lparr> request_count := request_count w + 1 \<rparr>;
          w = (if is_h2 then w\<lparr> request_h2 := request_h2 w + 1 \<rparr> else w\<lparr> request_h1 := request_h1 w + 1 \<rparr>);
          w = (if status_code < 200 \<or> 300 \<le> status_code
               then let w = w\<lparr> error_count := error_count w + 1 \<rparr>
                    in if is_h2 then w\<lparr> error_h2 := error_h2 w + 1 \<rparr> else w\<lparr> error_h1 := error_h1 w + 1 \<rparr>
               else w);
          w = w\<lparr> bytes_sent := bytes_sent w + bytes \<rparr>;
          b = latency_bucket latency_us
      in w\<lparr> latency_buckets := (latency_buckets w)[b := latency_buckets w ! b + 1] \<rparr>)"

definition OnRequest :: "u64 \<Rightarrow> int \<Rightarrow> u64 \<Rightarrow> int \<Rightarrow> bool \<Rightarrow> MetricsCollector \<Rightarrow> MetricsCollector" where
  "OnRequest latency_us status_code bytes wid is_h2 m =
     (if bad_worker wid then m
      else update_worker wid (\<lambda>w. w\<lparr> wm_counts := count_request latency_us status_code bytes is_h2 (wm_counts w) \<rparr>) m)"

definition OnConnectionOpen :: "int \<Rightarrow> MetricsCollector \<Rightarrow> MetricsCollector" where
  "OnConnectionOpen wid m =
     (if bad_worker wid then m
      else update_worker wid (\<lambda>w. w\<lparr> active_connections := active_connections w + 1 \<rparr>) m)"

definition OnConnectionClose :: "int \<Rightarrow> MetricsCollector \<Rightarrow> MetricsCollector" where
  "OnConnectionClose wid m =
     (if bad_worker wid then m
      else update_worker wid (\<lambda>w. w\<lparr> active_connections := active_connections w - 1 \<rparr>) m)"

section \<open>Alerts\<close>

definition add_buckets :: "u64 list \<Rightarrow> u64 list \<Rightarrow> u64 list" where
  "add_buckets xs ys = map2 (+) xs ys"

text \<open>
  The remainder of a negative time is negative in the source, and indexing the ring with it is
  undefined: \<open>None\<close>.
\<close>

definition ring_index :: "int \<Rightarrow> nat option" where
  "ring_index t = (if 0 \<le> t then Some (nat (t mod kRingHistory))
                   else if (- t) mod kRingHistory = 0 then Some 0 else None)"

text \<open>One step of the loop over the window, on the sums of requests, errors and latency buckets.\<close>

definition window_step ::
  "AlertRule \<Rightarrow> int \<Rightarrow> RingSlot list \<Rightarrow> int \<Rightarrow> (u64 \<times> u64 \<times> u64 list) option \<Rightarrow> (u64 \<times> u64 \<times> u64 list) option" where
  "window_step rule now_ts ring s acc =
     (case (acc, ring_index (now_ts - s)) of
        (Some (reqs, errs, bs), Some idx) \<Rightarrow>
          let slot = ring ! idx
          in if sl_timestamp slot = 0 then Some (reqs, errs, bs)
             else if ar_window_secs rule < now_ts - sl_timestamp slot then Some (reqs, errs, bs)
             else Some (reqs + request_count (sl_total slot), errs + error_count (sl_total slot),
                        add_buckets bs (latency_buckets (sl_total slot)))
      | _ \<Rightarrow> None)"

definition window_sums :: "AlertRule \<Rightarrow> int \<Rightarrow> RingSlot list \<Rightarrow> (u64 \<times> u64 \<times> u64 list) option" where
  "window_sums rule now_ts ring =
     fold (window_step rule now_ts ring) (map int [0..<nat (min (ar_window_secs rule) kRingHistory)])
       (Some (0, 0, replicate kLatencyBuckets 0))"

definition rule_breached :: "AlertRule \<Rightarrow> u64 \<times> u64 \<times> u64 list \<Rightarrow> bool" where
  "rule_breached rule = (\<lambda>(sum_requests, sum_errors, sum_p99_buckets).
     case ar_metric rule of
       ErrorRate \<Rightarrow>
         ar_threshold rule <
           (if 0 < sum_requests
            then binary64 (binary64 (100 * double_of (uint sum_errors)) / double_of (uint sum_requests)) else 0)
     | P99Latency \<Rightarrow> ar_threshold rule < double_of (uint (p99 (ComputePercentiles sum_p99_buckets)))
     | QPS \<Rightarrow>
         0 < ar_threshold rule \<and>
         (if 0 < ar_window_secs rule then binary64 (double_of (uint sum_requests) / of_int (ar_window_secs rule)) else 0)
           < ar_threshold rule)"

text \<open>Rules and states are indexed alike; a rule without a state is an access out of bounds.\<close>

fun alert_loop :: "int \<Rightarrow> RingSlot list \<Rightarrow> AlertRule list \<Rightarrow> AlertState list \<Rightarrow> AlertState list option" where
  "alert_loop now_ts ring [] states = Some states"
| "alert_loop now_ts ring (rule # rules) [] = None"
| "alert_loop now_ts ring (rule # rules) (state # states) =
     (case window_sums rule now_ts ring of
        None \<Rightarrow> None
      | Some acc \<Rightarrow> map_option (Cons (state\<lparr> as_firing := rule_breached rule acc \<rparr>))
                        (alert_loop now_ts ring rules states))"

definition EvaluateAlerts :: "int \<Rightarrow> MetricsCollector \<Rightarrow> MetricsCollector option" where
  "EvaluateAlerts now_ts m =
     map_option (\<lambda>states. m\<lparr> alert_states := states \<rparr>)
       (alert_loop now_ts (mx_ring m) (alert_rules m) (alert_states m))"

section \<open>Flushing a worker\<close>

definition add_snapshot :: "MetricsSnapshot \<Rightarrow> MetricsSnapshot \<Rightarrow> MetricsSnapshot" where
  "add_snapshot t ws =
     \<lparr> request_count = request_count t + request_count ws,
       request_h1 = request_h1 t + request_h1 ws, request_h2 = request_h2 t + request_h2 ws,
       error_count = error_count t + error_count ws,
       error_h1 = error_h1 t + error_h1 ws, error_h2 = error_h2 t + error_h2 ws,
       bytes_sent = bytes_sent t + bytes_sent ws,
       latency_buckets = add_buckets (latency_buckets t) (latency_buckets ws) \<rparr>"

definition snapshot_total :: "MetricsSnapshot list \<Rightarrow> MetricsSnapshot" where
  "snapshot_total wss = foldl add_snapshot zero_snapshot wss"

definition flush_slot :: "int \<Rightarrow> int \<Rightarrow> MetricsSnapshot \<Rightarrow> RingSlot \<Rightarrow> RingSlot" where
  "flush_slot secs wid snap slot =
     (let ws = (sl_workers slot)[nat wid := snap]
      in \<lparr> sl_timestamp = secs, sl_workers = ws, sl_total = snapshot_total ws \<rparr>)"

definition Flush :: "int \<Rightarrow> int \<Rightarrow> MetricsCollector \<Rightarrow> MetricsCollector option" where
  "Flush secs wid m =
     (if bad_worker wid then Some m
      else
        let snap = wm_counts (mx_workers m ! nat wid);
            m1 = update_worker wid (\<lambda>w. w\<lparr> wm_counts := zero_snapshot \<rparr>) m
        in case ring_index secs of
             None \<Rightarrow> None
           | Some slot \<Rightarrow>
               let m2 = m1\<lparr> mx_ring := (mx_ring m1)[slot := flush_slot secs wid snap (mx_ring m1 ! slot)] \<rparr>
               in if wid = 0 then EvaluateAlerts secs m2 else Some m2)"

definition ActiveConnections :: "MetricsCollector \<Rightarrow> u64" where
  "ActiveConnections m = sum_list (map active_connections (mx_workers m))"

section \<open>Pages\<close>

definition int_text :: "int \<Rightarrow> string" where
  "int_text i = (if i < 0 then ''-'' else []) @ uint_text (nat (abs i))"

definition u64_text :: "u64 \<Rightarrow> string" where
  "u64_text w = uint_text (unat w)"

text \<open>\<^verbatim>\<open>printf\<close> with \<^verbatim>\<open>%.<k>f\<close>: the value to \<open>k\<close> decimals, ties to even; \<^verbatim>\<open>std::to_string\<close> has \<open>k = 6\<close>.\<close>

definition fixed_text :: "nat \<Rightarrow> rat \<Rightarrow> string" where
  "fixed_text k x =
     (let n = nat (round_half_even (abs x * 10 ^ k)); f = uint_text (n mod 10 ^ k)
      in (if x < 0 then ''-'' else []) @ uint_text (n div 10 ^ k) @ ''.'' @ replicate (k - length f) (CHR ''0'') @ f)"

definition quoted :: "string \<Rightarrow> string" where
  "quoted s = [CHR 0x22] @ s @ [CHR 0x22]"

definition ToJson :: "rat \<Rightarrow> AlertState \<Rightarrow> string" where
  "ToJson current_value a =
     ''{'' @ quoted ''name'' @ '':'' @ quoted (as_name a) @ '','' @ quoted ''state'' @ '':''
     @ quoted (if as_firing a then ''firing'' else ''ok'') @ '','' @ quoted ''value'' @ '':''
     @ fixed_text 6 current_value @ ''}''"

text \<open>The fields that the full page and the event stream print alike.\<close>

definition entry_text :: "int \<Rightarrow> MetricsSnapshot \<Rightarrow> LatencyPercentiles \<Rightarrow> u64 \<Rightarrow> string" where
  "entry_text ts s per act =
     ''{'' @ quoted ''t'' @ '':'' @ int_text ts
     @ '','' @ quoted ''qps'' @ '':'' @ u64_text (request_count s)
     @ '','' @ quoted ''qps_h1'' @ '':'' @ u64_text (request_h1 s)
     @ '','' @ quoted ''qps_h2'' @ '':'' @ u64_text (request_h2 s)
     @ '','' @ quoted ''err'' @ '':'' @ u64_text (error_count s)
     @ '','' @ quoted ''err_h1'' @ '':'' @ u64_text (error_h1 s)
     @ '','' @ quoted ''err_h2'' @ '':'' @ u64_text (error_h2 s)
     @ '','' @ quoted ''bytes'' @ '':'' @ u64_text (bytes_sent s)
     @ '','' @ quoted ''p50'' @ '':'' @ u64_text (p50 per)
     @ '','' @ quoted ''p90'' @ '':'' @ u64_text (p90 per)
     @ '','' @ quoted ''p99'' @ '':'' @ u64_text (p99 per)
     @ '','' @ quoted ''act'' @ '':'' @ u64_text act @ ''}''"

definition AppendJsonEntry :: "int \<Rightarrow> MetricsSnapshot \<Rightarrow> LatencyPercentiles \<Rightarrow> u64 \<Rightarrow> bool \<Rightarrow> string \<Rightarrow> string" where
  "AppendJsonEntry ts s per act first json =
     json @ (if first then [] else '','' @ [CHR 0x0A]) @ ''    '' @ entry_text ts s per act"

primrec history_loop :: "RingSlot list \<Rightarrow> u64 \<Rightarrow> nat \<Rightarrow> string \<Rightarrow> string" where
  "history_loop [] act n json = json"
| "history_loop (slot # slots) act n json =
     (if sl_timestamp slot = 0 then history_loop slots act n json
      else if request_count (sl_total slot) = 0 \<and> error_count (sl_total slot) = 0
      then history_loop slots act n json
      else history_loop slots act (Suc n)
             (AppendJsonEntry (sl_timestamp slot) (sl_total slot) (ComputePercentiles (latency_buckets (sl_total slot)))
               act (n = 0) json))"

primrec alerts_loop :: "AlertState list \<Rightarrow> nat \<Rightarrow> string \<Rightarrow> string" where
  "alerts_loop [] i json = json"
| "alerts_loop (a # as) i json =
     alerts_loop as (Suc i) (json @ (if 0 < i then '','' @ [CHR 0x0A] else []) @ ''    '' @ ToJson 0 a)"

text \<open>\<open>now_ns\<close> is the steady clock; the ring is read from the slot after the current one.\<close>

definition RenderMetricsJson :: "int \<Rightarrow> MetricsCollector \<Rightarrow> string" where
  "RenderMetricsJson now_ns m =
     (let uptime = (now_ns - mx_start m) div 1000000000;
          current_slot = nat ((now_ns div 1000000000) mod kRingHistory);
          json = ''{'' @ [CHR 0x0A] @ ''  '' @ quoted ''active_connections'' @ '': '' @ u64_text (ActiveConnections m)
                 @ '','' @ [CHR 0x0A] @ ''  '' @ quoted ''uptime_seconds'' @ '': '' @ int_text uptime
                 @ '','' @ [CHR 0x0A] @ ''  '' @ quoted ''alerts'' @ '': ['' @ [CHR 0x0A];
          json = alerts_loop (alert_states m) 0 json;
          json = json @ [CHR 0x0A] @ ''  ],'' @ [CHR 0x0A];
          json = json @ ''  '' @ quoted ''history'' @ '': ['' @ [CHR 0x0A];
          slots = map (\<lambda>i. mx_ring m ! ((current_slot + 1 + i) mod nat kRingHistory)) [0..<nat kRingHistory];
          json = history_loop slots (ActiveConnections m) 0 json
      in json @ [CHR 0x0A] @ ''  ]'' @ [CHR 0x0A] @ ''}'' @ [CHR 0x0A])"

primrec last_flush_loop :: "RingSlot list \<Rightarrow> int \<Rightarrow> int" where
  "last_flush_loop [] best = best"
| "last_flush_loop (slot # slots) best =
     last_flush_loop slots (if best < sl_timestamp slot then sl_timestamp slot else best)"

definition LastFlushTimestamp :: "MetricsCollector \<Rightarrow> int" where
  "LastFlushTimestamp m = last_flush_loop (mx_ring m) 0"

text \<open>The best slot is \<open>None\<close> for the index \<open>-1\<close> of the source.\<close>

primrec best_slot_loop :: "RingSlot list \<Rightarrow> RingSlot option \<times> int \<Rightarrow> RingSlot option \<times> int" where
  "best_slot_loop [] best = best"
| "best_slot_loop (slot # slots) best =
     best_slot_loop slots (if snd best < sl_timestamp slot then (Some slot, sl_timestamp slot) else best)"

definition RenderLatestSnapshot :: "int \<Rightarrow> MetricsCollector \<Rightarrow> string" where
  "RenderLatestSnapshot since_ts m =
     (case best_slot_loop (mx_ring m) (None, -1) of
        (None, best_ts) \<Rightarrow> []
      | (Some s, best_ts) \<Rightarrow>
          if best_ts \<le> since_ts then []
          else entry_text (sl_timestamp s) (sl_total s) (ComputePercentiles (latency_buckets (sl_total s)))
                 (ActiveConnections m))"

fun alert_delta_loop :: "AlertState list \<Rightarrow> AlertState list \<Rightarrow> string \<Rightarrow> string" where
  "alert_delta_loop [] prev out = out"
| "alert_delta_loop (a # as) prev out =
     (let changed = (case prev of [] \<Rightarrow> True | p # _ \<Rightarrow> as_firing a \<noteq> as_firing p);
          out1 = (if \<not> changed then out
                  else out @ (if out = [] then [] else [CHR 0x0A]) @ ''event: alert'' @ [CHR 0x0A] @ ''data: ''
                       @ ToJson 0 a @ [CHR 0x0A])
      in alert_delta_loop as (drop 1 prev) out1)"

definition RenderAlertDelta :: "AlertState list \<Rightarrow> MetricsCollector \<Rightarrow> string" where
  "RenderAlertDelta prev m = alert_delta_loop (alert_states m) prev []"

section \<open>The event stream\<close>

definition no_metrics_event :: string where
  "no_metrics_event = ''data: {'' @ quoted ''error'' @ '':'' @ quoted ''no metrics'' @ ''}'' @ [CHR 0x0A, CHR 0x0A]"

definition SseInitialPayload :: "MetricsCollector option \<Rightarrow> string" where
  "SseInitialPayload metrics =
     (case metrics of
        None \<Rightarrow> no_metrics_event
      | Some m \<Rightarrow> ''data: {'' @ quoted ''status'' @ '':'' @ quoted ''connected'' @ '','' @ quoted ''workers'' @ '':''
                  @ int_text (WorkerCount m) @ ''}'' @ [CHR 0x0A, CHR 0x0A])"

text \<open>\<open>clock\<close> is the count of ticks of the system clock.\<close>

definition BuildPayload :: "int \<Rightarrow> MetricsCollector option \<Rightarrow> string" where
  "BuildPayload clock metrics =
     (case metrics of
        None \<Rightarrow> no_metrics_event
      | Some m \<Rightarrow> ''data: {'' @ quoted ''timestamp'' @ '':'' @ int_text clock @ '','' @ quoted ''workers'' @ '':''
                  @ int_text (WorkerCount m) @ ''}'' @ [CHR 0x0A, CHR 0x0A])"

section \<open>Percentiles against a reference\<close>

text \<open>
  The reference looks for one target alone: the first non-empty bucket at which the cumulated
  count reaches the threshold.
\<close>

fun search_bucket :: "u64 list \<Rightarrow> nat \<Rightarrow> u64 \<Rightarrow> rat \<Rightarrow> u64" where
  "search_bucket [] i cum thr = 16000"
| "search_bucket (b # bs) i cum thr =
     (if b \<noteq> 0 \<and> thr \<le> double_of (uint (cum + b)) then interpolate i cum (cum + b) thr
      else search_bucket bs (Suc i) (cum + b) thr)"

definition percentile :: "u64 list \<Rightarrow> nat \<Rightarrow> u64" where
  "percentile buckets target = search_bucket buckets 0 0 (threshold target (sum_list buckets))"

lemma double_of_nonneg: "0 \<le> n \<Longrightarrow> 0 \<le> double_of n"
  using double_of_mono [of 0 n] by (simp add: double_of_exact)

lemma threshold_mono:
  assumes "s \<le> t"
  shows "threshold s tot \<le> threshold t tot"
proof -
  have "double_of (int s) / 100 \<le> double_of (int t) / 100"
    using double_of_mono [of "int s" "int t"] assms by (intro divide_right_mono) simp_all
  then have f: "binary64 (double_of (int s) / 100) \<le> binary64 (double_of (int t) / 100)"
    by (rule binary64_mono)
  show ?thesis
    unfolding threshold_def by (rule binary64_mono, rule mult_right_mono [OF f], rule double_of_nonneg) simp
qed

lemma reach_loop_split:
  "reach_loop i prev_cum cum tot ts results =
     (dropWhile (\<lambda>t. threshold t tot \<le> double_of (uint cum)) ts,
      results @ map (\<lambda>t. interpolate i prev_cum cum (threshold t tot))
        (takeWhile (\<lambda>t. threshold t tot \<le> double_of (uint cum)) ts))"
  by (induction ts arbitrary: results) auto

lemma bucket_loop_search:
  "sorted ts \<Longrightarrow> bucket_loop bs i cum tot ts results = (ts', results') \<Longrightarrow>
     results' @ replicate (length ts') 16000 = results @ map (\<lambda>t. search_bucket bs i cum (threshold t tot)) ts"
proof (induction bs arbitrary: i cum ts results)
  case Nil
  then show ?case
    by (simp add: map_replicate_const)
next
  case (Cons b bs)
  show ?case
  proof (cases "ts = [] \<or> b = 0")
    case True
    with Cons show ?thesis
      by (auto split: if_splits)
  next
    case False
    let ?hit = "\<lambda>t. threshold t tot \<le> double_of (uint (cum + b))"
    let ?now = "takeWhile ?hit ts" and ?later = "dropWhile ?hit ts"
    have "sorted ?later"
      using Cons.prems(1) by (metis sorted_append takeWhile_dropWhile_id)
    moreover have "bucket_loop bs (Suc i) (cum + b) tot ?later
        (results @ map (\<lambda>t. interpolate i cum (cum + b) (threshold t tot)) ?now) = (ts', results')"
      using Cons.prems(2) False by (simp add: reach_loop_split)
    ultimately have rest: "results' @ replicate (length ts') 16000 =
        results @ map (\<lambda>t. interpolate i cum (cum + b) (threshold t tot)) ?now
          @ map (\<lambda>t. search_bucket bs (Suc i) (cum + b) (threshold t tot)) ?later"
      using Cons.IH by fastforce
    have later: "\<not> ?hit t" if "t \<in> set ?later" for t
    proof -
      obtain u us where us: "?later = u # us"
        using \<open>t \<in> set ?later\<close> by (cases ?later) auto
      then have "\<not> ?hit u"
        using hd_dropWhile [of ?hit ts] by simp
      moreover have "u \<le> t"
        using \<open>sorted ?later\<close> us that by auto
      ultimately show ?thesis
        using threshold_mono [of u t tot] by linarith
    qed
    have "map (\<lambda>t. search_bucket (b # bs) i cum (threshold t tot)) ts =
        map (\<lambda>t. search_bucket (b # bs) i cum (threshold t tot)) ?now
          @ map (\<lambda>t. search_bucket (b # bs) i cum (threshold t tot)) ?later"
      by (metis map_append takeWhile_dropWhile_id)
    also have "\<dots> = map (\<lambda>t. interpolate i cum (cum + b) (threshold t tot)) ?now
          @ map (\<lambda>t. search_bucket bs (Suc i) (cum + b) (threshold t tot)) ?later"
    proof (rule arg_cong2 [where f = append]; rule map_cong [OF refl])
      show "search_bucket (b # bs) i cum (threshold t tot) = interpolate i cum (cum + b) (threshold t tot)"
        if "t \<in> set ?now" for t
        using set_takeWhileD [OF that] False by simp
      show "search_bucket (b # bs) i cum (threshold t tot) = search_bucket bs (Suc i) (cum + b) (threshold t tot)"
        if "t \<in> set ?later" for t
        using later [OF that] by simp
    qed
    finally show ?thesis
      using rest by simp
  qed
qed

lemma percentiles_reference:
  "ComputePercentiles buckets =
     (if sum_list buckets = 0 then \<lparr> p50 = 0, p90 = 0, p99 = 0 \<rparr>
      else \<lparr> p50 = percentile buckets 50, p90 = percentile buckets 90, p99 = percentile buckets 99 \<rparr>)"
proof -
  obtain ts results where l: "bucket_loop buckets 0 0 (sum_list buckets) targets [] = (ts, results)"
    by (cases "bucket_loop buckets 0 0 (sum_list buckets) targets []")
  have "results @ replicate (length ts) 16000 =
      [percentile buckets 50, percentile buckets 90, percentile buckets 99]"
    using bucket_loop_search [OF _ l, unfolded targets_def] by (simp add: percentile_def del: search_bucket.simps)
  with l show ?thesis
    by (simp add: ComputePercentiles_def Let_def)
qed

text \<open>C27. The single pass over the histogram computes the three percentiles of the reference: for each
  target alone, the interpolation in the first bucket where the cumulated count reaches it.\<close>

theorem percentiles_single_pass:
  "ComputePercentiles buckets =
     (if sum_list buckets = 0 then \<lparr> p50 = 0, p90 = 0, p99 = 0 \<rparr>
      else \<lparr> p50 = percentile buckets 50, p90 = percentile buckets 90, p99 = percentile buckets 99 \<rparr>)"
  by (fact percentiles_reference)

section \<open>Percentiles are ordered\<close>

abbreviation lower_int :: "nat \<Rightarrow> int" where "lower_int i \<equiv> uint (lower_bound ! i)"
abbreviation range_int :: "nat \<Rightarrow> int" where "range_int i \<equiv> uint (bucket_range i)"

lemma bucket_edges:
  "i < 10 \<Longrightarrow> lower_int i \<le> 16000 \<and> range_int i \<le> 16000"
  "i < 9 \<Longrightarrow> lower_int i + range_int i = lower_int (Suc i)"
proof -
  have "list_all (\<lambda>i. lower_int i \<le> 16000 \<and> range_int i \<le> 16000) [0..<10]"
    by code_simp
  then show "i < 10 \<Longrightarrow> lower_int i \<le> 16000 \<and> range_int i \<le> 16000"
    unfolding list_all_iff by simp
  have "list_all (\<lambda>i. lower_int i + range_int i = lower_int (Suc i)) [0..<9]"
    by code_simp
  then show "i < 9 \<Longrightarrow> lower_int i + range_int i = lower_int (Suc i)"
    unfolding list_all_iff by simp
qed

definition share :: "u64 \<Rightarrow> u64 \<Rightarrow> rat \<Rightarrow> rat" where
  "share prev cum thr =
     binary64 (binary64 (thr - double_of (uint prev)) / double_of (uint (cum - prev)))"

lemma share_props:
  assumes "prev < cum" and "uint cum < 2 ^ 53" and "double_of (uint prev) \<le> thr" and "thr \<le> double_of (uint cum)"
  shows "0 \<le> share prev cum thr" and "share prev cum thr \<le> 1"
proof -
  have le: "uint prev < uint cum"
    using assms(1) by (simp add: word_less_alt)
  then have diff: "uint (cum - prev) = uint cum - uint prev"
    by (simp add: uint_sub_lem [THEN iffD1])
  have exact: "double_of (uint prev) = of_int (uint prev)" "double_of (uint cum) = of_int (uint cum)"
    "double_of (uint (cum - prev)) = of_int (uint cum - uint prev)"
    using le assms(2) uint_ge_0 [of prev] uint_ge_0 [of cum] unfolding diff by (intro double_of_exact; linarith)+
  have "binary64 (thr - double_of (uint prev)) \<le> of_int (uint cum - uint prev)"
  proof (rule b64.rnd_le_int)
    show "uint cum - uint prev \<le> 2 ^ 53"
      using assms(2) uint_ge_0 [of prev] by linarith
  qed (use assms(4) le in \<open>simp_all add: exact\<close>)
  moreover have "0 \<le> binary64 (thr - double_of (uint prev))"
    using assms(3) by (intro b64.rnd_nonneg) simp
  ultimately show "0 \<le> share prev cum thr" and "share prev cum thr \<le> 1"
    unfolding share_def exact(3) by (simp_all add: b64.rnd_fraction del: of_int_diff)
qed

lemma share_thr_mono: "s \<le> t \<Longrightarrow> share prev cum s \<le> share prev cum t"
  unfolding share_def
  by (intro binary64_mono divide_right_mono double_of_nonneg diff_right_mono) simp_all

lemma uint_plus_small:
  fixes x :: u64
  assumes "0 \<le> k" and "uint x + k < 2 ^ 64"
  shows "uint (x + of_int k) = uint x + k"
proof -
  have "x + of_int k = word_of_int (uint x + k)"
    by simp
  moreover have "uint (word_of_int (uint x + k) :: u64) = uint x + k"
    using assms uint_ge_0 [of x] by (subst uint_word_of_int_eq) (intro take_bit_int_eq_self; simp)
  ultimately show ?thesis
    by (simp only:)
qed

lemma interpolate_value:
  assumes "i < 10" and "prev < cum" and "0 \<le> share prev cum thr" and "share prev cum thr \<le> 1"
  shows "uint (interpolate i prev cum thr) =
    lower_int i + \<lfloor>binary64 (share prev cum thr * of_int (range_int i))\<rfloor>"
    and "lower_int i \<le> uint (interpolate i prev cum thr)"
    and "uint (interpolate i prev cum thr) \<le> lower_int i + range_int i"
proof -
  let ?k = "\<lfloor>binary64 (share prev cum thr * of_int (range_int i))\<rfloor>"
  note edges = bucket_edges(1) [OF assms(1)]
  have k: "0 \<le> ?k" "?k \<le> range_int i"
    using b64.share_bounds [OF assms(3,4), of "range_int i"] edges by simp_all
  have "interpolate i prev cum thr = lower_bound ! i + of_int ?k"
    using assms(2) edges by (auto simp: interpolate_def share_def trunc_double_def double_of_exact)
  also have "uint \<dots> = lower_int i + ?k"
    using k edges by (intro uint_plus_small) simp_all
  finally show "uint (interpolate i prev cum thr) = lower_int i + ?k" .
  with k show "lower_int i \<le> uint (interpolate i prev cum thr)"
    and "uint (interpolate i prev cum thr) \<le> lower_int i + range_int i"
    by simp_all
qed


lemma search_lower:
  assumes "length bs + i = 10" and "uint cum + sum_list (map uint bs) < 2 ^ 53" and "double_of (uint cum) \<le> thr"
  shows "lower_int (min i 9) \<le> uint (search_bucket bs i cum thr)"
  using assms
proof (induction bs arbitrary: i cum)
  case Nil
  then show ?case
    using bucket_edges(1) [of 9] by simp
next
  case (Cons b bs)
  have nonneg: "0 \<le> sum_list (map uint bs)"
    by (intro sum_list_nonneg) auto
  have cum: "uint (cum + b) = uint cum + uint b"
    using Cons.prems(2) nonneg uint_plus_small [of "uint b" cum] by simp
  have i: "i < 10"
    using Cons.prems(1) by simp
  show ?case
  proof (cases "b \<noteq> 0 \<and> thr \<le> double_of (uint (cum + b))")
    case True
    then have "0 < uint b"
      by (simp add: word_neq_0_conv word_less_alt)
    then have "cum < cum + b"
      using cum by (simp add: word_less_alt)
    moreover have "uint (cum + b) < 2 ^ 53"
      using Cons.prems(2) nonneg cum by simp
    ultimately have "lower_int i \<le> uint (interpolate i cum (cum + b) thr)"
      using share_props [of cum "cum + b" thr] True Cons.prems(3) i by (intro interpolate_value(2)) simp_all
    with True i show ?thesis
      by simp
  next
    case False
    have "double_of (uint (cum + b)) \<le> thr"
      using False Cons.prems(3) by (cases "b = 0") auto
    then have "lower_int (min (Suc i) 9) \<le> uint (search_bucket bs (Suc i) (cum + b) thr)"
      using Cons.prems(1,2) cum by (intro Cons.IH) simp_all
    moreover have "lower_int (min i 9) \<le> lower_int (min (Suc i) 9)"
    proof (cases "i = 9")
      case False
      with i bucket_edges(2) [of i] uint_ge_0 [of "bucket_range i"] have "lower_int i \<le> lower_int (Suc i)"
        by linarith
      with False i show ?thesis
        by simp
    qed simp
    moreover have "search_bucket (b # bs) i cum thr = search_bucket bs (Suc i) (cum + b) thr"
      using False by auto
    ultimately show ?thesis
      by simp
  qed
qed

lemma search_mono:
  assumes "length bs + i = 10" and "uint cum + sum_list (map uint bs) < 2 ^ 53" and "double_of (uint cum) \<le> s"
    and "s \<le> t" and "t \<le> double_of (uint cum + sum_list (map uint bs))" and "\<exists>b \<in> set bs. b \<noteq> 0"
  shows "uint (search_bucket bs i cum s) \<le> uint (search_bucket bs i cum t) \<and> uint (search_bucket bs i cum t) \<le> 32000"
  using assms
proof (induction bs arbitrary: i cum s)
  case (Cons b bs)
  have nonneg: "0 \<le> sum_list (map uint bs)"
    by (intro sum_list_nonneg) auto
  have cum: "uint (cum + b) = uint cum + uint b"
    using Cons.prems(2) nonneg uint_plus_small [of "uint b" cum] by simp
  have i: "i < 10"
    using Cons.prems(1) by simp
  show ?case
  proof (cases "b = 0")
    case True
    then show ?thesis
      using Cons by simp
  next
    case False
    then have "0 < uint b"
      by (simp add: word_neq_0_conv word_less_alt)
    then have less: "cum < cum + b"
      using cum by (simp add: word_less_alt)
    have small: "uint (cum + b) < 2 ^ 53"
      using Cons.prems(2) nonneg cum by simp
    note props = share_props [OF less small]
    note vals = interpolate_value [OF i less]
    have top: "lower_int i + range_int i \<le> 32000"
      using bucket_edges(1) [OF i] by linarith
    have rest: "length bs + Suc i = 10" "uint (cum + b) + sum_list (map uint bs) < 2 ^ 53"
      "t \<le> double_of (uint (cum + b) + sum_list (map uint bs))"
      using Cons.prems(1,2,5) cum by (simp_all add: algebra_simps)
    have more: "\<exists>b \<in> set bs. b \<noteq> 0" if "double_of (uint (cum + b)) < t"
    proof (rule ccontr)
      assume "\<not> (\<exists>b \<in> set bs. b \<noteq> 0)"
      then have "map uint bs = map (\<lambda>_. 0) bs"
        by auto
      then have "sum_list (map uint bs) = 0"
        by (simp add: map_replicate_const sum_list_replicate)
      with that rest(3) show False
        by simp
    qed
    consider (both) "t \<le> double_of (uint (cum + b))"
      | (first) "s \<le> double_of (uint (cum + b))" "double_of (uint (cum + b)) < t"
      | (none) "double_of (uint (cum + b)) < s"
      using Cons.prems(4) by linarith
    then show ?thesis
    proof cases
      case both
      have "double_of (uint cum) \<le> t" "s \<le> double_of (uint (cum + b))"
        using both Cons.prems(3,4) by linarith+
      note s = props [OF Cons.prems(3) this(2)] and t = props [OF this(1) both]
      have "\<lfloor>binary64 (share cum (cum + b) s * of_int (range_int i))\<rfloor>
          \<le> \<lfloor>binary64 (share cum (cum + b) t * of_int (range_int i))\<rfloor>"
        using share_thr_mono [OF Cons.prems(4)] by (intro b64.share_mono) simp_all
      then have "uint (interpolate i cum (cum + b) s) \<le> uint (interpolate i cum (cum + b) t)"
        using vals(1) [OF s] vals(1) [OF t] by linarith
      moreover have "uint (interpolate i cum (cum + b) t) \<le> 32000"
        using vals(3) [OF t] top by linarith
      ultimately show ?thesis
        using False both \<open>s \<le> double_of (uint (cum + b))\<close> by simp
    next
      case first
      have "bs \<noteq> []"
        using first(2) Cons.prems(5) cum by (cases bs) auto
      then have i9: "i < 9"
        using Cons.prems(1) by (cases bs) auto
      have t: "uint (search_bucket bs (Suc i) (cum + b) t) \<le> 32000"
        using Cons.IH [OF rest(1,2), of t] rest(3) more [OF first(2)] first by auto
      have "lower_int (Suc i) \<le> uint (search_bucket bs (Suc i) (cum + b) t)"
        using search_lower [OF rest(1,2), of t] first(2) i9 by simp
      moreover have "uint (interpolate i cum (cum + b) s) \<le> lower_int (Suc i)"
        using vals(3) [OF props [OF Cons.prems(3) first(1)]] bucket_edges(2) [OF i9] by linarith
      ultimately show ?thesis
        using False first t by simp
    next
      case none
      have "double_of (uint (cum + b)) < t"
        using none Cons.prems(4) by linarith
      then show ?thesis
        using Cons.IH [OF rest(1,2), of s] rest(3) more none Cons.prems(4) by auto
    qed
  qed
qed simp


lemma threshold_le_total:
  assumes "t \<le> 100" and "uint tot < 2 ^ 53"
  shows "0 \<le> threshold t tot" and "threshold t tot \<le> double_of (uint tot)"
proof -
  have exact: "double_of (uint tot) = of_int (uint tot)" "double_of (int t) = of_nat t"
    using assms by (simp_all add: double_of_exact)
  have frac: "0 \<le> binary64 (double_of (int t) / 100)" "binary64 (double_of (int t) / 100) \<le> 1"
    using assms(1) b64.rnd_fraction [of "of_nat t" 100] by (simp_all add: exact)
  then show "0 \<le> threshold t tot"
    unfolding threshold_def exact(1) using mult_nonneg_nonneg [of _ "of_int (uint tot) :: rat"]
    by (intro b64.rnd_nonneg) (simp only: of_int_0_le_iff uint_ge_0)
  have "binary64 (double_of (int t) / 100) * of_int (uint tot) \<le> 1 * of_int (uint tot)"
    by (intro mult_right_mono frac) (simp only: of_int_0_le_iff uint_ge_0)
  then show "threshold t tot \<le> double_of (uint tot)"
    unfolding threshold_def exact(1) using assms(2) by (intro b64.rnd_le_int) simp_all
qed

lemma uint_sum_list:
  fixes bs :: "u64 list"
  shows "sum_list (map uint bs) < 2 ^ 64 \<Longrightarrow> uint (sum_list bs) = sum_list (map uint bs)"
proof (induction bs)
  case (Cons b bs)
  have "0 \<le> sum_list (map uint bs)"
    by (intro sum_list_nonneg) auto
  then have "sum_list (map uint bs) < 2 ^ 64"
    using Cons.prems uint_ge_0 [of b] unfolding list.map sum_list.Cons by linarith
  note IH = Cons.IH [OF this]
  have "uint (b + of_int (uint (sum_list bs))) = uint b + uint (sum_list bs)"
    using Cons.prems IH uint_ge_0 [of "sum_list bs"] by (intro uint_plus_small) simp_all
  then show ?case
    unfolding IH [symmetric] list.map sum_list.Cons by simp
qed simp

text \<open>For a histogram of fewer than \<open>2 ^ 53\<close> requests the percentiles that are reported are in order and
  at most 32 ms, in spite of the rounding of every floating-point operation.\<close>

theorem percentiles_ordered:
  assumes "length buckets = 10" and "sum_list (map uint buckets) < 2 ^ 53"
  shows "p50 (ComputePercentiles buckets) \<le> p90 (ComputePercentiles buckets)
    \<and> p90 (ComputePercentiles buckets) \<le> p99 (ComputePercentiles buckets)
    \<and> p99 (ComputePercentiles buckets) \<le> 32000"
proof (cases "sum_list buckets = 0")
  case True
  then show ?thesis
    by (simp add: percentiles_reference)
next
  case False
  let ?tot = "sum_list buckets"
  have tot: "uint ?tot = sum_list (map uint buckets)"
    using assms(2) by (intro uint_sum_list) simp
  have some: "\<exists>b \<in> set buckets. b \<noteq> 0"
  proof (rule ccontr)
    assume "\<not> (\<exists>b \<in> set buckets. b \<noteq> 0)"
    then have "buckets = map (\<lambda>_. 0) buckets"
      by (simp add: map_idI)
    with False show False
      by (metis map_replicate_const mult_zero_right sum_list_replicate)
  qed
  have le: "percentile buckets s \<le> percentile buckets t \<and> percentile buckets t \<le> 32000" if "s \<le> t" "t \<le> 100" for s t
  proof -
    have "s \<le> 100" "uint ?tot < 2 ^ 53"
      using that assms(2) tot by simp_all
    note ts = threshold_le_total(1) [OF this] threshold_le_total(2) [OF that(2) this(2)]
    have "double_of 0 = 0"
      by (simp add: double_of_exact)
    then show ?thesis
      unfolding percentile_def word_le_def
      using search_mono [of buckets 0 0 "threshold s ?tot" "threshold t ?tot"] assms ts threshold_mono [OF that(1)] tot some
      by simp
  qed
  from le [of 50 90] le [of 90 99] False show ?thesis
    by (simp add: percentiles_reference)
qed

theorem percentiles_ordered_witness:
  "p50 (ComputePercentiles [5, 0, 3, 0, 0, 0, 0, 0, 0, 2]) \<le> p90 (ComputePercentiles [5, 0, 3, 0, 0, 0, 0, 0, 0, 2])"
  using percentiles_ordered [of "[5, 0, 3, 0, 0, 0, 0, 0, 0, 2]"] by simp

section \<open>The counters stay consistent\<close>

text \<open>Equations on words: they hold also after a counter has wrapped around.\<close>

definition snapshot_ok :: "MetricsSnapshot \<Rightarrow> bool" where
  "snapshot_ok s \<longleftrightarrow>
     length (latency_buckets s) = kLatencyBuckets \<and> request_count s = request_h1 s + request_h2 s
     \<and> error_count s = error_h1 s + error_h2 s \<and> sum_list (latency_buckets s) = request_count s"

definition slot_ok :: "RingSlot \<Rightarrow> bool" where
  "slot_ok sl \<longleftrightarrow>
     length (sl_workers sl) = nat kMaxWorkers \<and> (\<forall>s \<in> set (sl_workers sl). snapshot_ok s)
     \<and> sl_total sl = snapshot_total (sl_workers sl) \<and> 0 \<le> sl_timestamp sl"

definition metrics_ok :: "MetricsCollector \<Rightarrow> bool" where
  "metrics_ok m \<longleftrightarrow>
     length (mx_workers m) = nat kMaxWorkers \<and> (\<forall>w \<in> set (mx_workers m). snapshot_ok (wm_counts w))
     \<and> length (mx_ring m) = nat kRingHistory \<and> (\<forall>sl \<in> set (mx_ring m). slot_ok sl)
     \<and> alert_rules m = default_rules \<and> length (alert_states m) = length default_rules"

inductive metrics_reach :: "MetricsCollector \<Rightarrow> bool" where
  metrics_start: "metrics_reach (new_metrics_collector n start)"
| metrics_request: "metrics_reach m \<Longrightarrow> metrics_reach (OnRequest us status bytes wid h2 m)"
| metrics_open: "metrics_reach m \<Longrightarrow> metrics_reach (OnConnectionOpen wid m)"
| metrics_close: "metrics_reach m \<Longrightarrow> metrics_reach (OnConnectionClose wid m)"
| metrics_flush: "metrics_reach m \<Longrightarrow> 0 \<le> secs \<Longrightarrow> Flush secs wid m = Some m' \<Longrightarrow> metrics_reach m'"

lemma sum_list_bump: "i < length xs \<Longrightarrow> sum_list (xs[i := xs ! i + 1]) = sum_list xs + (1 :: u64)"
  by (induction xs arbitrary: i) (auto simp: algebra_simps split: nat.split)

lemma sum_add_buckets:
  "length xs = length ys \<Longrightarrow> sum_list (add_buckets xs ys) = sum_list xs + sum_list ys"
  unfolding add_buckets_def by (induction xs ys rule: list_induct2) (simp_all add: algebra_simps)

lemma latency_bucket_less: "latency_bucket us < kLatencyBuckets"
  by (auto simp: latency_bucket_def kLatencyBuckets_def find_Some_iff split: option.split)

lemma zero_snapshot_ok: "snapshot_ok zero_snapshot"
  by (simp add: snapshot_ok_def zero_snapshot_def sum_list_replicate)

lemma count_request_ok: "snapshot_ok s \<Longrightarrow> snapshot_ok (count_request us status bytes h2 s)"
  using latency_bucket_less [of us]
  by (simp add: snapshot_ok_def count_request_def Let_def sum_list_bump)

lemma add_snapshot_ok: "snapshot_ok s \<Longrightarrow> snapshot_ok t \<Longrightarrow> snapshot_ok (add_snapshot s t)"
  by (simp add: snapshot_ok_def add_snapshot_def sum_add_buckets add_buckets_def [of "latency_buckets s"])
    (metis add_buckets_def sum_add_buckets)

lemma snapshot_total_ok: "\<forall>s \<in> set ss. snapshot_ok s \<Longrightarrow> snapshot_ok (snapshot_total ss)"
proof -
  have "snapshot_ok acc \<Longrightarrow> \<forall>s \<in> set ss. snapshot_ok s \<Longrightarrow> snapshot_ok (foldl add_snapshot acc ss)" for acc
    by (induction ss arbitrary: acc) (simp_all add: add_snapshot_ok)
  then show "\<forall>s \<in> set ss. snapshot_ok s \<Longrightarrow> snapshot_ok (snapshot_total ss)"
    by (simp add: snapshot_total_def zero_snapshot_ok)
qed

lemma worker_index: "\<not> bad_worker wid \<Longrightarrow> nat wid < nat kMaxWorkers"
  by (auto simp: bad_worker_def kMaxWorkers_def)

lemma update_worker_ok:
  assumes "metrics_ok m" and "\<not> bad_worker wid" and "\<And>w. snapshot_ok (wm_counts w) \<Longrightarrow> snapshot_ok (wm_counts (f w))"
  shows "metrics_ok (update_worker wid f m)"
proof -
  have "nat wid < length (mx_workers m)"
    using assms(1) worker_index [OF assms(2)] by (simp add: metrics_ok_def)
  then have "mx_workers m ! nat wid \<in> set (mx_workers m)"
    by simp
  with assms(1,3) show ?thesis
    by (auto simp: metrics_ok_def update_worker_def dest!: set_update_subset_insert [THEN subsetD])
qed

lemma new_metrics_ok: "metrics_ok (new_metrics_collector n start)"
proof -
  have "snapshot_total (replicate k zero_snapshot) = zero_snapshot" for k
  proof -
    have "add_snapshot zero_snapshot zero_snapshot = zero_snapshot"
      by (simp add: add_snapshot_def zero_snapshot_def add_buckets_def zip_replicate map_replicate_const)
    then have "foldl add_snapshot zero_snapshot (replicate k zero_snapshot) = zero_snapshot"
      by (induction k) simp_all
    then show ?thesis
      by (simp add: snapshot_total_def)
  qed
  then show ?thesis
    by (simp add: metrics_ok_def new_metrics_collector_def slot_ok_def zero_snapshot_ok)
qed

lemma alert_loop_length:
  "alert_loop now_ts ring rules states = Some states' \<Longrightarrow> length states' = length states"
  by (induction now_ts ring rules states arbitrary: states' rule: alert_loop.induct) (auto split: option.splits)

lemma EvaluateAlerts_ok: "metrics_ok m \<Longrightarrow> EvaluateAlerts now_ts m = Some m' \<Longrightarrow> metrics_ok m'"
  using alert_loop_length by (auto simp: EvaluateAlerts_def metrics_ok_def)

lemma ring_index_less: "ring_index t = Some i \<Longrightarrow> i < nat kRingHistory"
  by (auto simp: ring_index_def kRingHistory_def split: if_splits)

text \<open>What a flush does to the collector before alerts are evaluated.\<close>

definition flushed :: "int \<Rightarrow> int \<Rightarrow> nat \<Rightarrow> MetricsCollector \<Rightarrow> MetricsCollector" where
  "flushed secs wid slot m =
     (update_worker wid (\<lambda>w. w\<lparr> wm_counts := zero_snapshot \<rparr>) m)
       \<lparr> mx_ring := (mx_ring m)[slot := flush_slot secs wid (wm_counts (mx_workers m ! nat wid)) (mx_ring m ! slot)] \<rparr>"

lemma Flush_flushed:
  "\<not> bad_worker wid \<Longrightarrow> ring_index secs = Some slot \<Longrightarrow>
     Flush secs wid m = (if wid = 0 then EvaluateAlerts secs (flushed secs wid slot m) else Some (flushed secs wid slot m))"
  by (simp add: Flush_def flushed_def update_worker_def Let_def)

lemma flushed_ok:
  assumes "metrics_ok m" and "\<not> bad_worker wid" and "ring_index secs = Some slot" and "0 \<le> secs"
  shows "metrics_ok (flushed secs wid slot m)"
proof -
  have "mx_workers m ! nat wid \<in> set (mx_workers m)"
    using assms(1) worker_index [OF assms(2)] by (simp add: metrics_ok_def)
  then have snap: "snapshot_ok (wm_counts (mx_workers m ! nat wid))"
    using assms(1) by (auto simp: metrics_ok_def)
  have "slot_ok (mx_ring m ! slot)"
    using assms(1) ring_index_less [OF assms(3)] by (simp add: metrics_ok_def)
  then have sl: "slot_ok (flush_slot secs wid (wm_counts (mx_workers m ! nat wid)) (mx_ring m ! slot))"
    using snap assms(4) by (auto simp: slot_ok_def flush_slot_def Let_def dest!: set_update_subset_insert [THEN subsetD])
  have "metrics_ok (update_worker wid (\<lambda>w. w\<lparr> wm_counts := zero_snapshot \<rparr>) m)"
    using assms(1,2) zero_snapshot_ok by (intro update_worker_ok) simp_all
  then show ?thesis
    using sl by (auto simp: metrics_ok_def flushed_def update_worker_def dest!: set_update_subset_insert [THEN subsetD])
qed

lemma metrics_reach_ok: "metrics_reach m \<Longrightarrow> metrics_ok m"
proof (induction rule: metrics_reach.induct)
  case (metrics_flush m secs wid m')
  show ?case
  proof (cases "bad_worker wid")
    case True
    with metrics_flush show ?thesis
      by (simp add: Flush_def)
  next
    case False
    obtain slot where "ring_index secs = Some slot"
      using metrics_flush.hyps by (simp add: ring_index_def)
    with metrics_flush False show ?thesis
      by (auto simp: Flush_flushed intro: flushed_ok EvaluateAlerts_ok split: if_splits)
  qed
qed (auto simp: new_metrics_ok OnRequest_def OnConnectionOpen_def OnConnectionClose_def
    intro!: update_worker_ok count_request_ok)




lemma window_fold:
  "\<forall>s \<in> set ss. 0 \<le> now_ts - s \<Longrightarrow> \<exists>acc'. fold (window_step rule now_ts ring) ss (Some acc) = Some acc'"
proof (induction ss arbitrary: acc)
  case (Cons s ss)
  then have "ring_index (now_ts - s) \<noteq> None"
    by (simp add: ring_index_def)
  then have "window_step rule now_ts ring s (Some acc) \<noteq> None"
    by (cases acc) (auto simp: window_step_def Let_def)
  then obtain acc1 where "window_step rule now_ts ring s (Some acc) = Some acc1"
    by (rule not_None_eq [THEN iffD1, THEN exE])
  with Cons show ?case
    by simp
next
  case Nil
  then show ?case
    by (cases acc) simp
qed

lemma alert_loop_total:
  "length rules = length states \<Longrightarrow> \<forall>r \<in> set rules. ar_window_secs r \<le> now_ts + 1 \<Longrightarrow>
     \<exists>states'. alert_loop now_ts ring rules states = Some states'"
proof (induction now_ts ring rules states rule: alert_loop.induct)
  case (3 now_ts ring rule rules state states)
  have "\<exists>acc. window_sums rule now_ts ring = Some acc"
    unfolding window_sums_def using "3.prems"(2) by (intro window_fold) auto
  then obtain acc where acc: "window_sums rule now_ts ring = Some acc"
    by blast
  from 3 acc show ?case
    by auto
qed simp_all

lemma EvaluateAlerts_total:
  assumes "metrics_ok m" and "9 \<le> now_ts"
  obtains states where "EvaluateAlerts now_ts m = Some (m\<lparr> alert_states := states \<rparr>)"
proof -
  have "\<forall>r \<in> set default_rules. ar_window_secs r \<le> now_ts + 1"
    using assms(2) by (simp add: default_rules_def)
  then have "\<exists>states. alert_loop now_ts (mx_ring m) (alert_rules m) (alert_states m) = Some states"
    using assms(1) by (intro alert_loop_total) (auto simp: metrics_ok_def)
  then show ?thesis
    using that by (auto simp: EvaluateAlerts_def)
qed

text \<open>A flush, on a machine that has been up for nine seconds, succeeds and moves the counters of the
  worker into the slot of the current second: the worker counts from zero again, the
  others are as they were, and the slot's total is the sum of its workers.\<close>

theorem flush_moves_counters:
  assumes "metrics_reach m" and "0 \<le> wid" and "wid < 64" and "9 \<le> secs"
  shows "\<exists>m'. Flush secs wid m = Some m'
    \<and> (\<forall>i < 64. wm_counts (mx_workers m' ! i) = (if i = nat wid then zero_snapshot else wm_counts (mx_workers m ! i)))
    \<and> (case mx_ring m' ! nat (secs mod 60) of sl \<Rightarrow>
         sl_timestamp sl = secs \<and> sl_workers sl ! nat wid = wm_counts (mx_workers m ! nat wid)
         \<and> sl_total sl = snapshot_total (sl_workers sl))"
proof -
  let ?slot = "nat (secs mod 60)"
  have ok: "metrics_ok m"
    using metrics_reach_ok [OF assms(1)] .
  have wid: "\<not> bad_worker wid" and slot: "ring_index secs = Some ?slot"
    using assms(2-4) by (simp_all add: bad_worker_def kMaxWorkers_def ring_index_def kRingHistory_def)
  have slot': "?slot < 60"
    by simp
  then have "slot_ok (mx_ring m ! ?slot)"
    using ok by (simp add: metrics_ok_def kRingHistory_def)
  then have workers: "length (sl_workers (mx_ring m ! ?slot)) = 64"
    by (simp add: slot_ok_def kMaxWorkers_def)
  have lens: "length (mx_workers m) = 64" "length (mx_ring m) = 60"
    using ok by (simp_all add: metrics_ok_def kMaxWorkers_def kRingHistory_def)
  let ?m = "flushed secs wid ?slot m"
  have "metrics_ok ?m"
    using assms(4) by (intro flushed_ok [OF ok wid slot]) simp
  then obtain states where "EvaluateAlerts secs ?m = Some (?m\<lparr> alert_states := states \<rparr>)"
    using EvaluateAlerts_total [OF _ assms(4)] by blast
  then obtain m' where "Flush secs wid m = Some m'" "mx_workers m' = mx_workers ?m" "mx_ring m' = mx_ring ?m"
    using Flush_flushed [OF wid slot, of m] by (cases "wid = 0") simp_all
  moreover have "nat wid < 64"
    using assms(2,3) by simp
  ultimately show ?thesis
    using lens workers slot'
    by (intro exI [of _ m']) (simp add: flushed_def update_worker_def flush_slot_def Let_def nth_list_update)
qed

theorem flush_moves_counters_witness:
  "\<exists>m'. Flush 100 0 (OnRequest 70 404 10 0 True (new_metrics_collector 4 0)) = Some m'
     \<and> wm_counts (mx_workers m' ! 0) = zero_snapshot"
proof -
  let ?m = "OnRequest 70 404 10 0 True (new_metrics_collector 4 0)"
  have "metrics_reach ?m"
    by (intro metrics_request metrics_start)
  from flush_moves_counters [OF this, of 0 100] obtain m' where "Flush 100 0 ?m = Some m'"
    "\<forall>i < 64. wm_counts (mx_workers m' ! i) = (if i = nat 0 then zero_snapshot else wm_counts (mx_workers ?m ! i))"
    by fastforce
  then show ?thesis
    by auto
qed

section \<open>Findings\<close>

text \<open>A machine that has been up for less than nine seconds indexes the ring with a negative number.\<close>

lemma early_flush_undefined: "Flush 3 0 (new_metrics_collector 1 0) = None"
  by code_simp

text \<open>
  Worker 1 served one request and flushed it at second 100; the slot's total still counts it
  when worker 2 flushes at second 160.
\<close>

lemma stale_snapshot_counted:
  "map_option (\<lambda>m. request_count (sl_total (mx_ring m ! 40)))
     (Option.bind (Flush 100 1 (OnRequest 70 200 10 1 True (new_metrics_collector 2 0))) (Flush 160 2)) = Some 1"
  by code_simp

text \<open>Two flushes of a worker in one second: the second overwrites the first.\<close>

lemma second_flush_overwrites:
  "map_option (\<lambda>m. request_count (sl_total (mx_ring m ! 40)))
     (Option.bind (Flush 100 1 (OnRequest 70 200 10 1 True (new_metrics_collector 2 0))) (Flush 100 1)) = Some 0"
  by code_simp

end
