(* ===== verification/Logger.thy ===== *)
theory Logger
  imports Metrics "HOL-Library.Multiset"
begin

text \<open>
  The three-layer log (\<^verbatim>\<open>log/logger.hpp\<close>). A writer has a background thread (\<open>Loop\<close>) that moves
  whole chunks of entries from the list of ready chunks to its file; a caller collects its
  entries in a chunk of its own and submits it when it is full or when the background thread
  has begun another round. The state is shared by threads: every step below is one that the
  source takes without releasing the lock, or that only touches the calling thread's own
  variables, and \<open>log_reach\<close> interleaves them. \<open>tls_q\<close> and \<open>tls_epoch\<close> are thread-local and
  static: all writers share them, as in the source.

  Entries have any type, so that a statement may tag them with the thread that wrote them.
\<close>

section \<open>State\<close>

record 'e LogWriter =
  lw_running :: bool
  lw_started :: bool
  lw_file_open :: bool
  flush_epoch :: u64
  last_flushed_epoch :: u64
  lw_free :: nat
  lw_ready :: "'e list list"
  lw_local :: "'e list list"
  lw_file :: "'e list"

record 'e LogThread =
  tls_q :: "'e list option"
  tls_epoch :: u64

datatype category = Gateway_log | Business_log | Perf_log

record 'e LogState =
  ls_writer :: "category \<Rightarrow> 'e LogWriter"
  ls_thread :: "nat \<Rightarrow> 'e LogThread"

definition ChunkMAX :: nat where "ChunkMAX = 4096"

definition new_log_writer :: "'e LogWriter" where
  "new_log_writer = \<lparr> lw_running = False, lw_started = False, lw_file_open = False, flush_epoch = 0, last_flushed_epoch = 0,
     lw_free = 0, lw_ready = [], lw_local = [], lw_file = [] \<rparr>"

definition new_log_state :: "'e LogState" where
  "new_log_state = \<lparr> ls_writer = (\<lambda>_. new_log_writer), ls_thread = (\<lambda>_. \<lparr> tls_q = None, tls_epoch = 0 \<rparr>) \<rparr>"

section \<open>The writer\<close>

text \<open>
  \<open>can_open\<close> is whether the file can be opened. The first start waits until the new thread has
  counted its first epoch; a later one does not wait.
\<close>

definition StartLog :: "bool \<Rightarrow> 'e LogWriter \<Rightarrow> 'e LogWriter" where
  "StartLog can_open w =
     (if lw_running w then w
      else if \<not> can_open then w
      else w\<lparr> lw_file_open := True, lw_running := True, lw_started := True,
                flush_epoch := (if lw_started w then flush_epoch w else flush_epoch w + 1) \<rparr>)"

text \<open>The free list holds empty chunks, so that their number is all there is to it.\<close>

definition GetQueue :: "'e LogThread \<Rightarrow> 'e LogWriter \<Rightarrow> 'e LogThread \<times> 'e LogWriter" where
  "GetQueue t w =
     (case tls_q t of
        Some q \<Rightarrow> (t, w)
      | None \<Rightarrow> (t\<lparr> tls_q := Some [] \<rparr>, if 0 < lw_free w then w\<lparr> lw_free := lw_free w - 1 \<rparr> else w))"

definition SubmitLog :: "'e LogThread \<Rightarrow> 'e LogWriter \<Rightarrow> 'e LogThread \<times> 'e LogWriter" where
  "SubmitLog t w =
     (case tls_q t of
        None \<Rightarrow> (t, w)
      | Some q \<Rightarrow> (t\<lparr> tls_q := None \<rparr>, w\<lparr> lw_ready := lw_ready w @ [q] \<rparr>))"

definition WriteLog :: "bool \<Rightarrow> 'e \<Rightarrow> 'e LogThread \<Rightarrow> 'e LogWriter \<Rightarrow> 'e LogThread \<times> 'e LogWriter" where
  "WriteLog can_open msg t w =
     (let w = (if \<not> lw_running w then StartLog can_open w else w);
          (t, w) = GetQueue t w;
          q = the (tls_q t) @ [msg];
          t = t\<lparr> tls_q := Some q \<rparr>
      in if ChunkMAX \<le> length q \<or> \<not> lw_running w then SubmitLog t w
         else
           let fe = flush_epoch w
           in if fe \<noteq> tls_epoch t
              then let t = t\<lparr> tls_epoch := fe \<rparr> in if q \<noteq> [] then SubmitLog t w else (t, w)
              else (t, w))"

text \<open>
  One round of \<open>Loop\<close>: it counts an epoch, the section under the lock swaps the ready chunks with
  its own, empty list, and the chunks are written and recycled.
\<close>

definition LoopBegin :: "'e LogWriter \<Rightarrow> 'e LogWriter" where
  "LoopBegin w = w\<lparr> flush_epoch := flush_epoch w + 1 \<rparr>"

definition LoopTake :: "'e LogWriter \<Rightarrow> 'e LogWriter" where
  "LoopTake w = w\<lparr> lw_local := lw_ready w, lw_ready := lw_local w \<rparr>"

definition LoopWrite :: "'e LogWriter \<Rightarrow> 'e LogWriter" where
  "LoopWrite w =
     w\<lparr> lw_file := lw_file w @ concat (lw_local w), lw_free := max (lw_free w) (min 8 (lw_free w + length (lw_local w))),
        lw_local := [], last_flushed_epoch := flush_epoch w \<rparr>"

text \<open>
  \<open>Stop\<close> waits for the background thread, which ends when nothing is ready: what it holds and
  what is ready at that time is written first. \<open>rounds\<close> is the number of rounds it begins meanwhile.
\<close>

definition StopLog :: "u64 \<Rightarrow> 'e LogThread \<Rightarrow> 'e LogWriter \<Rightarrow> 'e LogThread \<times> 'e LogWriter" where
  "StopLog rounds t w =
     (if \<not> lw_running w then (t, w)
      else
        let w = w\<lparr> lw_running := False \<rparr>;
            (t, w) = (case tls_q t of
                        Some q \<Rightarrow> if q \<noteq> [] then SubmitLog t w else (t\<lparr> tls_q := None \<rparr>, w)
                      | None \<Rightarrow> (t, w));
            w = LoopWrite w;
            w = (if lw_ready w \<noteq> [] then LoopWrite (LoopTake w) else w)
        in (t, w\<lparr> flush_epoch := flush_epoch w + rounds, lw_free := 0, lw_file_open := False \<rparr>))"

section \<open>The system\<close>

definition on_writer ::
  "('e LogThread \<Rightarrow> 'e LogWriter \<Rightarrow> 'e LogThread \<times> 'e LogWriter) \<Rightarrow> nat \<Rightarrow> category \<Rightarrow> 'e LogState \<Rightarrow> 'e LogState" where
  "on_writer f tid c s =
     (case f (ls_thread s tid) (ls_writer s c) of
        (t, w) \<Rightarrow> s\<lparr> ls_thread := (ls_thread s)(tid := t), ls_writer := (ls_writer s)(c := w) \<rparr>)"

definition StopAll :: "u64 \<Rightarrow> nat \<Rightarrow> 'e LogState \<Rightarrow> 'e LogState" where
  "StopAll rounds tid s = fold (on_writer (StopLog rounds) tid) [Gateway_log, Business_log, Perf_log] s"

section \<open>Lines\<close>

text \<open>\<open>time_text\<close> is the local time as \<^verbatim>\<open>strftime\<close> prints it, \<open>ms\<close> the milliseconds.\<close>

definition pad3 :: "nat \<Rightarrow> string" where
  "pad3 n = (let d = uint_text n in replicate (3 - length d) (CHR ''0'') @ d)"

definition Timestamp :: "string \<Rightarrow> nat \<Rightarrow> string" where
  "Timestamp time_text ms = take 39 (time_text @ ''.'' @ pad3 ms)"

definition ms_double :: "u64 \<Rightarrow> rat" where
  "ms_double us = binary64 (double_of (uint us) / 1000)"

text \<open>The text that \<^verbatim>\<open>%s\<close> prints of a string ends at its first null character.\<close>

definition printed_str :: "string \<Rightarrow> string" where
  "printed_str s = takeWhile (\<lambda>c. c \<noteq> CHR 0x00) s"

definition GatewayLine :: "string \<Rightarrow> string \<Rightarrow> string \<Rightarrow> int \<Rightarrow> u64 \<Rightarrow> string \<Rightarrow> string" where
  "GatewayLine stamp method path status latency_us client_ip =
     take 127 (''['' @ stamp @ ''] '' @ printed_str method @ '' '' @ printed_str path @ '' '' @ int_text status @ '' ''
               @ fixed_text 1 (ms_double latency_us) @ ''ms '' @ printed_str client_ip)"

definition BusinessLine :: "string \<Rightarrow> string \<Rightarrow> string \<Rightarrow> string \<Rightarrow> string" where
  "BusinessLine stamp mdl action detail = ''['' @ stamp @ ''] ['' @ mdl @ ''] '' @ action @ '' '' @ detail"

definition PerfLine :: "string \<Rightarrow> u64 \<Rightarrow> u64 \<Rightarrow> int \<Rightarrow> int \<Rightarrow> u64 \<Rightarrow> string" where
  "PerfLine stamp total_req total_latency_us active_workers total_workers mem_kb =
     (let avg_ms = (if 0 < total_req
                    then binary64 (binary64 (double_of (uint total_latency_us) / double_of (uint total_req)) / 1000)
                    else 0)
      in take 191 (''['' @ stamp @ ''] req='' @ u64_text total_req @ '' avg='' @ fixed_text 2 avg_ms @ ''ms workers=''
                   @ int_text active_workers @ ''/'' @ int_text total_workers @ '' mem='' @ u64_text mem_kb @ ''KB''))"

definition Gateway :: "bool \<Rightarrow> string \<Rightarrow> string \<Rightarrow> string \<Rightarrow> int \<Rightarrow> u64 \<Rightarrow> string \<Rightarrow> nat \<Rightarrow> string LogState \<Rightarrow> string LogState" where
  "Gateway can_open stamp method path status latency_us client_ip tid =
     on_writer (WriteLog can_open (GatewayLine stamp method path status latency_us client_ip)) tid Gateway_log"

definition Business :: "bool \<Rightarrow> string \<Rightarrow> string \<Rightarrow> string \<Rightarrow> string \<Rightarrow> nat \<Rightarrow> string LogState \<Rightarrow> string LogState" where
  "Business can_open stamp mdl action detail tid =
     on_writer (WriteLog can_open (BusinessLine stamp mdl action detail)) tid Business_log"

definition Perf :: "bool \<Rightarrow> string \<Rightarrow> u64 \<Rightarrow> u64 \<Rightarrow> int \<Rightarrow> int \<Rightarrow> u64 \<Rightarrow> nat \<Rightarrow> string LogState \<Rightarrow> string LogState" where
  "Perf can_open stamp total_req total_latency_us active total_workers mem_kb tid =
     on_writer (WriteLog can_open (PerfLine stamp total_req total_latency_us active total_workers mem_kb)) tid Perf_log"

section \<open>Interleavings\<close>

definition step_writer :: "('e LogWriter \<Rightarrow> 'e LogWriter) \<Rightarrow> category \<Rightarrow> 'e LogState \<Rightarrow> 'e LogState" where
  "step_writer f c s = s\<lparr> ls_writer := (ls_writer s)(c := f (ls_writer s c)) \<rparr>"

text \<open>The second argument is the history: which thread wrote which entry to which writer.\<close>

inductive log_reach :: "'e LogState \<Rightarrow> (nat \<times> category \<times> 'e) list \<Rightarrow> bool" where
  log_start: "log_reach new_log_state []"
| log_write: "log_reach s h \<Longrightarrow> log_reach (on_writer (WriteLog can_open msg) tid c s) (h @ [(tid, c, msg)])"
| log_begin: "log_reach s h \<Longrightarrow> lw_running (ls_writer s c) \<Longrightarrow> log_reach (step_writer LoopBegin c s) h"
| log_take: "log_reach s h \<Longrightarrow> lw_running (ls_writer s c) \<Longrightarrow> lw_local (ls_writer s c) = [] \<Longrightarrow>
    log_reach (step_writer LoopTake c s) h"
| log_drain: "log_reach s h \<Longrightarrow> lw_running (ls_writer s c) \<Longrightarrow> log_reach (step_writer LoopWrite c s) h"
| log_stop: "log_reach s h \<Longrightarrow> log_reach (on_writer (StopLog rounds) tid c s) h"

definition writer_entries :: "'e LogWriter \<Rightarrow> 'e list" where
  "writer_entries w = lw_file w @ concat (lw_local w) @ concat (lw_ready w)"

definition thread_entries :: "'e LogThread \<Rightarrow> 'e list" where
  "thread_entries t = (case tls_q t of None \<Rightarrow> [] | Some q \<Rightarrow> q)"

text \<open>Each operation of a thread appends to its own queue or moves the queue behind all that the writer has.\<close>

lemma WriteLog_entries:
  assumes "WriteLog can_open msg t w = (t', w')"
  shows "writer_entries w' = writer_entries w \<and> thread_entries t' = thread_entries t @ [msg]
    \<or> writer_entries w' = writer_entries w @ thread_entries t @ [msg] \<and> thread_entries t' = []"
  using assms
  by (auto simp: WriteLog_def StartLog_def GetQueue_def SubmitLog_def Let_def writer_entries_def thread_entries_def
      split: if_splits option.splits)

lemma StopLog_entries:
  assumes "StopLog rounds t w = (t', w')"
  shows "\<not> lw_running w \<and> t' = t \<and> w' = w
    \<or> lw_running w \<and> lw_file w' = writer_entries w @ thread_entries t \<and> lw_local w' = [] \<and> lw_ready w' = []
      \<and> thread_entries t' = [] \<and> \<not> lw_running w' \<and> \<not> lw_file_open w'"
  using assms
  by (auto simp: StopLog_def SubmitLog_def LoopWrite_def LoopTake_def Let_def writer_entries_def thread_entries_def
      split: if_splits option.splits)

lemma Loop_entries:
  "writer_entries (LoopBegin w) = writer_entries w" "writer_entries (LoopWrite w) = writer_entries w"
  "lw_local w = [] \<Longrightarrow> writer_entries (LoopTake w) = writer_entries w"
  by (simp_all add: LoopBegin_def LoopWrite_def LoopTake_def writer_entries_def)

definition written :: "nat \<Rightarrow> (nat \<times> category \<times> 'e) list \<Rightarrow> 'e list" where
  "written tid h = map (\<lambda>(_, _, e). e) (filter (\<lambda>(i, _, _). i = tid) h)"

text \<open>What \<open>WriteLog\<close> and \<open>StopLog\<close> have in common, with the entry that is added.\<close>

definition appends :: "('e LogThread \<Rightarrow> 'e LogWriter \<Rightarrow> 'e LogThread \<times> 'e LogWriter) \<Rightarrow> 'e list \<Rightarrow> bool" where
  "appends f ext \<longleftrightarrow> (\<forall>t w t' w'. f t w = (t', w') \<longrightarrow>
     writer_entries w' = writer_entries w \<and> thread_entries t' = thread_entries t @ ext
     \<or> writer_entries w' = writer_entries w @ thread_entries t @ ext \<and> thread_entries t' = [])"

lemma WriteLog_appends: "appends (WriteLog can_open msg) [msg]"
  unfolding appends_def by (intro allI impI) (rule WriteLog_entries)

lemma StopLog_appends: "appends (StopLog rounds) []"
proof -
  have "writer_entries w' = writer_entries w \<and> thread_entries t' = thread_entries t @ []
      \<or> writer_entries w' = writer_entries w @ thread_entries t @ [] \<and> thread_entries t' = []"
    if "StopLog rounds t w = (t', w')" for t w t' w'
    using StopLog_entries [OF that] by (auto simp: writer_entries_def)
  then show ?thesis
    unfolding appends_def by blast
qed

lemma on_writer_cases:
  assumes "appends f ext"
  obtains (queued) "\<And>d. writer_entries (ls_writer (on_writer f tid c s) d) = writer_entries (ls_writer s d)"
      "\<And>i. thread_entries (ls_thread (on_writer f tid c s) i) =
        (if i = tid then thread_entries (ls_thread s tid) @ ext else thread_entries (ls_thread s i))"
    | (submitted) "\<And>d. writer_entries (ls_writer (on_writer f tid c s) d) =
        (if d = c then writer_entries (ls_writer s c) @ thread_entries (ls_thread s tid) @ ext
         else writer_entries (ls_writer s d))"
      "\<And>i. thread_entries (ls_thread (on_writer f tid c s) i) =
        (if i = tid then [] else thread_entries (ls_thread s i))"
proof -
  obtain t' w' where f: "f (ls_thread s tid) (ls_writer s c) = (t', w')"
    by fastforce
  with assms have "writer_entries w' = writer_entries (ls_writer s c) \<and> thread_entries t' = thread_entries (ls_thread s tid) @ ext
      \<or> writer_entries w' = writer_entries (ls_writer s c) @ thread_entries (ls_thread s tid) @ ext \<and> thread_entries t' = []"
    unfolding appends_def by blast
  with f that show ?thesis
    by (auto simp: on_writer_def)
qed

lemma step_writer_entries:
  assumes "writer_entries (f (ls_writer s c)) = writer_entries (ls_writer s c)"
  shows "writer_entries (ls_writer (step_writer f c s) d) = writer_entries (ls_writer s d)"
    and "ls_thread (step_writer f c s) = ls_thread s"
  using assms by (simp_all add: step_writer_def)

lemma written_snoc: "written tid (h @ [(i, c, e)]) = written tid h @ (if i = tid then [e] else [])"
  by (simp add: written_def)

definition all_entries :: "'e LogState \<Rightarrow> 'e list" where
  "all_entries s = writer_entries (ls_writer s Gateway_log) @ writer_entries (ls_writer s Business_log)
     @ writer_entries (ls_writer s Perf_log)"

lemma all_entries_append:
  assumes "\<And>d. writer_entries (ls_writer s' d) = (if d = c then writer_entries (ls_writer s c) @ xs else writer_entries (ls_writer s d))"
  shows "mset (filter P (all_entries s')) = mset (filter P (all_entries s)) + mset (filter P xs)"
  by (cases c) (simp_all add: all_entries_def assms)

definition tagged :: "('e \<Rightarrow> nat) \<Rightarrow> (nat \<times> category \<times> 'e) list \<Rightarrow> bool" where
  "tagged tag h \<longleftrightarrow> (\<forall>(i, c, e) \<in> set h. tag e = i)"

lemma tagged_snoc [simp]: "tagged tag (h @ [(i, c, e)]) \<longleftrightarrow> tagged tag h \<and> tag e = i"
  by (auto simp: tagged_def)

lemma log_queues_tagged:
  assumes "log_reach s h" and "tagged tag h" and "e \<in> set (thread_entries (ls_thread s i))"
  shows "tag e = i"
  using assms
proof (induction arbitrary: e i)
  case log_start
  then show ?case
    by (simp add: new_log_state_def thread_entries_def)
next
  case (log_write s h can_open msg tid c)
  then show ?case
    by (cases rule: on_writer_cases [OF WriteLog_appends, of can_open msg tid c s]) (auto split: if_splits)
next
  case (log_stop s h rounds tid c)
  then show ?case
    by (cases rule: on_writer_cases [OF StopLog_appends, of rounds tid c s]) (auto split: if_splits)
qed (auto simp: step_writer_def)

lemma own_entries:
  assumes "log_reach s h" and "tagged tag h"
  shows "filter (\<lambda>e. tag e = tid) (thread_entries (ls_thread s i)) = (if i = tid then thread_entries (ls_thread s tid) else [])"
  using log_queues_tagged [OF assms] by (auto simp: filter_id_conv filter_empty_conv)


definition log_of_two :: "(nat \<times> string) LogState" where
  "log_of_two = on_writer (WriteLog True (2, ''b'')) 2 Gateway_log (on_writer (WriteLog True (1, ''a'')) 1 Gateway_log new_log_state)"

lemma log_of_two_reach:
  "log_reach log_of_two [(1, Gateway_log, (1, ''a'')), (2, Gateway_log, (2, ''b''))]"
proof -
  have "log_reach (on_writer (WriteLog True (1 :: nat, ''a'')) 1 Gateway_log new_log_state) ([] @ [(1, Gateway_log, (1, ''a''))])"
    by (intro log_write log_start)
  from log_write [OF this, of True "(2, ''b'')" 2 Gateway_log] show ?thesis
    by (simp add: log_of_two_def)
qed


lemma unused_writer_stopped:
  assumes "log_reach s h" and "\<forall>(i, d, e) \<in> set h. d = c" and "d \<noteq> c"
  shows "\<not> lw_running (ls_writer s d)"
  using assms
proof (induction)
  case (log_write s h can_open msg i d')
  then show ?case
    by (auto simp: on_writer_def split: prod.splits)
next
  case (log_stop s h rounds i d')
  have "\<not> lw_running (snd (StopLog rounds t w))" if "\<not> lw_running w" for t and w :: "'a LogWriter"
    using that by (simp add: StopLog_def)
  with log_stop show ?case
    by (auto simp: on_writer_def split: prod.splits) (metis snd_conv)
qed (auto simp: new_log_state_def new_log_writer_def step_writer_def LoopBegin_def LoopTake_def LoopWrite_def)

lemma StopLog_stopped: "\<not> lw_running (ls_writer s c) \<Longrightarrow> on_writer (StopLog rounds) i c s = s"
  by (simp add: on_writer_def StopLog_def)

text \<open>As long as all entries go to one category, each thread's entries keep their order: what the file
  and the background writer have of them, followed by the thread's own queue, is the sequence
  the thread wrote.\<close>

theorem log_keeps_order:
  assumes "log_reach s h" and "tagged tag h" and "\<forall>(i, d, e) \<in> set h. d = c"
  shows "filter (\<lambda>e. tag e = tid) (writer_entries (ls_writer s c)) @ thread_entries (ls_thread s tid) = written tid h"
  using assms
proof (induction)
  case log_start
  then show ?case
    by (simp add: new_log_state_def writer_entries_def new_log_writer_def thread_entries_def written_def)
next
  case (log_write s h can_open msg i d)
  note own = own_entries [OF log_write.hyps, of tag tid i]
  from log_write own show ?case
    by (cases rule: on_writer_cases [OF WriteLog_appends, of can_open msg i d s]) (auto simp: written_snoc)
next
  case (log_stop s h rounds i d)
  note own = own_entries [OF log_stop.hyps, of tag tid i]
  show ?case
  proof (cases "d = c")
    case True
    from log_stop own True show ?thesis
      by (cases rule: on_writer_cases [OF StopLog_appends, of rounds i c s]) auto
  next
    case False
    then have "on_writer (StopLog rounds) i d s = s"
      using unused_writer_stopped [OF log_stop.hyps log_stop.prems(2)] by (intro StopLog_stopped)
    with log_stop show ?thesis
      by simp
  qed
qed (auto simp: step_writer_entries Loop_entries)

theorem log_keeps_order_witness:
  "filter (\<lambda>e. fst e = 1) (writer_entries (ls_writer log_of_two Gateway_log)) @ thread_entries (ls_thread log_of_two 1)
     = [(1, ''a'')]"
  using log_keeps_order [OF log_of_two_reach, of fst Gateway_log 1] by (simp add: tagged_def written_def)

text \<open>Stopping a writer that runs puts every entry it has, in order, and then the caller's own waiting
  entries into the file, and leaves nothing behind.\<close>

theorem stop_drains:
  assumes "lw_running w"
  shows "case StopLog rounds t w of (t', w') \<Rightarrow>
    lw_file w' = lw_file w @ concat (lw_local w) @ concat (lw_ready w) @ thread_entries t
    \<and> lw_local w' = [] \<and> lw_ready w' = [] \<and> thread_entries t' = [] \<and> \<not> lw_running w' \<and> \<not> lw_file_open w'"
proof -
  obtain t' w' where s: "StopLog rounds t w = (t', w')"
    by (cases "StopLog rounds t w")
  with StopLog_entries [OF s] assms show ?thesis
    by (simp add: writer_entries_def)
qed

theorem stop_drains_witness:
  "lw_file (snd (StopLog 2 \<lparr> tls_q = Some [''c''], tls_epoch = 1 \<rparr>
     (new_log_writer\<lparr> lw_running := True, lw_local := [[''a'']], lw_ready := [[''b'']] \<rparr>))) = [''a'', ''b'', ''c'']"
  using stop_drains [where w = "new_log_writer\<lparr> lw_running := True, lw_local := [[''a'']], lw_ready := [[''b'']] \<rparr>"
      and rounds = 2 and t = "\<lparr> tls_q = Some [''c''], tls_epoch = 1 \<rparr>"]
  by (auto simp: new_log_writer_def thread_entries_def split: prod.splits)

section \<open>Findings\<close>

text \<open>A thread that logs to two categories: a line of the request log ends in the business log.\<close>

lemma request_line_in_business_log:
  "''g2'' \<in> set (concat (lw_ready (ls_writer
     (on_writer (WriteLog True ''b2'') 1 Business_log (step_writer LoopBegin Business_log
       (on_writer (WriteLog True ''b1'') 1 Business_log (on_writer (WriteLog True ''g2'') 1 Gateway_log
         (on_writer (WriteLog True ''g1'') 1 Gateway_log new_log_state))))) Business_log)))"
  by code_simp

end
