(* ===== verification/Middleware.thy ===== *)
theory Middleware
  imports Static_Files Stream_Context Logger
begin

text \<open>
  The middleware chain (\<^verbatim>\<open>middleware/middleware.cpp\<close>): the manager and the built-in middlewares, before
  the handler (CORS, request identifiers, metrics endpoints) and after the response (metrics,
  request log). \<open>'w\<close> is the state outside the request that the hooks after the response change;
  \<open>Gateway_world\<close> is that of the built-in ones. Clocks, the thread and the bytes that follow a
  view in memory are in \<open>MwEnv\<close>.

  A \<^verbatim>\<open>string_view\<close> is \<open>Text\<close> when it points to text that outlives the request and \<open>At\<close> when it
  points into the worker's memory, by its absolute address.
\<close>

section \<open>Requests as middlewares see them\<close>

datatype view = Text string | At nat nat

definition view_text :: "region_state \<Rightarrow> view \<Rightarrow> string" where
  "view_text st v = (case v of Text s \<Rightarrow> s | At a n \<Rightarrow> mem_read (pool_mem (fst st)) a n)"

text \<open>\<open>tl_counter\<close> is the thread-local counter of \<open>GenerateId\<close>, not a member of the context.\<close>

record MwContext =
  mc_method :: string
  mc_path :: string
  mc_header :: "string \<Rightarrow> string"
  mc_pool :: bool
  mc_region :: region_state
  mc_extra :: "(string \<times> view) list"
  mc_request_id :: view
  mc_http2 :: bool
  tl_counter :: u64


definition MwAddResponseHeader :: "string \<Rightarrow> view \<Rightarrow> MwContext \<Rightarrow> MwContext" where
  "MwAddResponseHeader key v c =
     (if kMaxExtraHeaders \<le> length (mc_extra c) then c else c\<lparr> mc_extra := mc_extra c @ [(key, v)] \<rparr>)"

definition MwSetRequestId :: "view \<Rightarrow> MwContext \<Rightarrow> MwContext" where
  "MwSetRequestId v c = c\<lparr> mc_request_id := v \<rparr>"

section \<open>The manager\<close>

datatype mw_type = PreRequest | PostResponse | Both

text \<open>
  A hook returns \<open>None\<close> when it reads outside an object; its response is \<open>NoneResponse\<close> to go on. The
  hook after the response may still allocate in the request's region.
\<close>

type_synonym 'w post_hook = "MwContext \<Rightarrow> int \<Rightarrow> u64 \<Rightarrow> u64 \<Rightarrow> int \<Rightarrow> 'w \<Rightarrow> (MwContext \<times> 'w) option"

record 'w Middleware =
  mw_get_type :: mw_type
  mw_on_raw :: "string \<Rightarrow> Response"
  mw_handle_pre :: "MwContext \<Rightarrow> (Response \<times> MwContext) option"
  mw_handle_post :: "'w post_hook"

record 'w MiddlewareManager =
  mm_owned :: "'w Middleware list"
  mm_pre :: "'w Middleware list"
  mm_post :: "'w Middleware list"

definition new_middleware_manager :: "'w MiddlewareManager" where
  "new_middleware_manager = \<lparr> mm_owned = [], mm_pre = [], mm_post = [] \<rparr>"

definition AddMiddleware :: "'w Middleware \<Rightarrow> 'w MiddlewareManager \<Rightarrow> 'w MiddlewareManager" where
  "AddMiddleware mw m =
     (let t = mw_get_type mw
      in \<lparr> mm_owned = mm_owned m @ [mw],
           mm_pre = (if t = PreRequest \<or> t = Both then mm_pre m @ [mw] else mm_pre m),
           mm_post = (if t = PostResponse \<or> t = Both then mm_post m @ [mw] else mm_post m) \<rparr>)"

primrec raw_loop :: "'w Middleware list \<Rightarrow> string \<Rightarrow> Response" where
  "raw_loop [] data = NoneResponse"
| "raw_loop (mw # mws) data = (let resp = mw_on_raw mw data in if \<not> IsNone resp then resp else raw_loop mws data)"

definition ProcessRaw :: "'w MiddlewareManager \<Rightarrow> string \<Rightarrow> Response" where
  "ProcessRaw m data = raw_loop (mm_owned m) data"

primrec pre_loop :: "'w Middleware list \<Rightarrow> MwContext \<Rightarrow> (Response \<times> MwContext) option" where
  "pre_loop [] c = Some (NoneResponse, c)"
| "pre_loop (mw # mws) c =
     (case mw_handle_pre mw c of
        None \<Rightarrow> None
      | Some (resp, c1) \<Rightarrow> if \<not> IsNone resp then Some (resp, c1) else pre_loop mws c1)"

definition ExecutePre :: "'w MiddlewareManager \<Rightarrow> MwContext \<Rightarrow> (Response \<times> MwContext) option" where
  "ExecutePre m c = pre_loop (mm_pre m) c"

primrec post_loop :: "'w Middleware list \<Rightarrow> 'w post_hook" where
  "post_loop [] c status_code sent elapsed_us worker_id w = Some (c, w)"
| "post_loop (mw # mws) c status_code sent elapsed_us worker_id w =
     (case mw_handle_post mw c status_code sent elapsed_us worker_id w of
        None \<Rightarrow> None
      | Some (c1, w1) \<Rightarrow> post_loop mws c1 status_code sent elapsed_us worker_id w1)"

definition ExecutePostSync :: "'w MiddlewareManager \<Rightarrow> 'w post_hook" where
  "ExecutePostSync m = post_loop (mm_post m)"

section \<open>The built-in middlewares\<close>

definition cors_wire :: string where
  "cors_wire =
     ''HTTP/1.1 204 No Content'' @ line_end @ ''Access-Control-Allow-Origin: *'' @ line_end
     @ ''Access-Control-Allow-Methods: GET, POST, PUT, DELETE, OPTIONS'' @ line_end
     @ ''Access-Control-Allow-Headers: Content-Type, Authorization'' @ line_end
     @ ''Access-Control-Max-Age: 86400'' @ line_end @ ''Content-Length: 0'' @ line_end
     @ ''Connection: keep-alive'' @ line_end @ line_end"

definition CorsPre :: "MwContext \<Rightarrow> (Response \<times> MwContext) option" where
  "CorsPre c =
     Some (if mc_method c = ''OPTIONS'' then (RawResponse 204 cors_wire, c)
           else (NoneResponse, MwAddResponseHeader ''Access-Control-Allow-Origin'' (Text ''*'') c))"

text \<open>
  \<open>GenerateId\<close> prints into a buffer of 32 bytes and copies as many bytes as the whole text has:
  with 33 characters or more it would read past the buffer.
\<close>

definition id_text :: "nat \<Rightarrow> u64 \<Rightarrow> string" where
  "id_text tid counter = hex_text tid @ ''_'' @ hex_text (unat counter)"

definition GenerateId :: "nat \<Rightarrow> MwContext \<Rightarrow> (view \<times> MwContext) option" where
  "GenerateId tid c =
     (let counter = tl_counter c + 1; s = id_text tid counter
      in if 32 < length s then None
         else
           let buf = take 31 s @ (if length s = 32 then [CHR 0x00] else []);
               (off, st) = DupOff buf (mc_region c)
           in Some (At (RegionData (snd st) + ro_off off) (ro_len off),
                    c\<lparr> mc_region := st, tl_counter := counter \<rparr>))"

definition RequestIdPre :: "nat \<Rightarrow> MwContext \<Rightarrow> (Response \<times> MwContext) option" where
  "RequestIdPre tid c =
     (let existing = mc_header c ''x-request-id''
      in if existing \<noteq> []
         then Some (NoneResponse, MwAddResponseHeader ''X-Request-Id'' (Text existing) (MwSetRequestId (Text existing) c))
         else if mc_pool c
         then map_option (\<lambda>(v, c1). (NoneResponse, MwAddResponseHeader ''X-Request-Id'' v (MwSetRequestId v c1)))
                (GenerateId tid c)
         else Some (NoneResponse, c))"

definition kDefaultPushMs :: int where "kDefaultPushMs = 1000"

definition with_region :: "MwContext \<Rightarrow> response_state \<Rightarrow> Response \<times> MwContext" where
  "with_region c sr = (snd sr, c\<lparr> mc_region := fst sr \<rparr>)"

definition MetricsPre ::
  "int \<Rightarrow> string \<Rightarrow> MetricsCollector option \<Rightarrow> MwContext \<Rightarrow> (Response \<times> MwContext) option" where
  "MetricsPre now_ns date collector c =
     (if mc_path c = ''/metrics.json''
      then (case collector of
              None \<Rightarrow> None
            | Some m \<Rightarrow>
                let json = RenderMetricsJson now_ns m
                in Some (if \<not> mc_pool c then (RawResponse 200 json, c)
                         else case EndHeaders date (ResponseHeaderUint ''Content-Length'' (length json)
                                     (ResponseHeader ''Content-Type'' ''application/json'' (new_response 200 (mc_region c)))) of
                                (st, r) \<Rightarrow> with_region c (WriteRegion json st, r)))
      else if mc_path c = ''/dashboard''
      then Some (if \<not> mc_pool c
                 then (RawResponse 301 (''HTTP/1.1 301 Moved Permanently'' @ line_end @ ''Location: /dashboard/''
                         @ line_end @ ''Content-Length: 0'' @ line_end @ line_end), c)
                 else with_region c (EndHeaders date (ResponseHeader ''Location'' ''/dashboard/''
                        (new_response 301 (mc_region c)))))
      else if mc_path c = ''/metrics/stream'' \<or> mc_path c = ''/metrics/stream/''
      then Some (if \<not> mc_pool c
                 then (RawResponse 200 (''data: {'' @ quoted ''error'' @ '':'' @ quoted ''no pool'' @ ''}''
                         @ [CHR 0x0A, CHR 0x0A]), c)
                 else with_region c (SSEStream date kDefaultPushMs (mc_region c)))
      else Some (NoneResponse, c))"

section \<open>After the response\<close>

record Gateway_world =
  gw_collector :: "MetricsCollector option"
  gw_stderr :: string
  gw_json :: string
  gw_log :: "string LogState"

text \<open>
  \<open>en_tid\<close> is the thread, \<open>en_pthread\<close> its handle, \<open>en_iso\<close> and \<open>en_stamp\<close> the two printed forms of the time;
  \<open>en_after_method\<close> and \<open>en_after_path\<close> are the bytes that follow the method and the path in
  memory, which \<^verbatim>\<open>%s\<close> goes on to print because the views are not terminated.
\<close>

record MwEnv =
  en_tid :: nat
  en_pthread :: nat
  en_now_ns :: int
  en_date :: string
  en_iso :: string
  en_stamp :: string
  en_can_open :: bool
  en_after_method :: string
  en_after_path :: string

definition MetricsPost :: "Gateway_world post_hook" where
  "MetricsPost c status_code sent elapsed_us worker_id w =
     Some (c, w\<lparr> gw_collector := map_option (OnRequest elapsed_us status_code sent worker_id (mc_http2 c)) (gw_collector w) \<rparr>)"

definition LogTimestamp :: "string \<Rightarrow> MwContext \<Rightarrow> string \<times> MwContext" where
  "LogTimestamp utc c = (let (off, st) = DupOff utc (mc_region c) in (ToView st off, c\<lparr> mc_region := st \<rparr>))"

definition request_line :: "MwEnv \<Rightarrow> MwContext \<Rightarrow> int \<Rightarrow> u64 \<Rightarrow> u64 \<Rightarrow> string" where
  "request_line env c status_code sent elapsed_us =
     ''[request] '' @ printed_str (mc_method c @ en_after_method env) @ '' '' @ printed_str (mc_path c @ en_after_path env)
     @ '' '' @ [CHR 0xE2, CHR 0x86, CHR 0x92] @ '' '' @ int_text status_code @ '' ('' @ fixed_text 1 (ms_double elapsed_us)
     @ ''ms, '' @ u64_text sent @ ''B)'' @ [CHR 0x0A]"

text \<open>
  \<open>snprintf\<close> stores at most 511 characters and a null in \<open>line\<close> and returns the length of the whole
  text; that many bytes of \<open>line\<close> are then written.
\<close>

definition LoggingPost :: "MwEnv \<Rightarrow> Gateway_world post_hook" where
  "LoggingPost env c status_code sent elapsed_us worker_id w =
     (if \<not> mc_pool c then Some (c, w)
      else
        let line = request_line env c status_code sent elapsed_us; n = length line
        in if 512 < n then None
           else
             let w = w\<lparr> gw_stderr := gw_stderr w @ take n (take 511 line @ [CHR 0x00]) \<rparr>;
                 (t, c) = LogTimestamp (en_iso env) c;
                 j = ''{'' @ quoted ''t'' @ '':'' @ quoted t @ '','' @ quoted ''m'' @ '':'' @ quoted (mc_method c)
                     @ '','' @ quoted ''p'' @ '':'' @ quoted (mc_path c) @ '','' @ quoted ''s'' @ '':'' @ int_text status_code
                     @ '','' @ quoted ''d'' @ '':'' @ u64_text elapsed_us @ '','' @ quoted ''b'' @ '':'' @ u64_text sent
                     @ '','' @ quoted ''h2'' @ '':'' @ (if mc_http2 c then ''true'' else ''false'')
                     @ '','' @ quoted ''id'' @ '':'' @ quoted (view_text (mc_region c) (mc_request_id c)) @ ''}''
             in Some (c, w\<lparr> gw_json := j,
                            gw_log := Gateway (en_can_open env) (en_stamp env) (mc_method c) (mc_path c) status_code
                              elapsed_us [] (en_tid env) (gw_log w) \<rparr>))"

text \<open>The chain as \<^verbatim>\<open>main\<close> configures it.\<close>

definition configured_middleware :: "MwEnv \<Rightarrow> MetricsCollector option \<Rightarrow> Gateway_world MiddlewareManager" where
  "configured_middleware env collector =
     fold AddMiddleware
       [\<lparr> mw_get_type = PreRequest, mw_on_raw = (\<lambda>_. NoneResponse), mw_handle_pre = CorsPre,
          mw_handle_post = (\<lambda>c _ _ _ _ w. Some (c, w)) \<rparr>,
        \<lparr> mw_get_type = PreRequest, mw_on_raw = (\<lambda>_. NoneResponse), mw_handle_pre = RequestIdPre (en_pthread env),
          mw_handle_post = (\<lambda>c _ _ _ _ w. Some (c, w)) \<rparr>,
        \<lparr> mw_get_type = Both, mw_on_raw = (\<lambda>_. NoneResponse), mw_handle_pre = MetricsPre (en_now_ns env) (en_date env) collector,
          mw_handle_post = MetricsPost \<rparr>,
        \<lparr> mw_get_type = PostResponse, mw_on_raw = (\<lambda>_. NoneResponse),
          mw_handle_pre = (\<lambda>c. Some (NoneResponse, c)), mw_handle_post = LoggingPost env \<rparr>]
       new_middleware_manager"

section \<open>Request identifiers are unique\<close>

definition hex_value :: "char \<Rightarrow> nat" where
  "hex_value c = (if (of_char c :: nat) \<le> 57 then of_char c - 48 else of_char c - 87)"

lemma hex_digit_code:
  fixes d :: nat
  assumes "d < 16"
  shows "of_char (if d < 10 then char_of (48 + d) else char_of (87 + d)) = (if d < 10 then 48 + d else 87 + d)"
  using assms by (simp add: take_bit_nat_eq_self_iff)

lemma hex_digit_value:
  "(d :: nat) < 16 \<Longrightarrow> hex_value (if d < 10 then char_of (48 + d) else char_of (87 + d)) = d"
  using hex_digit_code [of d] unfolding hex_value_def by (simp split: if_splits)

lemma hex_digit_sep:
  fixes d :: nat
  assumes "d < 16"
  shows "(if d < 10 then char_of (48 + d) else char_of (87 + d)) \<noteq> CHR ''_''"
proof
  assume "(if d < 10 then char_of (48 + d) else char_of (87 + d)) = CHR ''_''"
  then have "(if d < 10 then 48 + d else 87 + d) = of_char (CHR ''_'')"
    using hex_digit_code [OF assms] by metis
  with assms show False
    by (simp split: if_splits)
qed

lemma hex_digits_value:
  "foldl (\<lambda>v c. v * 16 + hex_value c) 0 (hex_digits n acc) = foldl (\<lambda>v c. v * 16 + hex_value c) n acc"
proof (induction n acc rule: hex_digits.induct)
  case (1 n acc)
  show ?case
  proof (cases "n = 0")
    case False
    then show ?thesis
      using "1.IH" [OF False] hex_digit_value [of "n mod 16"] by (subst hex_digits.simps) simp
  qed (simp add: hex_digits.simps)
qed

lemma hex_digits_sep: "CHR ''_'' \<in> set (hex_digits n acc) \<Longrightarrow> CHR ''_'' \<in> set acc"
proof (induction n acc rule: hex_digits.induct)
  case (1 n acc)
  then show ?case
    using hex_digit_sep [of "n mod 16"] by (subst (asm) (2) hex_digits.simps) (auto split: if_splits)
qed

lemma hex_text_inj: "hex_text m = hex_text n \<longleftrightarrow> m = n"
proof -
  have zero: "hex_value (CHR ''0'') = 0"
    by (simp add: hex_value_def)
  have "foldl (\<lambda>v c. v * 16 + hex_value c) 0 (hex_text k) = k" for k
    by (simp add: hex_text_def hex_digits_value zero)
  then show ?thesis
    by metis
qed

lemma hex_text_sep: "CHR ''_'' \<notin> set (hex_text n)"
  using hex_digits_sep [of n "[]"] by (auto simp: hex_text_def)

text \<open>Request identifiers are unique: two generated identifiers are the same text only when they come
  from the same thread and the same value of its counter.\<close>

theorem request_ids_unique: "id_text t1 c1 = id_text t2 c2 \<longleftrightarrow> t1 = t2 \<and> c1 = c2"
proof
  assume eq: "id_text t1 c1 = id_text t2 c2"
  have "takeWhile (\<lambda>c. c \<noteq> CHR ''_'') (id_text t c) = hex_text t" for t c
    using hex_text_sep [of t] by (auto simp: id_text_def takeWhile_append2 takeWhile_tail)
  with eq have "hex_text t1 = hex_text t2"
    by metis
  with eq show "t1 = t2 \<and> c1 = c2"
    by (simp add: id_text_def hex_text_inj word_unat_eq_iff)
qed simp

lemma hex_digits_length: "n < 16 ^ k \<Longrightarrow> length (hex_digits n acc) \<le> k + length acc"
proof (induction n acc arbitrary: k rule: hex_digits.induct)
  case (1 n acc)
  show ?case
  proof (cases "n = 0")
    case False
    with 1 obtain k' where k: "k = Suc k'"
      by (cases k) auto
    then have "n div 16 < 16 ^ k'"
      using "1.prems" by (simp add: less_mult_imp_div_less mult.commute)
    from "1.IH" [OF False this] show ?thesis
      using False k by (subst hex_digits.simps) simp
  qed (simp add: hex_digits.simps)
qed

lemma hex_text_length: "n < 16 ^ k \<Longrightarrow> 0 < k \<Longrightarrow> length (hex_text n) \<le> k"
  using hex_digits_length [of n k "[]"] by (simp add: hex_text_def)

lemma id_text_length:
  assumes "tid < 2 ^ 48"
  shows "length (id_text tid counter) \<le> 29"
proof -
  have "tid < 16 ^ 12" "unat counter < 16 ^ 16"
    using assms unsigned_less [of counter, where ?'a = nat] by simp_all
  then show ?thesis
    using hex_text_length [of tid 12] hex_text_length [of "unat counter" 16] by (simp add: id_text_def)
qed

section \<open>What the chain does to a request\<close>

lemma configured_pre:
  "ExecutePre (configured_middleware env collector) c =
     (case CorsPre c of
        None \<Rightarrow> None
      | Some (r, c1) \<Rightarrow> if \<not> IsNone r then Some (r, c1)
          else case RequestIdPre (en_pthread env) c1 of
                 None \<Rightarrow> None
               | Some (r, c2) \<Rightarrow> if \<not> IsNone r then Some (r, c2)
                   else case MetricsPre (en_now_ns env) (en_date env) collector c2 of
                          None \<Rightarrow> None
                        | Some (r, c3) \<Rightarrow> if \<not> IsNone r then Some (r, c3) else Some (NoneResponse, c3))"
  by (simp add: ExecutePre_def configured_middleware_def AddMiddleware_def new_middleware_manager_def Let_def
      split: option.split)

lemma configured_post:
  "ExecutePostSync (configured_middleware env collector) c status sent us wid w =
     (case MetricsPost c status sent us wid w of
        None \<Rightarrow> None
      | Some (c1, w1) \<Rightarrow> LoggingPost env c1 status sent us wid w1)"
  by (simp add: ExecutePostSync_def configured_middleware_def AddMiddleware_def new_middleware_manager_def Let_def
      split: option.split)

lemma GenerateId_room:
  assumes "region_inv others (mc_region c)" and "tid < 2 ^ 48" and "room 40 (mc_region c)"
  obtains v st where "GenerateId tid c = Some (v, c\<lparr> mc_region := st, tl_counter := tl_counter c + 1 \<rparr>)"
    and "view_text st v = id_text tid (tl_counter c + 1)" and "region_inv others st"
proof -
  let ?s = "id_text tid (tl_counter c + 1)"
  obtain ro st where d: "DupOff ?s (mc_region c) = (ro, st)"
    by (cases "DupOff ?s (mc_region c)")
  have len: "length ?s \<le> 29"
    using id_text_length [OF assms(2)] .
  then have short: "length ?s < 2 ^ 63" "align8 (length ?s) \<le> 40"
    using align8_spec [of "length ?s"] by simp_all
  then have room: "room (align8 (length ?s) + 0) (mc_region c)"
    using assms(3) by (simp add: room_def)
  have "GenerateId tid c = Some (At (RegionData (snd st) + ro_off ro) (ro_len ro),
      c\<lparr> mc_region := st, tl_counter := tl_counter c + 1 \<rparr>)"
    using len d by (simp add: GenerateId_def Let_def)
  moreover have "view_text st (At (RegionData (snd st) + ro_off ro) (ro_len ro)) = ?s"
    using DupOff_room(1) [OF assms(1) short(1) room d] by (cases st) (simp add: view_text_def ToView_def)
  ultimately show ?thesis
    using that DupOff_spec(1) [OF assms(1) short(1) d] by blast
qed

lemma NoneResponse_none [simp]: "IsNone NoneResponse"
  by (simp add: IsNone_def NoneResponse_def)

definition metrics_path :: "string \<Rightarrow> bool" where
  "metrics_path p \<longleftrightarrow> p \<in> {''/metrics.json'', ''/dashboard'', ''/metrics/stream'', ''/metrics/stream/''}"

text \<open>C30. A request that is neither a preflight nor for the metrics page passes the whole chain and leaves
  it with the cross-origin header and a request identifier: the client's own, or a generated one
  that is stored in the region, when 40 bytes are free there. Thread identifiers of user
  space are below \<open>2 ^ 48\<close>.\<close>

theorem requests_are_tagged:
  assumes "region_inv others (mc_region c)" and "mc_pool c" and "en_pthread env < 2 ^ 48" and "room 40 (mc_region c)"
    and "mc_method c \<noteq> ''OPTIONS''" and "\<not> metrics_path (mc_path c)" and "length (mc_extra c) \<le> 6"
  shows "\<exists>c' v. ExecutePre (configured_middleware env collector) c = Some (NoneResponse, c')
    \<and> region_inv others (mc_region c') \<and> mc_request_id c' = v
    \<and> mc_extra c' = mc_extra c @ [(''Access-Control-Allow-Origin'', Text ''*''), (''X-Request-Id'', v)]
    \<and> view_text (mc_region c') v =
        (if mc_header c ''x-request-id'' \<noteq> [] then mc_header c ''x-request-id'' else id_text (en_pthread env) (tl_counter c + 1))"
proof -
  let ?c = "MwAddResponseHeader ''Access-Control-Allow-Origin'' (Text ''*'') c"
  have added: "?c = c\<lparr> mc_extra := mc_extra c @ [(''Access-Control-Allow-Origin'', Text ''*'')] \<rparr>"
    using assms(7) by (simp add: MwAddResponseHeader_def kMaxExtraHeaders_def)
  note defs = configured_pre CorsPre_def RequestIdPre_def MetricsPre_def metrics_path_def MwSetRequestId_def
    MwAddResponseHeader_def kMaxExtraHeaders_def
  show ?thesis
  proof (cases "mc_header c ''x-request-id'' = []")
    case False
    then show ?thesis
      using assms by (simp add: defs Let_def view_text_def)
  next
    case True
    obtain v st where g: "GenerateId (en_pthread env) ?c = Some (v, ?c\<lparr> mc_region := st, tl_counter := tl_counter ?c + 1 \<rparr>)"
      and v: "view_text st v = id_text (en_pthread env) (tl_counter ?c + 1)" and st: "region_inv others st"
      using assms(1,3,4) by (rule_tac GenerateId_room [of others ?c "en_pthread env"]) (simp_all add: added)
    from g v st show ?thesis
      using assms True by (simp add: defs Let_def)
  qed
qed

definition get_ctx :: MwContext where
  "get_ctx = \<lparr> mc_method = ''GET'', mc_path = ''/a'', mc_header = (\<lambda>_. []), mc_pool = True,
     mc_region = (fst two_sessions, List.hd (snd two_sessions)), mc_extra = [], mc_request_id = Text [],
     mc_http2 = False, tl_counter = 0 \<rparr>"

definition an_env :: MwEnv where
  "an_env = \<lparr> en_tid = 1, en_pthread = 255, en_now_ns = 0, en_date = ''now'', en_iso = ''iso'', en_stamp = ''stamp'',
     en_can_open = True, en_after_method = [], en_after_path = [] \<rparr>"

theorem requests_are_tagged_witness:
  "\<exists>c'. ExecutePre (configured_middleware an_env None) get_ctx = Some (NoneResponse, c')
     \<and> view_text (mc_region c') (mc_request_id c') = id_text 255 1"
  using requests_are_tagged [where others = "[(0, 65536)]" and c = get_ctx and env = an_env and collector = None] fresh_region
  by (auto simp: get_ctx_def an_env_def room_def fresh_region_fields metrics_path_def)

text \<open>A preflight request is answered at once with the fixed 204 response, and neither the request
  identifier nor the metrics middleware sees it.\<close>

theorem preflight_answered:
  assumes "mc_method c = ''OPTIONS''"
  shows "ExecutePre (configured_middleware env collector) c = Some (RawResponse 204 cors_wire, c)"
  using assms by (simp add: configured_pre CorsPre_def IsNone_def RawResponse_def)

theorem preflight_answered_witness:
  "ExecutePre (configured_middleware an_env None) (get_ctx\<lparr> mc_method := ''OPTIONS'' \<rparr>)
     = Some (RawResponse 204 cors_wire, get_ctx\<lparr> mc_method := ''OPTIONS'' \<rparr>)"
  by (rule preflight_answered) simp

text \<open>After the response, a request whose line fits its buffer is recorded once in each place: in the
  counters of its worker and as one entry, with its method, path, status and time, in the
  request log.\<close>

theorem requests_are_recorded:
  assumes "mc_pool c" and "length (request_line env c status sent us) \<le> 511" and "gw_collector w = Some m"
  shows "\<exists>c' w'. ExecutePostSync (configured_middleware env collector) c status sent us wid w = Some (c', w')
    \<and> gw_collector w' = Some (OnRequest us status sent wid (mc_http2 c) m)
    \<and> gw_stderr w' = gw_stderr w @ request_line env c status sent us
    \<and> gw_log w' = Gateway (en_can_open env) (en_stamp env) (mc_method c) (mc_path c) status us [] (en_tid env) (gw_log w)"
  using assms by (auto simp: configured_post MetricsPost_def LoggingPost_def LogTimestamp_def Let_def split: prod.splits)

definition quiet_world :: Gateway_world where
  "quiet_world = \<lparr> gw_collector = Some (new_metrics_collector 1 0), gw_stderr = [], gw_json = [], gw_log = new_log_state \<rparr>"

theorem requests_are_recorded_witness:
  "\<exists>c' w'. ExecutePostSync (configured_middleware an_env None) get_ctx 200 5 1500 0 quiet_world = Some (c', w')
     \<and> gw_collector w' = Some (OnRequest 1500 200 5 0 (mc_http2 get_ctx) (new_metrics_collector 1 0))"
proof -
  have "length (fixed_text 1 (ms_double 1500)) \<le> 10"
    by code_simp
  moreover have "length (u64_text 5) \<le> 20" "length (int_text 200) \<le> 20"
    by code_simp+
  ultimately have "length (request_line an_env get_ctx 200 5 1500) \<le> 511"
    by (simp add: request_line_def get_ctx_def an_env_def printed_str_def)
  moreover have "mc_pool get_ctx" "gw_collector quiet_world = Some (new_metrics_collector 1 0)"
    by (simp_all add: get_ctx_def quiet_world_def)
  ultimately show ?thesis
    using requests_are_recorded [of get_ctx an_env 200 5 1500 quiet_world "new_metrics_collector 1 0" None 0] by blast
qed

text \<open>A longer line makes the logging middleware read past the end of its buffer.\<close>

lemma long_request_line_overreads:
  assumes "mc_pool c" and "512 < length (request_line env c status sent us)"
  shows "ExecutePostSync (configured_middleware env collector) c status sent us wid w = None"
  using assms by (auto simp: configured_post MetricsPost_def LoggingPost_def Let_def)

end
