(* ===== verification/Rpc.thy ===== *)
theory Rpc
  imports Web_Prelude
begin

text \<open>
  The RPC module (\<^verbatim>\<open>rpc/\<close>): service discovery, least-connections load balancing, the retry policy,
  the channel cache and the module object that ties them together. Points in time are
  milliseconds of the system clock; a channel is what the bridge to gRPC creates for a target,
  a parameter of the model.
\<close>

section \<open>Service instances\<close>

record ServiceInstance =
  si_service_name :: string
  si_address :: string
  si_weight :: int
  si_healthy :: bool
  si_last_heartbeat :: int

section \<open>Load balancing\<close>

text \<open>\<open>counts\<close> is a \<^verbatim>\<open>std::map\<close>: reading a missing address through \<^verbatim>\<open>operator[]\<close> inserts zero.\<close>

record LoadBalancer =
  lb_counts :: "string \<rightharpoonup> int"
  lb_unhealthy_until :: "string \<rightharpoonup> int"

definition new_load_balancer :: LoadBalancer where
  "new_load_balancer = \<lparr> lb_counts = Map.empty, lb_unhealthy_until = Map.empty \<rparr>"

definition conn_count :: "LoadBalancer \<Rightarrow> string \<Rightarrow> int" where
  "conn_count lb addr = (case lb_counts lb addr of None \<Rightarrow> 0 | Some n \<Rightarrow> n)"

definition touch :: "string \<Rightarrow> LoadBalancer \<Rightarrow> LoadBalancer" where
  "touch addr lb = lb\<lparr> lb_counts := (lb_counts lb)(addr \<mapsto> conn_count lb addr) \<rparr>"

definition IsHealthy :: "int \<Rightarrow> LoadBalancer \<Rightarrow> string \<Rightarrow> bool" where
  "IsHealthy now lb addr = (case lb_unhealthy_until lb addr of None \<Rightarrow> True | Some t \<Rightarrow> t < now)"

primrec select_loop :: "ServiceInstance list \<Rightarrow> ServiceInstance \<Rightarrow> int \<Rightarrow> LoadBalancer \<Rightarrow> ServiceInstance \<times> LoadBalancer" where
  "select_loop [] best best_count lb = (best, lb)"
| "select_loop (inst # insts) best best_count lb =
     (let count = conn_count lb (si_address inst); lb1 = touch (si_address inst) lb
      in if count < best_count then select_loop insts inst count lb1
         else select_loop insts best best_count lb1)"

definition SelectInstance :: "int \<Rightarrow> ServiceInstance list \<Rightarrow> LoadBalancer \<Rightarrow> ServiceInstance option \<times> LoadBalancer" where
  "SelectInstance now instances lb =
     (if instances = [] then (None, lb)
      else case filter (\<lambda>inst. si_healthy inst \<and> IsHealthy now lb (si_address inst)) instances of
             [] \<Rightarrow> (None, lb)
           | best # rest \<Rightarrow>
               (case select_loop (best # rest) best (conn_count lb (si_address best)) (touch (si_address best) lb) of
                  (inst, lb') \<Rightarrow> (Some inst, lb')))"

definition RecordConnectionOpen :: "string \<Rightarrow> LoadBalancer \<Rightarrow> LoadBalancer" where
  "RecordConnectionOpen addr lb = lb\<lparr> lb_counts := (lb_counts lb)(addr \<mapsto> conn_count lb addr + 1) \<rparr>"

definition RecordConnectionClose :: "string \<Rightarrow> LoadBalancer \<Rightarrow> LoadBalancer" where
  "RecordConnectionClose addr lb =
     (let lb1 = touch addr lb
      in if 0 < conn_count lb1 addr
         then lb1\<lparr> lb_counts := (lb_counts lb1)(addr \<mapsto> conn_count lb1 addr - 1) \<rparr> else lb1)"

definition MarkUnhealthy :: "int \<Rightarrow> string \<Rightarrow> int \<Rightarrow> LoadBalancer \<Rightarrow> LoadBalancer" where
  "MarkUnhealthy now addr timeout_sec lb =
     lb\<lparr> lb_unhealthy_until := (lb_unhealthy_until lb)(addr \<mapsto> now + timeout_sec * 1000) \<rparr>"

section \<open>Retries\<close>

datatype RetryAction = SUCCESS | RETRY_SAME | RETRY_OTHER | FAIL

definition DecideRetry :: "int \<Rightarrow> int \<Rightarrow> int \<Rightarrow> RetryAction" where
  "DecideRetry status_code retry_count max_retries =
     (if max_retries \<le> retry_count then FAIL
      else if status_code = 500 then RETRY_OTHER
      else if status_code = 300 then RETRY_SAME
      else FAIL)"

text \<open>
  \<^verbatim>\<open>100 << retry_count\<close> on a 32-bit \<^verbatim>\<open>int\<close>, defined for shifts by 0 to 31 and computed modulo
  \<open>2 ^ 32\<close>; \<open>None\<close> is a shift by any other amount.
\<close>

definition GetBackoffDelayMs :: "int \<Rightarrow> int option" where
  "GetBackoffDelayMs retry_count =
     (if retry_count < 0 \<or> 31 < retry_count then None
      else Some (min (sint (push_bit (nat retry_count) 100 :: u32)) 5000))"

section \<open>Discovery, channels and the module\<close>

record ServiceDiscovery =
  sd_consul_addr :: string
  sd_cache :: "string \<rightharpoonup> ServiceInstance list"
  sd_running :: bool
  sd_watched :: "string list"

definition new_service_discovery :: ServiceDiscovery where
  "new_service_discovery = \<lparr> sd_consul_addr = [], sd_cache = Map.empty, sd_running = False, sd_watched = [] \<rparr>"

definition Connect :: "string \<Rightarrow> ServiceDiscovery \<Rightarrow> bool \<times> ServiceDiscovery" where
  "Connect consul_addr sd = (True, sd\<lparr> sd_consul_addr := consul_addr, sd_running := True \<rparr>)"

definition QueryConsul :: "string \<Rightarrow> ServiceInstance list" where
  "QueryConsul service_name =
     (let inst = (\<lambda>name addr. [\<lparr> si_service_name = name, si_address = addr, si_weight = 1, si_healthy = True,
                                si_last_heartbeat = 0 \<rparr>])
      in if service_name = ''ai-chat'' then inst ''ai-chat'' ''127.0.0.1:50051''
         else if service_name = ''rag'' then inst ''rag'' ''127.0.0.1:50052''
         else if service_name = ''ppt'' then inst ''ppt'' ''127.0.0.1:50053''
         else [])"

definition WatchService :: "string \<Rightarrow> ServiceDiscovery \<Rightarrow> ServiceDiscovery" where
  "WatchService service_name sd = sd\<lparr> sd_watched := sd_watched sd @ [service_name] \<rparr>"

text \<open>One round of the thread that watches a service.\<close>

definition watch_round :: "string \<Rightarrow> ServiceDiscovery \<Rightarrow> ServiceDiscovery" where
  "watch_round service_name sd =
     (if sd_running sd \<and> service_name \<in> set (sd_watched sd)
      then sd\<lparr> sd_cache := (sd_cache sd)(service_name \<mapsto> QueryConsul service_name) \<rparr> else sd)"

definition GetInstances :: "string \<Rightarrow> ServiceDiscovery \<Rightarrow> ServiceInstance list" where
  "GetInstances service_name sd = (case sd_cache sd service_name of None \<Rightarrow> [] | Some is \<Rightarrow> is)"

type_synonym 'ch channel_pool = "string \<rightharpoonup> 'ch"

definition PoolGetChannel :: "(string \<Rightarrow> 'ch) \<Rightarrow> string \<Rightarrow> 'ch channel_pool \<Rightarrow> 'ch \<times> 'ch channel_pool" where
  "PoolGetChannel CreateChannel target channels =
     (case channels target of
        Some ch \<Rightarrow> (ch, channels)
      | None \<Rightarrow> let ch = CreateChannel target in (ch, channels(target \<mapsto> ch)))"

text \<open>Null pointers are \<open>None\<close>. The result of \<open>GetChannel\<close> is \<open>NullDeref\<close> where the code calls through one.\<close>

record 'ch RpcModule =
  rm_discovery :: "ServiceDiscovery option"
  rm_balancer :: "LoadBalancer option"
  rm_channel_pool :: "'ch channel_pool option"

definition new_rpc_module :: "'ch RpcModule" where
  "new_rpc_module = \<lparr> rm_discovery = None, rm_balancer = None, rm_channel_pool = None \<rparr>"

definition Initialize :: "string \<Rightarrow> 'ch RpcModule \<Rightarrow> bool \<times> 'ch RpcModule" where
  "Initialize consul_addr m =
     (case Connect consul_addr new_service_discovery of (ok, sd) \<Rightarrow>
        let m1 = m\<lparr> rm_discovery := Some sd, rm_balancer := Some new_load_balancer \<rparr>
        in if \<not> ok then (False, m1)
           else (True, m1\<lparr> rm_discovery :=
                  Some (WatchService ''ppt'' (WatchService ''rag'' (WatchService ''ai-chat'' sd))) \<rparr>))"

datatype 'ch channel_result = NullDeref | NoInstance | Channel 'ch

definition GetChannel ::
  "(string \<Rightarrow> 'ch) \<Rightarrow> int \<Rightarrow> string \<Rightarrow> 'ch RpcModule \<Rightarrow> 'ch channel_result \<times> 'ch RpcModule" where
  "GetChannel CreateChannel now service_name m =
     (case (rm_discovery m, rm_balancer m) of
        (Some sd, Some lb) \<Rightarrow>
          (case SelectInstance now (GetInstances service_name sd) lb of
             (None, lb') \<Rightarrow> (NoInstance, m\<lparr> rm_balancer := Some lb' \<rparr>)
           | (Some inst, lb') \<Rightarrow>
               (case rm_channel_pool m of
                  None \<Rightarrow> (NullDeref, m\<lparr> rm_balancer := Some lb' \<rparr>)
                | Some pool \<Rightarrow>
                    (case PoolGetChannel CreateChannel (si_address inst) pool of
                       (ch, pool') \<Rightarrow>
                         (Channel ch, m\<lparr> rm_balancer := Some lb', rm_channel_pool := Some pool' \<rparr>))))
      | _ \<Rightarrow> (NullDeref, m))"

section \<open>Least connections\<close>

lemma touch_count [simp]: "conn_count (touch a lb) b = conn_count lb b"
  by (simp add: touch_def conn_count_def)

lemma touch_unhealthy [simp]: "lb_unhealthy_until (touch a lb) = lb_unhealthy_until lb"
  by (simp add: touch_def)

lemma select_loop_least:
  assumes "select_loop insts best (conn_count lb (si_address best)) lb = (r, lb')"
  shows "r \<in> set (best # insts)
    \<and> (\<forall>i \<in> set (best # insts). conn_count lb (si_address r) \<le> conn_count lb (si_address i))
    \<and> conn_count lb' = conn_count lb \<and> lb_unhealthy_until lb' = lb_unhealthy_until lb"
  using assms
proof (induction insts arbitrary: best lb)
  case (Cons i insts)
  let ?lb = "touch (si_address i) lb" and ?b = "if conn_count lb (si_address i) < conn_count lb (si_address best) then i else best"
  have "select_loop insts ?b (conn_count ?lb (si_address ?b)) ?lb = (r, lb')"
    using Cons.prems by (auto simp: Let_def split: if_splits)
  from Cons.IH [OF this] show ?case
    by (auto simp: fun_eq_iff split: if_splits)
qed (auto simp: fun_eq_iff)

text \<open>The load balancer returns an instance exactly when one of the instances is healthy and not
  quarantined; the one it returns is such an instance, and none of them has fewer open
  connections. Selecting changes neither the connection counts nor the quarantine.\<close>

theorem selects_least_loaded:
  assumes "SelectInstance now instances lb = (r, lb')"
  shows "(r = None \<longleftrightarrow> (\<forall>i \<in> set instances. \<not> (si_healthy i \<and> IsHealthy now lb (si_address i))))
    \<and> (\<forall>inst. r = Some inst \<longrightarrow> inst \<in> set instances \<and> si_healthy inst \<and> IsHealthy now lb (si_address inst)
      \<and> (\<forall>i \<in> set instances. si_healthy i \<and> IsHealthy now lb (si_address i) \<longrightarrow>
            conn_count lb (si_address inst) \<le> conn_count lb (si_address i)))
    \<and> conn_count lb' = conn_count lb \<and> lb_unhealthy_until lb' = lb_unhealthy_until lb"
proof -
  define hs where "hs = filter (\<lambda>i. si_healthy i \<and> IsHealthy now lb (si_address i)) instances"
  have hs_set: "i \<in> set hs \<longleftrightarrow> i \<in> set instances \<and> si_healthy i \<and> IsHealthy now lb (si_address i)" for i
    by (auto simp: hs_def)
  consider "hs = []" "r = None" "lb' = lb"
    | best rest inst' where "hs = best # rest" "r = Some inst'"
      "select_loop (best # rest) best (conn_count (touch (si_address best) lb) (si_address best))
         (touch (si_address best) lb) = (inst', lb')"
    using assms hs_def by (fastforce simp: SelectInstance_def split: if_splits list.splits prod.splits)
  then have "(r = None \<longleftrightarrow> hs = []) \<and> (\<forall>inst. r = Some inst \<longrightarrow> inst \<in> set hs
      \<and> (\<forall>i \<in> set hs. conn_count lb (si_address inst) \<le> conn_count lb (si_address i)))
    \<and> conn_count lb' = conn_count lb \<and> lb_unhealthy_until lb' = lb_unhealthy_until lb"
  proof cases
    case 2
    from select_loop_least [OF 2(3)] show ?thesis
      by (auto simp: 2(1,2) fun_eq_iff)
  qed auto
  with hs_set show ?thesis
    by (auto simp: hs_def filter_empty_conv)
qed

definition chat_instances :: "ServiceInstance list" where
  "chat_instances =
     [\<lparr> si_service_name = ''ai-chat'', si_address = ''127.0.0.1:50051'', si_weight = 1, si_healthy = True, si_last_heartbeat = 0 \<rparr>,
      \<lparr> si_service_name = ''ai-chat'', si_address = ''127.0.0.1:50052'', si_weight = 1, si_healthy = True, si_last_heartbeat = 0 \<rparr>]"

theorem selects_least_loaded_witness:
  "fst (SelectInstance 0 chat_instances (RecordConnectionOpen ''127.0.0.1:50051'' new_load_balancer)) \<noteq> None"
proof -
  let ?lb = "RecordConnectionOpen ''127.0.0.1:50051'' new_load_balancer"
  obtain r lb' where s: "SelectInstance 0 chat_instances ?lb = (r, lb')"
    by fastforce
  then show ?thesis
    using selects_least_loaded [OF s]
    by (simp add: chat_instances_def RecordConnectionOpen_def new_load_balancer_def IsHealthy_def)
qed

section \<open>Retries and channels\<close>

text \<open>The delay before a retry doubles from 100 ms up to the limit of five seconds for the first 25
  attempts; for the next one the shift leaves the range of \<^verbatim>\<open>int\<close> and the delay is negative.\<close>

theorem backoff_delay:
  "(\<forall>n \<le> 24. GetBackoffDelayMs (int n) = Some (min (100 * 2 ^ n) 5000))
    \<and> GetBackoffDelayMs 25 = Some (-939524096)"
proof (intro conjI)
  have "list_all (\<lambda>n. GetBackoffDelayMs (int n) = Some (min (100 * 2 ^ n) 5000)) [0..<25]"
    by code_simp
  then show "\<forall>n \<le> 24. GetBackoffDelayMs (int n) = Some (min (100 * 2 ^ n) 5000)"
    by (simp add: list_all_iff)
  show "GetBackoffDelayMs 25 = Some (-939524096)"
    by code_simp
qed

theorem backoff_delay_witness: "GetBackoffDelayMs (int 3) = Some 800"
  using conjunct1 [OF backoff_delay, rule_format, of 3] by simp

text \<open>Once its watch has run, asking the initialised module for a channel to any of the three
  services it watches calls through the channel pool pointer that \<open>Initialize\<close> never sets.\<close>

theorem get_channel_null:
  assumes "name \<in> {''ai-chat'', ''rag'', ''ppt''}" and "Initialize addr new_rpc_module = (ok, m)"
    and "rm_discovery m = Some sd"
  shows "fst (GetChannel CreateChannel now name (m\<lparr> rm_discovery := Some (watch_round name sd) \<rparr>)) = NullDeref"
proof -
  have "GetInstances name (watch_round name sd) = QueryConsul name"
    using assms by (auto simp: Initialize_def Connect_def WatchService_def new_service_discovery_def
        watch_round_def GetInstances_def)
  moreover obtain inst where "QueryConsul name = [inst]" "si_healthy inst"
    using assms(1) by (auto simp: QueryConsul_def)
  moreover have "rm_balancer m = Some new_load_balancer" "rm_channel_pool m = None"
    using assms(2) by (auto simp: Initialize_def Connect_def new_rpc_module_def)
  ultimately show ?thesis
    by (simp add: GetChannel_def SelectInstance_def IsHealthy_def new_load_balancer_def split: prod.splits)
qed

theorem get_channel_null_witness:
  "\<exists>m sd. Initialize ''127.0.0.1:8500'' new_rpc_module = (True, m) \<and>
     fst (GetChannel (\<lambda>target. length target) 0 ''rag'' (m\<lparr> rm_discovery := Some (watch_round ''rag'' sd) \<rparr>)) = NullDeref"
proof -
  obtain m sd where m: "Initialize ''127.0.0.1:8500'' (new_rpc_module :: nat RpcModule) = (True, m)" "rm_discovery m = Some sd"
    by (simp add: Initialize_def Connect_def)
  have "fst (GetChannel (\<lambda>target. length target) 0 ''rag'' (m\<lparr> rm_discovery := Some (watch_round ''rag'' sd) \<rparr>)) = NullDeref"
    by (rule get_channel_null [OF _ m]) simp
  with m(1) show ?thesis
    by blast
qed

end
