(* ===== verification/Plugins.thy ===== *)
theory Plugins
  imports Router Region "HOL-Library.AList"
begin

text \<open>
  Handlers loaded at run time: the loader (\<^verbatim>\<open>handler/loader.hpp\<close>, \<^verbatim>\<open>loader.cpp\<close>), the hot reloader
  (\<^verbatim>\<open>handler/reloader.hpp\<close>, \<^verbatim>\<open>reloader.cpp\<close>) and their use in \<^verbatim>\<open>main.cpp\<close>. The dynamic linker is a
  table of reference counts; a library is mapped as long as its count is positive. The file
  system, the libraries found in it and what their \<^verbatim>\<open>register_routes\<close> does are an environment,
  which may be another one at every step. A handler carries the library its code is in, so
  that calling (or destroying) it is safe exactly when that library is mapped.
\<close>

section \<open>The dynamic linker and the environment\<close>

type_synonym handle = nat
type_synonym linker = "handle \<Rightarrow> nat"

text \<open>A handler: the library of its code (\<open>None\<close> for the program itself) and its identity.\<close>

type_synonym 'x plug_handler = "handle option \<times> 'x"

datatype reg_outcome = Returned | Threw_std | Threw_other

text \<open>What a call of \<^verbatim>\<open>register_routes\<close> does: the routes it adds until it returns or throws.\<close>

record 'x plugin =
  plug_routes :: "'x registration list"
  plug_outcome :: reg_outcome

record 'x plug_env =
  dir_entries :: "string \<Rightarrow> string list option"
  file_mtime :: "string \<Rightarrow> int option"
  object_at :: "string \<Rightarrow> handle option"
  copy_ok :: "string \<Rightarrow> string \<Rightarrow> bool"
  register_routes :: "handle \<Rightarrow> 'x plugin option"
  watch_ok :: "string \<Rightarrow> bool"

definition dlopen :: "'x plug_env \<Rightarrow> string \<Rightarrow> linker \<Rightarrow> handle option \<times> linker" where
  "dlopen e path l =
     (case object_at e path of None \<Rightarrow> (None, l) | Some h \<Rightarrow> (Some h, l(h := l h + 1)))"

definition dlclose :: "handle \<Rightarrow> linker \<Rightarrow> linker" where
  "dlclose h l = l(h := l h - 1)"

definition call_register ::
  "handle \<Rightarrow> 'x plugin \<Rightarrow> 'x plug_handler router \<Rightarrow> 'x plug_handler router option" where
  "call_register h p r = register_all (map (map_registration (Pair (Some h))) (plug_routes p)) r"

text \<open>\<^verbatim>\<open>path::extension()\<close> of a file name: from its last dot on, unless that is its first character.\<close>

definition extension :: "string \<Rightarrow> string" where
  "extension name =
     (let tail = takeWhile (\<lambda>c. c \<noteq> CHR ''.'') (rev name)
      in if length tail = length name \<or> length tail + 1 = length name \<or> name = ''..'' then []
         else CHR ''.'' # rev tail)"

definition so_paths :: "string \<Rightarrow> string list \<Rightarrow> string list" where
  "so_paths dir names = map (\<lambda>n. dir @ ''/'' @ n) (filter (\<lambda>n. extension n = ''.so'') names)"

text \<open>
  The state: the linker, the router, the libraries of the loader, and the reloader's
  table, list of old handles and version counter. Two things end the process: an exception
  that leaves the watching thread (or \<^verbatim>\<open>main\<close>), and undefined behaviour in the router.
\<close>

datatype plug_error = Terminated | Router_undefined

record 'x plug_state =
  counts :: linker
  plug_router :: "'x plug_handler router"
  libs :: "(handle \<times> string) list"
  loaded :: "(string \<times> handle option \<times> int) list"
  stale_handles :: "handle list"
  version :: u64

type_synonym 'x plug_result = "plug_error + 'x plug_state"

definition and_then :: "'e + 'a \<Rightarrow> ('a \<Rightarrow> 'e + 'b) \<Rightarrow> 'e + 'b" where
  "and_then x f = (case x of Inl e \<Rightarrow> Inl e | Inr y \<Rightarrow> f y)"

primrec each :: "('a \<Rightarrow> 's \<Rightarrow> 'e + 's) \<Rightarrow> 'a list \<Rightarrow> 's \<Rightarrow> 'e + 's" where
  "each f [] s = Inr s"
| "each f (a # as) s = and_then (f a s) (each f as)"

section \<open>HandlerLoader\<close>

definition load_library :: "'x plug_env \<Rightarrow> string \<Rightarrow> 'x plug_state \<Rightarrow> 'x plug_result" where
  "load_library e path s =
     (case dlopen e path (counts s) of
        (None, l) \<Rightarrow> Inr s
      | (Some h, l) \<Rightarrow>
          (case register_routes e h of
             None \<Rightarrow> Inr (s\<lparr> counts := dlclose h l \<rparr>)
           | Some p \<Rightarrow>
               (case call_register h p (plug_router s) of
                  None \<Rightarrow> Inl Router_undefined
                | Some r \<Rightarrow>
                    (case plug_outcome p of
                       Threw_other \<Rightarrow> Inl Terminated
                     | Threw_std \<Rightarrow> Inr (s\<lparr> counts := dlclose h l, plug_router := r \<rparr>)
                     | Returned \<Rightarrow>
                         Inr (s\<lparr> counts := l, plug_router := r, libs := libs s @ [(h, path)] \<rparr>)))))"

text \<open>The number of libraries loaded is the growth of \<open>libs\<close>.\<close>

definition LoadAll :: "'x plug_env \<Rightarrow> string \<Rightarrow> 'x plug_state \<Rightarrow> plug_error + nat \<times> 'x plug_state" where
  "LoadAll e dir s =
     (case dir_entries e dir of
        None \<Rightarrow> Inr (0, s)
      | Some names \<Rightarrow>
          and_then (each (load_library e) (so_paths dir names) s)
            (\<lambda>s'. Inr (length (libs s') - length (libs s), s')))"

definition UnloadAll :: "'x plug_state \<Rightarrow> 'x plug_state" where
  "UnloadAll s = s\<lparr> counts := fold (\<lambda>(h, _). dlclose h) (libs s) (counts s), libs := [] \<rparr>"

definition ReleaseHandles :: "'x plug_state \<Rightarrow> 'x plug_state" where
  "ReleaseHandles s = s\<lparr> libs := [] \<rparr>"

section \<open>HotReloader\<close>

definition stale_after :: "string \<Rightarrow> 'x plug_state \<Rightarrow> handle list" where
  "stale_after path s =
     (case map_of (loaded s) path of
        Some (Some h, _) \<Rightarrow> stale_handles s @ [h]
      | _ \<Rightarrow> stale_handles s)"

definition Reload :: "'x plug_env \<Rightarrow> string \<Rightarrow> 'x plug_state \<Rightarrow> 'x plug_result" where
  "Reload e path s =
     (let tmp = path @ ''.reload.'' @ uint_text (unat (version s));
          s = s\<lparr> version := version s + 1 \<rparr>
      in if \<not> copy_ok e path tmp then Inr s
         else (case dlopen e tmp (counts s) of
           (None, l) \<Rightarrow> Inr s
         | (Some h, l) \<Rightarrow>
             (case register_routes e h of
                None \<Rightarrow> Inr (s\<lparr> counts := dlclose h l \<rparr>)
              | Some p \<Rightarrow>
                  (case call_register h p (plug_router s) of
                     None \<Rightarrow> Inl Router_undefined
                   | Some r \<Rightarrow>
                       (case plug_outcome p of
                          Threw_other \<Rightarrow> Inl Terminated
                        | Threw_std \<Rightarrow> Inr (s\<lparr> counts := dlclose h l, plug_router := r \<rparr>)
                        | Returned \<Rightarrow>
                            (case file_mtime e path of
                               None \<Rightarrow> Inl Terminated
                             | Some t \<Rightarrow>
                                 Inr (s\<lparr> counts := l, plug_router := r,
                                         stale_handles := stale_after path s,
                                         loaded := AList.update path (Some h, t) (loaded s) \<rparr>)))))))"

text \<open>
  The first pass of \<open>WatchLoop\<close>: every library already there is opened once more, without
  registering anything.
\<close>

definition first_load :: "'x plug_env \<Rightarrow> string \<Rightarrow> 'x plug_state \<Rightarrow> 'x plug_result" where
  "first_load e path s =
     (case file_mtime e path of
        None \<Rightarrow> Inl Terminated
      | Some t \<Rightarrow>
          (case dlopen e path (counts s) of
             (h, l) \<Rightarrow> Inr (s\<lparr> counts := l, loaded := AList.update path (h, t) (loaded s) \<rparr>)))"

definition first_scan :: "'x plug_env \<Rightarrow> string \<Rightarrow> 'x plug_state \<Rightarrow> 'x plug_result" where
  "first_scan e dir s =
     (case dir_entries e dir of
        None \<Rightarrow> Inr s
      | Some names \<Rightarrow> if \<not> watch_ok e dir then Inr s else each (first_load e) (so_paths dir names) s)"

definition unchanged :: "'x plug_state \<Rightarrow> string \<Rightarrow> int \<Rightarrow> bool" where
  "unchanged s path t \<longleftrightarrow> (case map_of (loaded s) path of None \<Rightarrow> False | Some (_, t') \<Rightarrow> t' = t)"

definition check_file :: "'x plug_env \<Rightarrow> string \<Rightarrow> 'x plug_state \<Rightarrow> 'x plug_result" where
  "check_file e path s =
     (case file_mtime e path of
        None \<Rightarrow> Inl Terminated
      | Some t \<Rightarrow> if unchanged s path t then Inr s else Reload e path s)"

definition check_dir :: "'x plug_env \<Rightarrow> string \<Rightarrow> 'x plug_state \<Rightarrow> 'x plug_result" where
  "check_dir e dir s =
     (case dir_entries e dir of
        None \<Rightarrow> Inr s
      | Some names \<Rightarrow> each (check_file e) (so_paths dir names) s)"

text \<open>
  An \<^verbatim>\<open>inotify_event\<close>: the mask and the \<open>len\<close> bytes of the name, padding included.
\<close>

record inotify_event =
  ev_mask :: u32
  ev_name :: string

definition IN_CLOSE_WRITE :: u32 where "IN_CLOSE_WRITE = 0x8"
definition IN_MOVED_TO :: u32 where "IN_MOVED_TO = 0x80"
definition IN_CREATE :: u32 where "IN_CREATE = 0x100"

definition suffix_of :: "nat \<Rightarrow> string \<Rightarrow> string" where
  "suffix_of n s = drop (length s - n) s"

fun event_dirs :: "'x plug_env \<Rightarrow> string list \<Rightarrow> string \<Rightarrow> 'x plug_state \<Rightarrow> 'x plug_result" where
  "event_dirs e [] name s = Inr s"
| "event_dirs e (dir # dirs) name s =
     (let path = dir @ ''/'' @ name
      in case file_mtime e path of
           None \<Rightarrow> event_dirs e dirs name s
         | Some t \<Rightarrow>
             if unchanged s path t then event_dirs e dirs name s else Reload e path s)"

definition handle_event :: "'x plug_env \<Rightarrow> string list \<Rightarrow> inotify_event \<Rightarrow> 'x plug_state \<Rightarrow> 'x plug_result" where
  "handle_event e dirs ev s =
     (let name = ev_name ev
      in if name = [] \<or> ev_mask ev AND (IN_CLOSE_WRITE OR IN_MOVED_TO OR IN_CREATE) = 0 then Inr s
         else if length name < 3 \<or> suffix_of 3 name \<noteq> ''.so''
                 \<or> (4 < length name \<and> suffix_of 4 name = ''.tmp'') then Inr s
         else event_dirs e dirs name s)"

text \<open>What a round of the event loop sees: the result of \<^verbatim>\<open>poll\<close>, and of what follows it.\<close>

datatype poll_result =
    Poll_failed bool
  | Poll_timeout
  | Poll_ready "inotify_event list option"

definition reload_round ::
  "string list \<Rightarrow> 'x plug_env \<Rightarrow> poll_result \<Rightarrow> u64 \<times> 'x plug_state \<Rightarrow> plug_error + bool \<times> u64 \<times> 'x plug_state" where
  "reload_round dirs e ret st =
     (let tick = fst st + 1; s = snd st
      in case ret of
           Poll_failed reinit \<Rightarrow> Inr (reinit, tick, s)
         | Poll_timeout \<Rightarrow>
             if tick mod 5 = 0 then
               and_then (each (check_dir e) dirs s) (\<lambda>s'. Inr (True, tick, s'))
             else Inr (True, tick, s)
         | Poll_ready None \<Rightarrow> Inr (True, tick, s)
         | Poll_ready (Some evs) \<Rightarrow>
             and_then (each (handle_event e dirs) evs s) (\<lambda>s'. Inr (True, tick, s')))"

fun reload_rounds ::
  "string list \<Rightarrow> ('x plug_env \<times> poll_result) list \<Rightarrow> u64 \<times> 'x plug_state \<Rightarrow> 'x plug_result" where
  "reload_rounds dirs [] st = Inr (snd st)"
| "reload_rounds dirs ((e, ret) # rs) st =
     and_then (reload_round dirs e ret st)
       (\<lambda>(go, st'). if go then reload_rounds dirs rs st' else Inr (snd st'))"

definition WatchLoop ::
  "string list \<Rightarrow> bool \<Rightarrow> 'x plug_env \<Rightarrow> ('x plug_env \<times> poll_result) list \<Rightarrow> 'x plug_state \<Rightarrow> 'x plug_result" where
  "WatchLoop dirs init_ok e rounds s =
     (if \<not> init_ok then Inr s
      else and_then (each (first_scan e) dirs s) (\<lambda>s'. reload_rounds dirs rounds (0, s')))"

text \<open>The destructor, after \<open>Stop\<close> has joined the thread.\<close>

definition open_handles :: "'x plug_state \<Rightarrow> handle list" where
  "open_handles s = stale_handles s @ List.map_filter (fst \<circ> snd) (loaded s)"

definition HotReloader_dtor :: "'x plug_state \<Rightarrow> 'x plug_state" where
  "HotReloader_dtor s =
     s\<lparr> counts := fold dlclose (open_handles s) (counts s), stale_handles := [], loaded := [] \<rparr>"

section \<open>The plugins of the server\<close>

definition handler_dirs :: "string list" where
  "handler_dirs = [''./build/handlers'', ''./handlers'']"

definition main_loads :: "'x plug_env \<Rightarrow> 'x plug_state \<Rightarrow> 'x plug_result" where
  "main_loads e s =
     and_then (LoadAll e ''./build/handlers'' s) (\<lambda>(_, s1).
       and_then (LoadAll e ''./handlers'' s1) (\<lambda>(_, s2). Inr (ReleaseHandles s2)))"

definition plugins_start :: "'x plug_handler router \<Rightarrow> 'x plug_state" where
  "plugins_start r =
     \<lparr> counts = (\<lambda>_. 0), plug_router = r, libs = [], loaded = [], stale_handles = [], version = 0 \<rparr>"

definition main_plugins ::
  "'x plug_env \<Rightarrow> bool \<Rightarrow> 'x plug_env \<Rightarrow> ('x plug_env \<times> poll_result) list \<Rightarrow> 'x plug_handler router \<Rightarrow> 'x plug_result" where
  "main_plugins e0 init_ok e rounds r =
     and_then (main_loads e0 (plugins_start r)) (WatchLoop handler_dirs init_ok e rounds)"

section \<open>Sequences of fallible steps\<close>



lemma and_then_Inr [simp]: "and_then x f = Inr y \<longleftrightarrow> (\<exists>z. x = Inr z \<and> f z = Inr y)"
  by (simp add: and_then_def split: sum.splits)

text \<open>A property every step keeps is kept by the whole loop.\<close>

locale kept_by =
  fixes step :: "'a \<Rightarrow> 's \<Rightarrow> 'e + 's" and good :: "'a \<Rightarrow> bool" and inv :: "'s \<Rightarrow> bool"
  assumes step_keeps: "good a \<Longrightarrow> step a s = Inr s' \<Longrightarrow> inv s \<Longrightarrow> inv s'"
begin

lemma each_keeps: "each step as s = Inr s' \<Longrightarrow> (\<And>a. a \<in> set as \<Longrightarrow> good a) \<Longrightarrow> inv s \<Longrightarrow> inv s'"
proof (induction as arbitrary: s)
  case (Cons a as)
  then obtain s1 where "step a s = Inr s1" "each step as s1 = Inr s'"
    by auto
  moreover from this have "inv s1"
    using Cons.prems step_keeps [of a s s1] by simp
  ultimately show ?case
    using Cons by simp
qed simp

end

section \<open>Libraries stay mapped\<close>

definition loaded_handles :: "(string \<times> handle option \<times> int) list \<Rightarrow> handle list" where
  "loaded_handles xs = List.map_filter (fst \<circ> snd) xs"

definition opt_list :: "'a option \<Rightarrow> 'a list" where
  "opt_list x = (case x of None \<Rightarrow> [] | Some a \<Rightarrow> [a])"

lemma open_handles_alt: "open_handles s = stale_handles s @ loaded_handles (loaded s)"
  by (simp add: open_handles_def loaded_handles_def)

lemma loaded_handles_simps [simp]:
  "loaded_handles [] = []"
  "loaded_handles ((k, h, t) # xs) = opt_list h @ loaded_handles xs"
  by (simp_all add: loaded_handles_def List.map_filter_def opt_list_def split: option.splits)

lemma mset_loaded_update:
  "mset (loaded_handles (AList.update k (h, t) xs))
     + mset (case map_of xs k of Some (h', _) \<Rightarrow> opt_list h' | None \<Rightarrow> [])
   = mset (loaded_handles xs) + mset (opt_list h)"
  by (induction xs) auto

lemma mset_stale_after:
  "mset (stale_after k s) =
     mset (stale_handles s) + mset (case map_of (loaded s) k of Some (h', _) \<Rightarrow> opt_list h' | None \<Rightarrow> [])"
  by (auto simp: stale_after_def opt_list_def split: option.splits)

text \<open>
  The invariant: every handle the program keeps is open as often as it is kept, and the
  library of every registered handler is mapped.
\<close>

definition held :: "'x plug_state \<Rightarrow> handle multiset" where
  "held s = mset (map fst (libs s)) + mset (open_handles s)"

definition handlers_mapped :: "'x plug_state \<Rightarrow> bool" where
  "handlers_mapped s \<longleftrightarrow> (\<forall>h x. (Some h, x) \<in> set (handlers (plug_router s)) \<longrightarrow> 0 < counts s h)"

definition plug_inv :: "'x plug_state \<Rightarrow> bool" where
  "plug_inv s \<longleftrightarrow> (\<forall>h. count (held s) h \<le> counts s h) \<and> handlers_mapped s"

text \<open>A library whose registration fails has registered nothing before.\<close>

definition fails_clean :: "'x plug_env \<Rightarrow> bool" where
  "fails_clean e \<longleftrightarrow>
     (\<forall>h p. register_routes e h = Some p \<longrightarrow> plug_outcome p = Threw_std \<longrightarrow> plug_routes p = [])"

lemma dlopen_some: "dlopen e path l = (Some h, l') \<Longrightarrow> l' = l(h := l h + 1)"
  by (auto simp: dlopen_def split: option.splits)

lemma dlopen_cases: "dlopen e path l = (h, l') \<Longrightarrow> l' = (\<lambda>a. l a + count (mset (opt_list h)) a)"
  by (auto simp: dlopen_def opt_list_def split: option.splits)

lemma dlclose_opened [simp]: "dlclose h (l(h := Suc (l h))) = l"
  by (simp add: dlclose_def)

lemma register_handlers:
  "register a r = Some r' \<Longrightarrow> handlers r' = handlers r @ [case a of Any _ x \<Rightarrow> x | On _ _ x \<Rightarrow> x]"
  by (cases a) (auto simp: Add_def AddRoute_def Let_def split: option.splits prod.splits)

lemma call_register_handlers:
  "call_register h p r = Some r' \<Longrightarrow>
     set (handlers r') \<subseteq> set (handlers r) \<union> {Some h} \<times> UNIV \<and> (plug_routes p = [] \<longrightarrow> r' = r)"
  unfolding call_register_def register_all_def
proof (induction "plug_routes p" arbitrary: p r)
  case (Cons a as)
  obtain r1 where r1: "register (map_registration (Pair (Some h)) a) r = Some r1"
    and rest: "run_ops register (map (map_registration (Pair (Some h))) as) r1 = Some r'"
    using Cons.prems Cons.hyps(2) [symmetric] by (auto simp: Option.bind_eq_Some_conv)
  have "set (handlers r1) \<subseteq> set (handlers r) \<union> {Some h} \<times> UNIV"
    using register_handlers [OF r1] by (cases a) auto
  moreover have "set (handlers r') \<subseteq> set (handlers r1) \<union> {Some h} \<times> UNIV"
    using Cons.hyps(1) [of "p\<lparr> plug_routes := as \<rparr>" r1] rest by simp
  ultimately show ?case
    using Cons.hyps(2) by auto
qed simp

lemma call_register_mapped:
  assumes "call_register h p (plug_router s) = Some r" and "handlers_mapped s"
    and "\<And>a. counts s a \<le> l a" and "0 < l h \<or> plug_routes p = []"
    and "(Some a, x) \<in> set (handlers r)"
  shows "0 < l a"
proof (cases "(Some a, x) \<in> set (handlers (plug_router s))")
  case True
  then have "0 < counts s a"
    using assms(2) by (auto simp: handlers_mapped_def)
  then show ?thesis
    using assms(3) [of a] by simp
next
  case False
  then show ?thesis
    using call_register_handlers [OF assms(1)] assms(4,5) by auto
qed

text \<open>Opening a library, registering its routes and keeping or closing its handle.\<close>

lemma plug_inv_step:
  assumes inv: "plug_inv s" and reg: "call_register h p (plug_router s) = Some (plug_router s')"
    and counts: "counts s' = (if closed then counts s else (counts s)(h := Suc (counts s h)))"
    and held: "held s' \<subseteq># held s + (if closed then {#} else {#h#})"
    and clean: "closed \<Longrightarrow> plug_routes p = []"
  shows "plug_inv s'"
proof -
  have "count (held s') a \<le> counts s' a" for a
    using mset_subset_eq_count [OF held, of a] inv counts
    by (auto simp: plug_inv_def split: if_splits intro: le_trans le_SucI)
  moreover have "0 < counts s' a" if "(Some a, x) \<in> set (handlers (plug_router s'))" for a x
    using call_register_mapped [OF reg _ _ _ that, of "counts s'"] inv counts clean
    by (auto simp: plug_inv_def)
  ultimately show ?thesis
    by (simp add: plug_inv_def handlers_mapped_def)
qed

lemma load_library_cases:
  assumes "load_library e path s = Inr s'"
  obtains "s' = s"
  | h p r where "register_routes e h = Some p" "call_register h p (plug_router s) = Some r"
      "plug_outcome p = Threw_std" "s' = s\<lparr> plug_router := r \<rparr>"
  | h p r where "call_register h p (plug_router s) = Some r"
      "s' = s\<lparr> counts := (counts s)(h := Suc (counts s h)), plug_router := r, libs := libs s @ [(h, path)] \<rparr>"
proof (cases "dlopen e path (counts s)")
  case (Pair h' l)
  show thesis
  proof (cases h')
    case (Some h)
    note l = dlopen_some [OF Pair [unfolded Some]]
    show thesis
    proof (cases "register_routes e h")
      case (Some p)
      then show thesis
        using assms that Pair \<open>h' = Some h\<close> l
        by (auto simp: load_library_def split: option.splits reg_outcome.splits)
    qed (use assms that(1) Pair Some l in \<open>simp add: load_library_def\<close>)
  qed (use assms that(1) Pair in \<open>simp add: load_library_def\<close>)
qed

lemma load_library_inv:
  assumes "load_library e path s = Inr s'" and "fails_clean e" and "plug_inv s"
  shows "plug_inv s'"
  using assms(1)
proof (cases rule: load_library_cases)
  case (2 h p r)
  then show ?thesis
    using plug_inv_step [of s h p s' True] assms(2,3)
    by (auto simp: fails_clean_def held_def open_handles_alt)
next
  case (3 h p r)
  then show ?thesis
    using plug_inv_step [of s h p s' False] assms(3) by (simp add: held_def open_handles_alt)
qed (use assms in simp)

lemma Reload_cases:
  assumes "Reload e path s = Inr s'"
  obtains "s' = s\<lparr> version := version s + 1 \<rparr>"
  | h p r where "register_routes e h = Some p" "call_register h p (plug_router s) = Some r"
      "plug_outcome p = Threw_std" "s' = s\<lparr> version := version s + 1, plug_router := r \<rparr>"
  | h p r t where "call_register h p (plug_router s) = Some r" "file_mtime e path = Some t"
      "s' = s\<lparr> version := version s + 1, counts := (counts s)(h := Suc (counts s h)),
              plug_router := r, stale_handles := stale_after path s,
              loaded := AList.update path (Some h, t) (loaded s) \<rparr>"
proof -
  let ?tmp = "path @ ''.reload.'' @ uint_text (unat (version s))"
  show thesis
  proof (cases "dlopen e ?tmp (counts s)")
    case (Pair h' l)
    show thesis
    proof (cases "h' = None \<or> \<not> copy_ok e path ?tmp")
      case True
      then show thesis
        using assms that(1) Pair by (auto simp: Reload_def Let_def split: if_splits)
    next
      case False
      then obtain h where h: "h' = Some h" "copy_ok e path ?tmp"
        by auto
      note l = dlopen_some [OF Pair [unfolded h(1)]]
      have stale: "stale_after path (s\<lparr> version := v \<rparr>) = stale_after path s" for v
        by (simp add: stale_after_def split: option.splits)
      show thesis
      proof (cases "register_routes e h")
        case (Some p)
        then show thesis
          using assms that Pair h l
          by (auto simp: Reload_def Let_def stale split: option.splits reg_outcome.splits)
      qed (use assms that(1) Pair h l in \<open>simp add: Reload_def Let_def\<close>)
    qed
  qed
qed

lemma Reload_inv:
  assumes "Reload e path s = Inr s'" and "fails_clean e" and "plug_inv s"
  shows "plug_inv s'"
  using assms(1)
proof (cases rule: Reload_cases)
  case (2 h p r)
  then show ?thesis
    using plug_inv_step [of s h p s' True] assms(2,3)
    by (auto simp: fails_clean_def held_def open_handles_alt)
next
  case (3 h p r t)
  have "held s' = held s + {#h#}"
    using mset_loaded_update [of path "Some h" t "loaded s"] 3(3)
    by (simp add: held_def open_handles_alt mset_stale_after opt_list_def ac_simps)
  with 3 show ?thesis
    using plug_inv_step [of s h p s' False] assms(3) by simp
qed (use assms(3) in \<open>simp add: plug_inv_def held_def open_handles_alt handlers_mapped_def\<close>)

lemma first_load_inv:
  assumes "first_load e path s = Inr s'" and "plug_inv s"
  shows "plug_inv s'"
proof -
  obtain t h l where t: "file_mtime e path = Some t" and o: "dlopen e path (counts s) = (h, l)"
    and s': "s' = s\<lparr> counts := l, loaded := AList.update path (h, t) (loaded s) \<rparr>"
    using assms(1) by (auto simp: first_load_def split: option.splits prod.splits)
  have "count (held s') a \<le> counts s' a" for a
  proof -
    have "count (mset (loaded_handles (loaded s'))) a
        \<le> count (mset (loaded_handles (loaded s))) a + count (mset (opt_list h)) a"
      using arg_cong [OF mset_loaded_update [of path h t "loaded s"], of "\<lambda>m. count m a"] s' by simp
    then show ?thesis
      using assms(2) dlopen_cases [OF o] s'
      by (auto simp: plug_inv_def held_def open_handles_alt intro: le_trans dest!: spec [of _ a])
  qed
  moreover have "handlers_mapped s'"
    using assms(2) dlopen_cases [OF o] s' by (auto simp: plug_inv_def handlers_mapped_def)
  ultimately show ?thesis
    by (simp add: plug_inv_def)
qed

interpretation loads: kept_by "load_library e" "\<lambda>_. fails_clean e" plug_inv
  by unfold_locales (rule load_library_inv)

interpretation firsts: kept_by "first_load e" "\<lambda>_. True" plug_inv
  by unfold_locales (rule first_load_inv)

lemma check_file_inv:
  "fails_clean e \<Longrightarrow> check_file e path s = Inr s' \<Longrightarrow> plug_inv s \<Longrightarrow> plug_inv s'"
  by (auto simp: check_file_def split: option.splits if_splits intro: Reload_inv)

interpretation files: kept_by "check_file e" "\<lambda>_. fails_clean e" plug_inv
  by unfold_locales (rule check_file_inv)

interpretation scans: kept_by "first_scan e" "\<lambda>_. True" plug_inv
  by unfold_locales
     (auto simp: first_scan_def split: option.splits if_splits intro: firsts.each_keeps)

interpretation dirs: kept_by "check_dir e" "\<lambda>_. fails_clean e" plug_inv
  by unfold_locales (auto simp: check_dir_def split: option.splits intro: files.each_keeps)

lemma event_dirs_inv:
  "event_dirs e ds name s = Inr s' \<Longrightarrow> fails_clean e \<Longrightarrow> plug_inv s \<Longrightarrow> plug_inv s'"
  by (induction ds) (auto simp: Let_def split: option.splits if_splits intro: Reload_inv)

interpretation events: kept_by "handle_event e ds" "\<lambda>_. fails_clean e" plug_inv
  by unfold_locales (auto simp: handle_event_def Let_def split: if_splits intro: event_dirs_inv)

lemma reload_round_inv:
  "reload_round ds e ret (n, s) = Inr (go, n', s') \<Longrightarrow> fails_clean e \<Longrightarrow> plug_inv s \<Longrightarrow> plug_inv s'"
  by (auto simp: reload_round_def Let_def split: poll_result.splits option.splits if_splits
      intro: dirs.each_keeps events.each_keeps)

lemma reload_rounds_inv:
  "reload_rounds ds rs (n, s) = Inr s' \<Longrightarrow> (\<forall>(e, _) \<in> set rs. fails_clean e) \<Longrightarrow> plug_inv s \<Longrightarrow> plug_inv s'"
proof (induction rs arbitrary: n s)
  case (Cons r rs)
  obtain e ret where r: "r = (e, ret)" by fastforce
  with Cons.prems obtain go n1 s1 where s1: "reload_round ds e ret (n, s) = Inr (go, n1, s1)"
    and rest: "(if go then reload_rounds ds rs (n1, s1) else Inr s1) = Inr s'"
    by (auto cong: if_cong)
  have "plug_inv s1"
    using reload_round_inv [OF s1] Cons.prems r by simp
  then show ?case
    using Cons rest by (auto split: if_splits)
qed simp

lemma LoadAll_inv:
  "LoadAll e dir s = Inr (n, s') \<Longrightarrow> fails_clean e \<Longrightarrow> plug_inv s \<Longrightarrow> plug_inv s'"
  by (auto simp: LoadAll_def split: option.splits intro: loads.each_keeps)

lemma ReleaseHandles_inv: "plug_inv s \<Longrightarrow> plug_inv (ReleaseHandles s)"
  by (auto simp: plug_inv_def ReleaseHandles_def held_def open_handles_alt handlers_mapped_def
      intro: add_leD2)

lemma plugins_start_inv:
  "\<forall>x \<in> set (handlers r). fst x = None \<Longrightarrow> plug_inv (plugins_start r)"
  by (force simp: plug_inv_def plugins_start_def held_def open_handles_alt handlers_mapped_def)

lemma main_loads_inv:
  "main_loads e s = Inr s' \<Longrightarrow> fails_clean e \<Longrightarrow> plug_inv s \<Longrightarrow> plug_inv s'"
  by (auto simp: main_loads_def intro!: ReleaseHandles_inv elim!: LoadAll_inv)

lemma WatchLoop_inv:
  assumes "WatchLoop ds ok e rs s = Inr s'" and "\<forall>(e, _) \<in> set rs. fails_clean e" and "plug_inv s"
  shows "plug_inv s'"
proof (cases ok)
  case True
  then obtain s1 where "each (first_scan e) ds s = Inr s1" "reload_rounds ds rs (0, s1) = Inr s'"
    using assms(1) by (auto simp: WatchLoop_def)
  then show ?thesis
    using scans.each_keeps assms(2,3) reload_rounds_inv by blast
qed (use assms in \<open>simp add: WatchLoop_def\<close>)

text \<open>As long as a library whose \<^verbatim>\<open>register_routes\<close> throws has registered nothing, every handler
  in the router keeps its code mapped, whatever is loaded at the start and reloaded later
  and whatever the environment does, and the reloader's destructor never closes a handle
  more often than it was opened.
\<close>

theorem plugin_code_stays_mapped:
  assumes "main_plugins e0 init_ok e rounds r = Inr s"
    and "\<forall>x \<in> set (handlers r). fst x = None"
    and "fails_clean e0" and "\<forall>(e, _) \<in> set rounds. fails_clean e"
  shows "(\<forall>h x. (Some h, x) \<in> set (handlers (plug_router s)) \<longrightarrow> 0 < counts s h)
    \<and> (\<forall>h. count (mset (open_handles s)) h \<le> counts s h)"
proof -
  obtain s0 where "main_loads e0 (plugins_start r) = Inr s0"
    and "WatchLoop handler_dirs init_ok e rounds s0 = Inr s"
    using assms(1) by (auto simp: main_plugins_def)
  then have "plug_inv s"
    using main_loads_inv plugins_start_inv assms WatchLoop_inv by blast
  then show ?thesis
    by (auto simp: plug_inv_def handlers_mapped_def held_def intro: add_leD2)
qed

text \<open>A library with one route, and an environment that finds it.\<close>

definition chat_plugin :: "reg_outcome \<Rightarrow> string plugin" where
  "chat_plugin out = \<lparr> plug_routes = [Any ''/chat'' ''ChatHandler''], plug_outcome = out \<rparr>"

definition chat_env :: "reg_outcome \<Rightarrow> int \<Rightarrow> string plug_env" where
  "chat_env out t =
     \<lparr> dir_entries = (\<lambda>d. if d = ''./handlers'' then Some [''chat.so'', ''notes.txt''] else None),
       file_mtime = (\<lambda>p. if p = ''./handlers/chat.so'' then Some t else None),
       object_at = (\<lambda>p. if p = ''./handlers/chat.so'' then Some 1
                        else if p = ''./handlers/chat.so.reload.0'' then Some 2 else None),
       copy_ok = (\<lambda>_ _. True),
       register_routes = (\<lambda>_. Some (chat_plugin out)),
       watch_ok = (\<lambda>_. True) \<rparr>"

definition quiet_rounds :: "string plug_env \<Rightarrow> (string plug_env \<times> poll_result) list" where
  "quiet_rounds e = replicate 5 (e, Poll_timeout)"

lemma chat_fails_clean: "fails_clean (chat_env Returned t)"
  by (simp add: fails_clean_def chat_env_def chat_plugin_def)

definition reloaded :: "string plug_state" where
  "reloaded = projr (main_plugins (chat_env Returned 1) True (chat_env Returned 1)
      (quiet_rounds (chat_env Returned 2)) new_router)"

lemma reloaded_run:
  "main_plugins (chat_env Returned 1) True (chat_env Returned 1)
     (quiet_rounds (chat_env Returned 2)) new_router = Inr reloaded"
proof -
  have "\<not> isl (main_plugins (chat_env Returned 1) True (chat_env Returned 1)
      (quiet_rounds (chat_env Returned 2)) new_router)"
    by code_simp
  then show ?thesis
    by (simp add: reloaded_def)
qed

theorem plugin_code_stays_mapped_witness:
  "handlers (plug_router reloaded) = [(Some 1, ''ChatHandler''), (Some 2, ''ChatHandler'')]
   \<and> 0 < counts reloaded 1 \<and> 0 < counts reloaded 2
   \<and> count (mset (open_handles reloaded)) 1 \<le> counts reloaded 1"
proof -
  have "\<forall>(e, _) \<in> set (quiet_rounds (chat_env Returned 2)). fails_clean e"
    by (simp add: quiet_rounds_def chat_fails_clean)
  moreover have "handlers (plug_router reloaded) = [(Some 1, ''ChatHandler''), (Some 2, ''ChatHandler'')]"
    by code_simp
  ultimately show ?thesis
    using plugin_code_stays_mapped [OF reloaded_run _ chat_fails_clean] by (auto simp: new_router_def)
qed

text \<open>
  The destructor does not keep the promise: the router is destroyed after the reloader, and by
  then the code of a reloaded handler is unmapped.
\<close>

lemma reloader_destructor_unmaps_handlers:
  "(Some 2, ''ChatHandler'') \<in> set (handlers (plug_router (HotReloader_dtor reloaded)))
   \<and> counts (HotReloader_dtor reloaded) 2 = 0"
proof -
  have "handlers (plug_router (HotReloader_dtor reloaded)) = [(Some 1, ''ChatHandler''), (Some 2, ''ChatHandler'')]"
    by code_simp
  moreover have "counts (HotReloader_dtor reloaded) 2 = 0"
    by code_simp
  ultimately show ?thesis
    by simp
qed

text \<open>
  A library that adds a route and then throws is unloaded, but its handler stays in the router.
\<close>

lemma throwing_plugin_leaves_handler:
  "\<exists>s. Reload (chat_env Threw_std 2) ''./handlers/chat.so'' (plugins_start new_router) = Inr s
     \<and> (Some 2, ''ChatHandler'') \<in> set (handlers (plug_router s)) \<and> counts s 2 = 0"
proof -
  let ?x = "Reload (chat_env Threw_std 2) ''./handlers/chat.so'' (plugins_start new_router)"
  have "\<not> isl ?x"
    by code_simp
  moreover have "handlers (plug_router (projr ?x)) = [(Some 2, ''ChatHandler'')]"
    by code_simp
  moreover have "counts (projr ?x) 2 = 0"
    by code_simp
  ultimately show ?thesis
    by (intro exI [of _ "projr ?x"]) simp
qed

section \<open>What triggers a reload\<close>

text \<open>C32. The kernel ends the name of an inotify event with a NUL byte, and the reloader keeps the
  padding in the name: such an event never passes the suffix test, so nothing is reloaded
  however many events arrive.
\<close>

theorem inotify_never_reloads:
  assumes "\<forall>ev \<in> set evs. ev_name ev \<noteq> [] \<longrightarrow> last (ev_name ev) = CHR 0x00"
  shows "reload_round ds e (Poll_ready (Some evs)) (tick, s) = Inr (True, tick + 1, s)"
proof -
  have "handle_event e ds ev s = Inr s" if "ev \<in> set evs" for ev
  proof (cases "ev_name ev = []")
    case False
    then have "last (suffix_of 3 (ev_name ev)) = CHR 0x00" if "3 \<le> length (ev_name ev)"
      using assms \<open>ev \<in> set evs\<close> that by (simp add: suffix_of_def last_drop)
    then have "length (ev_name ev) < 3 \<or> suffix_of 3 (ev_name ev) \<noteq> ''.so''"
      by force
    then show ?thesis
      by (auto simp: handle_event_def Let_def)
  qed (simp add: handle_event_def)
  then have "each (handle_event e ds) evs s = Inr s"
    by (induction evs) simp_all
  then show ?thesis
    by (simp add: reload_round_def and_then_def)
qed

theorem inotify_never_reloads_witness:
  "reload_round handler_dirs (chat_env Returned 2)
     (Poll_ready (Some [\<lparr> ev_mask = IN_CLOSE_WRITE, ev_name = ''chat.so'' @ replicate 9 (CHR 0x00) \<rparr>]))
     (0, reloaded) = Inr (True, 1, reloaded)"
  using inotify_never_reloads
    [of "[\<lparr> ev_mask = IN_CLOSE_WRITE, ev_name = ''chat.so'' @ replicate 9 (CHR 0x00) \<rparr>]"
      handler_dirs "chat_env Returned 2" 0 reloaded]
  by simp

text \<open>The periodic check is what reloads: the libraries it looks at, in order.\<close>

definition watched :: "'x plug_env \<Rightarrow> string list \<Rightarrow> string list" where
  "watched e ds = concat (map (\<lambda>d. case dir_entries e d of None \<Rightarrow> [] | Some ns \<Rightarrow> so_paths d ns) ds)"

definition current :: "'x plug_env \<Rightarrow> string \<Rightarrow> 'x plug_state \<Rightarrow> bool" where
  "current e path s \<longleftrightarrow> (\<exists>t. file_mtime e path = Some t \<and> unchanged s path t)"

definition loadable :: "'x plug_env \<Rightarrow> string \<Rightarrow> bool" where
  "loadable e path \<longleftrightarrow> (\<forall>tmp. copy_ok e path tmp) \<and> (\<forall>tmp. object_at e tmp \<noteq> None)
     \<and> (\<forall>h. \<exists>p. register_routes e h = Some p \<and> plug_outcome p = Returned)"

lemma each_append: "each f (xs @ ys) s = and_then (each f xs s) (each f ys)"
  by (induction xs arbitrary: s) (auto simp: and_then_def split: sum.splits)

lemma check_dirs_watched: "each (check_dir e) ds s = each (check_file e) (watched e ds) s"
proof (induction ds arbitrary: s)
  case (Cons d ds)
  have "check_dir e d s = each (check_file e) (case dir_entries e d of None \<Rightarrow> [] | Some ns \<Rightarrow> so_paths d ns) s"
    by (simp add: check_dir_def split: option.splits)
  moreover have "each (check_dir e) ds = each (check_file e) (watched e ds)"
    using Cons.IH by auto
  ultimately show ?case
    by (simp add: watched_def each_append)
qed (simp add: watched_def)

lemma unchanged_other:
  "path \<noteq> q \<Longrightarrow> loaded s' = AList.update path v (loaded s) \<Longrightarrow> unchanged s' q t = unchanged s q t"
  by (simp add: unchanged_def update_conv)

lemma Reload_keeps_current:
  assumes "Reload e path s = Inr s'" and "current e q s"
  shows "current e q s'"
  using assms(1)
proof (cases rule: Reload_cases)
  case (3 h p r t)
  then show ?thesis
    using assms(2) unchanged_other [of path q s']
    by (cases "path = q") (auto simp: current_def unchanged_def update_conv)
qed (use assms(2) in \<open>simp_all add: current_def unchanged_def\<close>)

interpretation currents: kept_by "check_file e" "\<lambda>_. True" "current e q"
  by unfold_locales
     (auto simp: check_file_def split: option.splits if_splits intro: Reload_keeps_current)

lemma Reload_loadable:
  assumes "Reload e path s = Inr s'" and "loadable e path"
  shows "current e path s'"
proof -
  let ?tmp = "path @ ''.reload.'' @ uint_text (unat (version s))"
  obtain h where "object_at e ?tmp = Some h"
    using assms(2) unfolding loadable_def by blast
  moreover obtain p where "register_routes e h = Some p" "plug_outcome p = Returned"
    using assms(2) unfolding loadable_def by blast
  ultimately show ?thesis
    using assms by (auto simp: Reload_def Let_def dlopen_def loadable_def current_def unchanged_def
        update_conv split: option.splits)
qed

lemma check_file_current:
  "check_file e path s = Inr s' \<Longrightarrow> loadable e path \<Longrightarrow> current e path s'"
  by (auto simp: check_file_def current_def split: option.splits if_splits dest: Reload_loadable)

lemma check_file_id: "current e path s \<Longrightarrow> check_file e path s = Inr s"
  by (auto simp: check_file_def current_def)

lemma check_files_current:
  assumes "each (check_file e) ps s = Inr s'" and "\<forall>p \<in> set ps. loadable e p"
  shows "\<forall>p \<in> set ps. current e p s'"
  using assms
proof (induction ps arbitrary: s)
  case (Cons p ps)
  then obtain s1 where s1: "check_file e p s = Inr s1" "each (check_file e) ps s1 = Inr s'"
    by auto
  then have "current e p s'"
    using check_file_current [OF s1(1)] currents.each_keeps [OF s1(2)] Cons.prems by simp
  with Cons s1 show ?case
    by auto
qed simp

lemma check_files_id: "\<forall>p \<in> set ps. current e p s \<Longrightarrow> each (check_file e) ps s = Inr s"
  by (induction ps) (simp_all add: check_file_id and_then_def)

text \<open>On every fifth quiet second the reloader brings every watched library that loads up to the
  version on disk, and while the files stay as they are later checks reload nothing.
\<close>

theorem poll_reloads_changed_once:
  assumes "(tick + 1) mod 5 = 0"
    and "\<forall>path \<in> set (watched e ds). loadable e path"
    and "reload_round ds e Poll_timeout (tick, s) = Inr (go, tick', s')"
  shows "(\<forall>path \<in> set (watched e ds). current e path s')
    \<and> reload_round ds e Poll_timeout (later, s') = Inr (True, later + 1, s')"
proof -
  have "each (check_file e) (watched e ds) s = Inr s'"
    using assms(1,3) by (auto simp: reload_round_def check_dirs_watched)
  then have all: "\<forall>path \<in> set (watched e ds). current e path s'"
    using check_files_current assms(2) by blast
  then show ?thesis
    by (simp add: reload_round_def check_dirs_watched check_files_id and_then_def Let_def)
qed

definition any_object_env :: "int \<Rightarrow> string plug_env" where
  "any_object_env t = (chat_env Returned t)\<lparr> object_at := (\<lambda>_. Some 2) \<rparr>"

definition polled :: "string plug_state" where
  "polled = snd (snd (projr (reload_round handler_dirs (any_object_env 3) Poll_timeout (4, reloaded))))"

theorem poll_reloads_changed_once_witness:
  "current (any_object_env 3) ''./handlers/chat.so'' polled
   \<and> reload_round handler_dirs (any_object_env 3) Poll_timeout (9, polled) = Inr (True, 10, polled)
   \<and> watched (any_object_env 3) handler_dirs = [''./handlers/chat.so'']
   \<and> map_of (loaded reloaded) ''./handlers/chat.so'' = Some (Some 2, 2)
   \<and> map_of (loaded polled) ''./handlers/chat.so'' = Some (Some 2, 3)"
proof -
  have w: "watched (any_object_env 3) handler_dirs = [''./handlers/chat.so'']"
    by code_simp
  have "loadable (any_object_env 3) path" for path
    by (simp add: loadable_def any_object_env_def chat_env_def chat_plugin_def)
  moreover have "\<not> isl (reload_round handler_dirs (any_object_env 3) Poll_timeout (4, reloaded))"
    by code_simp
  then have "reload_round handler_dirs (any_object_env 3) Poll_timeout (4, reloaded) =
      Inr (fst (projr (reload_round handler_dirs (any_object_env 3) Poll_timeout (4, reloaded))),
           fst (snd (projr (reload_round handler_dirs (any_object_env 3) Poll_timeout (4, reloaded)))), polled)"
    by (simp add: polled_def)
  moreover have "map_of (loaded reloaded) ''./handlers/chat.so'' = Some (Some 2, 2)"
    by code_simp
  moreover have "map_of (loaded polled) ''./handlers/chat.so'' = Some (Some 2, 3)"
    by code_simp
  ultimately show ?thesis
    using poll_reloads_changed_once [of 4 "any_object_env 3" handler_dirs reloaded _ _ polled 9] w
    by simp
qed

text \<open>A library that does not load is copied and opened again at every check.\<close>

lemma failing_library_retried:
  assumes "file_mtime e path = Some t" and "\<not> unchanged s path t" and "\<forall>tmp. object_at e tmp = None"
  shows "check_file e path s = Inr (s\<lparr> version := version s + 1 \<rparr>)
    \<and> \<not> unchanged (s\<lparr> version := version s + 1 \<rparr>) path t"
  using assms by (simp add: check_file_def Reload_def Let_def dlopen_def unchanged_def)

text \<open>The loader, closed without \<open>ReleaseHandles\<close>, gives back exactly what it opened.\<close>

lemma fold_dlclose: "fold dlclose hs l h = l h - count (mset hs) h"
  by (induction hs arbitrary: l) (auto simp: dlclose_def)

lemma UnloadAll_balanced:
  "counts (UnloadAll s) h = counts s h - count (mset (map fst (libs s))) h"
proof -
  have "fold (\<lambda>(h, _). dlclose h) xs l = fold dlclose (map fst xs) l" for xs :: "(handle \<times> string) list" and l
    by (induction xs arbitrary: l) auto
  then show ?thesis
    by (simp add: UnloadAll_def fold_dlclose)
qed

lemma load_library_balanced:
  "load_library e path s = Inr s' \<Longrightarrow>
     counts s' h - count (mset (map fst (libs s'))) h = counts s h - count (mset (map fst (libs s))) h"
  by (erule load_library_cases) auto

interpretation balanced: kept_by "load_library e" "\<lambda>_. True"
  "\<lambda>s. counts s h - count (mset (map fst (libs s))) h = n"
  by unfold_locales (metis load_library_balanced)

text \<open>Unloading gives the linker back exactly the references loading took, whichever libraries
  of the directory failed to load.
\<close>

theorem load_unload_balanced:
  assumes "LoadAll e dir s = Inr (n, s')" and "libs s = []"
  shows "counts (UnloadAll s') = counts s"
proof
  fix h
  have "counts s' h - count (mset (map fst (libs s'))) h = counts s h"
    using assms balanced.each_keeps [of e _ s s' h "counts s h"]
    by (auto simp: LoadAll_def split: option.splits)
  then show "counts (UnloadAll s') h = counts s h"
    by (simp add: UnloadAll_balanced)
qed

theorem load_unload_balanced_witness:
  "\<exists>s'. LoadAll (chat_env Returned 1) ''./handlers'' (plugins_start new_router) = Inr (1, s')
     \<and> counts s' 1 = 1 \<and> counts (UnloadAll s') 1 = 0"
proof -
  let ?x = "LoadAll (chat_env Returned 1) ''./handlers'' (plugins_start new_router)"
  have "\<not> isl ?x"
    by code_simp
  moreover have "fst (projr ?x) = 1"
    by code_simp
  ultimately have x: "?x = Inr (1, snd (projr ?x))"
    by (metis prod.collapse sum.collapse(2))
  moreover have "counts (snd (projr ?x)) 1 = 1"
    by code_simp
  ultimately show ?thesis
    using load_unload_balanced [OF x] by (intro exI [of _ "snd (projr ?x)"]) (simp add: plugins_start_def)
qed

end
