(* ===== verification/Config.thy ===== *)
theory Config
  imports Router Proxy Static_Files
begin

text \<open>
  The configuration: \<^verbatim>\<open>config/config.hpp\<close>, \<^verbatim>\<open>config.cpp\<close>, the validation and the start of
  \<^verbatim>\<open>main.cpp\<close>. The YAML library is a record of the operations the code calls on nodes; an operation that
  throws is \<open>None\<close>. An exception while reading leaves what was read so far in the
  configuration, so reading is a sequence of steps that may stop anywhere.
\<close>

section \<open>The configuration\<close>

record Config =
  cfg_host :: string
  cfg_port :: u16
  cfg_tls_port :: u16
  cfg_threads :: int
  cfg_max_body_size :: u64
  cfg_doc_root :: string
  cfg_tls_cert :: string
  cfg_tls_key :: string
  cfg_cpu_affinity :: bool
  cfg_ws_idle_timeout :: u32
  cfg_proxy_routes :: "ProxyRoute list"
  cfg_redirect_rules :: "RedirectRule list"

definition default_config :: Config where
  "default_config =
     \<lparr> cfg_host = ''0.0.0.0'', cfg_port = 8080, cfg_tls_port = 0, cfg_threads = 4,
       cfg_max_body_size = 0, cfg_doc_root = ''./www'', cfg_tls_cert = [], cfg_tls_key = [],
       cfg_cpu_affinity = True, cfg_ws_idle_timeout = 0, cfg_proxy_routes = [], cfg_redirect_rules = [] \<rparr>"

section \<open>Reading\<close>

record 'n yaml =
  y_get :: "'n \<Rightarrow> string \<Rightarrow> 'n option"
  y_defined :: "'n \<Rightarrow> bool"
  y_items :: "'n \<Rightarrow> 'n list option"
  y_string :: "'n \<Rightarrow> string option"
  y_u16 :: "'n \<Rightarrow> u16 option"
  y_int :: "'n \<Rightarrow> int option"
  y_bool :: "'n \<Rightarrow> bool option"
  y_u64 :: "'n \<Rightarrow> u64 option"
  y_u32 :: "'n \<Rightarrow> u32 option"

text \<open>A step gives the state it leaves and whether it completed without an exception.\<close>

type_synonym 'a reading = "'a \<Rightarrow> 'a \<times> bool"

primrec steps :: "'a reading list \<Rightarrow> 'a reading" where
  "steps [] c = (c, True)"
| "steps (f # fs) c = (case f c of (c', ok) \<Rightarrow> if ok then steps fs c' else (c', False))"

text \<open>\<^verbatim>\<open>if (node[key]) x = node[key].as<T>()\<close>\<close>

definition field :: "'n yaml \<Rightarrow> 'n \<Rightarrow> string \<Rightarrow> ('n \<Rightarrow> 'v option) \<Rightarrow> ('v \<Rightarrow> 'a \<Rightarrow> 'a) \<Rightarrow> 'a reading" where
  "field Y n key conv upd c =
     (case y_get Y n key of
        None \<Rightarrow> (c, False)
      | Some v \<Rightarrow> if \<not> y_defined Y v then (c, True)
                  else (case conv v of None \<Rightarrow> (c, False) | Some x \<Rightarrow> (upd x c, True)))"

text \<open>\<^verbatim>\<open>std::stoi\<close>; \<open>None\<close> when it throws.\<close>

definition stoi :: "string \<Rightarrow> int option" where
  "stoi s =
     (let s = dropWhile isspace s;
          neg = (s \<noteq> [] \<and> s ! 0 = CHR ''-'');
          ds = takeWhile is_digit (if s \<noteq> [] \<and> (s ! 0 = CHR ''-'' \<or> s ! 0 = CHR ''+'') then drop 1 s else s);
          v = foldl (\<lambda>v c. v * 10 + (of_char c - 48)) 0 ds;
          v = (if neg then - v else v)
      in if ds \<noteq> [] \<and> - (2 ^ 31) \<le> v \<and> v < 2 ^ 31 then Some v else None)"

definition rfind :: "char \<Rightarrow> string \<Rightarrow> nat option" where
  "rfind c s = (if c \<in> set s then Some (length s - 1 - length (takeWhile (\<lambda>x. x \<noteq> c) (rev s))) else None)"

definition parse_addr :: "string \<Rightarrow> UpstreamAddr option" where
  "parse_addr s =
     (case rfind (CHR '':'') s of
        None \<Rightarrow> Some \<lparr> ua_host = s, ua_port = 80 \<rparr>
      | Some colon \<Rightarrow>
          map_option (\<lambda>v. \<lparr> ua_host = take colon s, ua_port = word_of_int v \<rparr>) (stoi (drop (colon + 1) s)))"

fun parse_addrs :: "'n yaml \<Rightarrow> 'n list \<Rightarrow> UpstreamAddr list \<Rightarrow> UpstreamAddr list option" where
  "parse_addrs Y [] as = Some as"
| "parse_addrs Y (n # ns) as =
     (case Option.bind (y_string Y n) parse_addr of
        None \<Rightarrow> None
      | Some a \<Rightarrow> parse_addrs Y ns (as @ [a]))"

definition proxy_upstreams :: "'n yaml \<Rightarrow> 'n \<Rightarrow> UpstreamAddr list option" where
  "proxy_upstreams Y route =
     (case y_get Y route ''upstreams'' of
        None \<Rightarrow> None
      | Some us \<Rightarrow>
          (case (if y_defined Y us then y_items Y us else None) of
             Some ns \<Rightarrow> parse_addrs Y ns []
           | None \<Rightarrow>
               (case y_get Y route ''upstream'' of
                  None \<Rightarrow> None
                | Some u \<Rightarrow> if y_defined Y u then parse_addrs Y [u] [] else Some [])))"

definition proxy_route :: "'n yaml \<Rightarrow> 'n \<Rightarrow> Config reading" where
  "proxy_route Y route c =
     (case field Y route ''prefix'' (y_string Y) (\<lambda>x _. x) [] of
        (pfx, ok) \<Rightarrow>
          if \<not> ok then (c, False)
          else (case proxy_upstreams Y route of
                  None \<Rightarrow> (c, False)
                | Some us \<Rightarrow>
                    (if pfx \<noteq> [] \<and> us \<noteq> []
                     then c\<lparr> cfg_proxy_routes := cfg_proxy_routes c @ [\<lparr> pr_prefix = pfx, pr_upstreams = us \<rparr>] \<rparr>
                     else c, True)))"

definition redirect_rule :: "'n yaml \<Rightarrow> 'n \<Rightarrow> Config reading" where
  "redirect_rule Y r c =
     (case steps [field Y r ''from'' (y_string Y) (\<lambda>x rr. rr\<lparr> rr_from := x \<rparr>),
                  field Y r ''to'' (y_string Y) (\<lambda>x rr. rr\<lparr> rr_to := x \<rparr>),
                  field Y r ''code'' (y_int Y) (\<lambda>x rr. rr\<lparr> rr_code := x \<rparr>)]
             \<lparr> rr_from = [], rr_to = [], rr_code = 302 \<rparr> of
        (rr, ok) \<Rightarrow>
          if \<not> ok then (c, False)
          else (if rr_from rr \<noteq> [] \<and> rr_to rr \<noteq> []
                then c\<lparr> cfg_redirect_rules := cfg_redirect_rules c @ [rr] \<rparr> else c, True))"

text \<open>A top-level list, ignored unless it is a sequence.\<close>

definition section_of :: "'n yaml \<Rightarrow> 'n \<Rightarrow> string \<Rightarrow> ('n \<Rightarrow> Config reading) \<Rightarrow> Config reading" where
  "section_of Y doc key item c =
     (case y_get Y doc key of
        None \<Rightarrow> (c, False)
      | Some n \<Rightarrow>
          (case (if y_defined Y n then y_items Y n else None) of
             None \<Rightarrow> (c, True)
           | Some ns \<Rightarrow> steps (map item ns) c))"

definition tls_section :: "'n yaml \<Rightarrow> 'n \<Rightarrow> Config reading" where
  "tls_section Y srv c =
     (case y_get Y srv ''tls'' of
        None \<Rightarrow> (c, False)
      | Some tls \<Rightarrow>
          if \<not> y_defined Y tls then (c, True)
          else steps [field Y tls ''cert'' (y_string Y) (\<lambda>x c. c\<lparr> cfg_tls_cert := x \<rparr>),
                      field Y tls ''key'' (y_string Y) (\<lambda>x c. c\<lparr> cfg_tls_key := x \<rparr>)] c)"

definition server_section :: "'n yaml \<Rightarrow> 'n \<Rightarrow> Config reading" where
  "server_section Y doc c =
     (case y_get Y doc ''server'' of
        None \<Rightarrow> (c, False)
      | Some srv \<Rightarrow>
          steps [field Y srv ''host'' (y_string Y) (\<lambda>x c. c\<lparr> cfg_host := x \<rparr>),
                 field Y srv ''port'' (y_u16 Y) (\<lambda>x c. c\<lparr> cfg_port := x \<rparr>),
                 field Y srv ''tls_port'' (y_u16 Y) (\<lambda>x c. c\<lparr> cfg_tls_port := x \<rparr>),
                 field Y srv ''threads'' (y_int Y) (\<lambda>x c. c\<lparr> cfg_threads := x \<rparr>),
                 field Y srv ''doc_root'' (y_string Y) (\<lambda>x c. c\<lparr> cfg_doc_root := x \<rparr>),
                 field Y srv ''cpu_affinity'' (y_bool Y) (\<lambda>x c. c\<lparr> cfg_cpu_affinity := x \<rparr>),
                 field Y srv ''max_body_size'' (y_u64 Y) (\<lambda>x c. c\<lparr> cfg_max_body_size := x \<rparr>),
                 field Y srv ''ws_idle_timeout'' (y_u32 Y) (\<lambda>x c. c\<lparr> cfg_ws_idle_timeout := x \<rparr>),
                 tls_section Y srv] c)"

text \<open>\<open>file\<close> is the result of \<^verbatim>\<open>YAML::LoadFile\<close>; a result \<open>None\<close> is the exception of strict mode.\<close>

definition LoadConfig :: "'n yaml \<Rightarrow> 'n option \<Rightarrow> bool \<Rightarrow> Config option" where
  "LoadConfig Y file strict =
     (case (case file of
              None \<Rightarrow> (default_config, False)
            | Some doc \<Rightarrow>
                steps [server_section Y doc, section_of Y doc ''proxy'' (proxy_route Y),
                       section_of Y doc ''redirect'' (redirect_rule Y)] default_config) of
        (cfg, ok) \<Rightarrow> if \<not> ok \<and> strict then None else Some cfg)"

section \<open>Validation\<close>

datatype config_error =
    Bad_threads | No_port | No_doc_root string
  | No_cert | No_key | Cert_missing string | Key_missing string
  | Redirect_from nat | Redirect_to nat | Redirect_code nat
  | Proxy_empty nat | Proxy_prefix nat | Proxy_no_upstream nat
  | Upstream_host nat nat | Upstream_port nat nat

fun first_error :: "(nat \<Rightarrow> 'a \<Rightarrow> 'e option) \<Rightarrow> nat \<Rightarrow> 'a list \<Rightarrow> 'e option" where
  "first_error f i [] = None"
| "first_error f i (x # xs) = (case f i x of Some e \<Rightarrow> Some e | None \<Rightarrow> first_error f (Suc i) xs)"

definition check_redirect :: "nat \<Rightarrow> RedirectRule \<Rightarrow> config_error option" where
  "check_redirect i r =
     (if rr_from r = [] \<or> rr_from r ! 0 \<noteq> CHR ''/'' then Some (Redirect_from i)
      else if rr_to r = [] then Some (Redirect_to i)
      else if rr_code r \<noteq> 301 \<and> rr_code r \<noteq> 302 \<and> rr_code r \<noteq> 307 \<and> rr_code r \<noteq> 308 then Some (Redirect_code i)
      else None)"

definition check_upstream :: "nat \<Rightarrow> nat \<Rightarrow> UpstreamAddr \<Rightarrow> config_error option" where
  "check_upstream i j u =
     (if ua_host u = [] then Some (Upstream_host i j)
      else if ua_port u = 0 then Some (Upstream_port i j) else None)"

definition check_proxy :: "nat \<Rightarrow> ProxyRoute \<Rightarrow> config_error option" where
  "check_proxy i r =
     (if pr_prefix r = [] then Some (Proxy_empty i)
      else if pr_prefix r ! 0 \<noteq> CHR ''/'' then Some (Proxy_prefix i)
      else if pr_upstreams r = [] then Some (Proxy_no_upstream i)
      else first_error (check_upstream i) 0 (pr_upstreams r))"

definition check_tls :: "(string \<Rightarrow> bool) \<Rightarrow> Config \<Rightarrow> config_error option" where
  "check_tls stat cfg =
     (if 0 < cfg_tls_port cfg \<or> (cfg_tls_cert cfg \<noteq> [] \<and> cfg_tls_key cfg \<noteq> []) then
        if cfg_tls_cert cfg = [] then Some No_cert
        else if cfg_tls_key cfg = [] then Some No_key
        else if \<not> stat (cfg_tls_cert cfg) then Some (Cert_missing (cfg_tls_cert cfg))
        else if \<not> stat (cfg_tls_key cfg) then Some (Key_missing (cfg_tls_key cfg))
        else None
      else None)"

definition or_error :: "'e option \<Rightarrow> 'e option \<Rightarrow> 'e option" where
  "or_error a b = (case a of Some e \<Rightarrow> Some e | None \<Rightarrow> b)"

definition ValidateConfig :: "(string \<Rightarrow> bool) \<Rightarrow> Config \<Rightarrow> config_error option" where
  "ValidateConfig stat cfg =
     (if cfg_threads cfg < 1 then Some Bad_threads
      else if cfg_port cfg = 0 \<and> cfg_tls_port cfg = 0 then Some No_port
      else if cfg_doc_root cfg \<noteq> [] \<and> \<not> stat (cfg_doc_root cfg) then Some (No_doc_root (cfg_doc_root cfg))
      else or_error (check_tls stat cfg)
             (or_error (first_error check_redirect 0 (cfg_redirect_rules cfg))
                (first_error check_proxy 0 (cfg_proxy_routes cfg))))"

text \<open>\<^verbatim>\<open>main\<close> with the option \<^verbatim>\<open>-t\<close>: the exit status. The server itself is started without validation.\<close>

definition main_check :: "'n yaml \<Rightarrow> (string \<Rightarrow> 'n option) \<Rightarrow> (string \<Rightarrow> bool) \<Rightarrow> string \<Rightarrow> nat" where
  "main_check Y load stat path =
     (case LoadConfig Y (load path) True of
        None \<Rightarrow> 1
      | Some cfg \<Rightarrow> if ValidateConfig stat cfg = None then 0 else 1)"

section \<open>What validation accepts\<close>

definition redirect_ok :: "RedirectRule \<Rightarrow> bool" where
  "redirect_ok r \<longleftrightarrow> rr_from r \<noteq> [] \<and> rr_from r ! 0 = CHR ''/'' \<and> rr_to r \<noteq> [] \<and> rr_code r \<in> {301, 302, 307, 308}"

definition proxy_ok :: "ProxyRoute \<Rightarrow> bool" where
  "proxy_ok r \<longleftrightarrow> pr_prefix r \<noteq> [] \<and> pr_prefix r ! 0 = CHR ''/'' \<and> pr_upstreams r \<noteq> []
     \<and> (\<forall>u \<in> set (pr_upstreams r). ua_host u \<noteq> [] \<and> ua_port u \<noteq> 0)"

definition config_ok :: "(string \<Rightarrow> bool) \<Rightarrow> Config \<Rightarrow> bool" where
  "config_ok stat cfg \<longleftrightarrow>
     1 \<le> cfg_threads cfg \<and> \<not> (cfg_port cfg = 0 \<and> cfg_tls_port cfg = 0)
     \<and> (cfg_doc_root cfg = [] \<or> stat (cfg_doc_root cfg))
     \<and> (cfg_tls_port cfg = 0 \<and> (cfg_tls_cert cfg = [] \<or> cfg_tls_key cfg = [])
        \<or> cfg_tls_cert cfg \<noteq> [] \<and> cfg_tls_key cfg \<noteq> [] \<and> stat (cfg_tls_cert cfg) \<and> stat (cfg_tls_key cfg))
     \<and> list_all redirect_ok (cfg_redirect_rules cfg) \<and> list_all proxy_ok (cfg_proxy_routes cfg)"

lemma first_error_None: "first_error f i xs = None \<longleftrightarrow> (\<forall>j < length xs. f (i + j) (xs ! j) = None)"
proof (induction xs arbitrary: i)
  case (Cons x xs)
  have "(\<forall>j < length (x # xs). f (i + j) ((x # xs) ! j) = None)
      \<longleftrightarrow> f i x = None \<and> (\<forall>j < length xs. f (Suc i + j) (xs ! j) = None)"
    by (simp add: All_less_Suc2)
  then show ?case
    using Cons by (auto split: option.splits)
qed simp

lemma first_error_all:
  "(\<And>i x. f i x = None \<longleftrightarrow> P x) \<Longrightarrow> first_error f i xs = None \<longleftrightarrow> list_all P xs"
  by (simp add: first_error_None list_all_length)

lemma check_redirect_ok: "check_redirect i r = None \<longleftrightarrow> redirect_ok r"
  by (auto simp: check_redirect_def redirect_ok_def)

lemma check_upstream_ok: "check_upstream i j u = None \<longleftrightarrow> ua_host u \<noteq> [] \<and> ua_port u \<noteq> 0"
  by (simp add: check_upstream_def)

lemma check_proxy_ok: "check_proxy i r = None \<longleftrightarrow> proxy_ok r"
  by (auto simp: check_proxy_def proxy_ok_def list_all_iff
      first_error_all [where f = "check_upstream i" and P = "\<lambda>u. ua_host u \<noteq> [] \<and> ua_port u \<noteq> 0", OF check_upstream_ok])

lemma or_error_None [simp]: "or_error a b = None \<longleftrightarrow> a = None \<and> b = None"
  by (simp add: or_error_def split: option.splits)

lemma check_tls_ok:
  "check_tls stat cfg = None \<longleftrightarrow>
     cfg_tls_port cfg = 0 \<and> (cfg_tls_cert cfg = [] \<or> cfg_tls_key cfg = [])
     \<or> cfg_tls_cert cfg \<noteq> [] \<and> cfg_tls_key cfg \<noteq> [] \<and> stat (cfg_tls_cert cfg) \<and> stat (cfg_tls_key cfg)"
  by (auto simp: check_tls_def word_gt_0)

lemma ValidateConfig_ok: "ValidateConfig stat cfg = None \<longleftrightarrow> config_ok stat cfg"
  by (auto simp: ValidateConfig_def config_ok_def check_tls_ok
      first_error_all [OF check_redirect_ok] first_error_all [OF check_proxy_ok])

text \<open>Strict and lenient reading give the same configuration when the strict one succeeds.\<close>

lemma LoadConfig_lenient: "LoadConfig Y file True = Some cfg \<Longrightarrow> LoadConfig Y file False = Some cfg"
  by (auto simp: LoadConfig_def split: prod.splits if_splits)

text \<open>If the dry run accepts a configuration file, the server started with the same file gets a
  valid configuration (whatever the YAML library does), and when its paths have no wildcards
  its router has a handler for every request.
\<close>

theorem dry_run_predicts_start:
  assumes "main_check Y load stat path = 0"
  shows "\<exists>cfg. LoadConfig Y (load path) False = Some cfg \<and> config_ok stat cfg
    \<and> (list_all (static_path \<circ> pr_prefix) (cfg_proxy_routes cfg)
       \<and> list_all (static_path \<circ> rr_from) (cfg_redirect_rules cfg) \<longrightarrow>
       (\<exists>r h. SetupFromConfig (cfg_proxy_routes cfg) (cfg_redirect_rules cfg) new_router = Some r
          \<and> MatchMethod r m p = Some (Some h, [])))"
proof -
  obtain cfg where "LoadConfig Y (load path) True = Some cfg" "ValidateConfig stat cfg = None"
    using assms by (auto simp: main_check_def split: option.splits if_splits)
  then show ?thesis
    using LoadConfig_lenient ValidateConfig_ok configured_router_total
    by (intro exI [of _ cfg]) (auto simp: list_all_iff)
qed

section \<open>Upstream addresses\<close>

lemma rfind_last: "c \<notin> set t \<Longrightarrow> rfind c (s @ c # t) = Some (length s)"
proof -
  assume "c \<notin> set t"
  then have "takeWhile (\<lambda>x. x \<noteq> c) (rev t @ c # rev s) = rev t"
    by (subst takeWhile_append2) auto
  then show ?thesis
    by (simp add: rfind_def)
qed

lemma uint_digits_are_digits: "list_all is_digit acc \<Longrightarrow> list_all is_digit (uint_digits n acc)"
proof (induction n acc rule: uint_digits.induct)
  case (1 n acc)
  have "of_char (char_of (48 + n mod 10) :: char) = 48 + n mod 10"
    by (simp add: take_bit_nat_eq_self_iff less_le_trans [of _ 10])
  then have "is_digit (char_of (48 + n mod 10))"
    by (simp add: is_digit_def)
  then show ?case
    using 1 by (subst uint_digits.simps) simp
qed

lemma uint_text_is_digits: "c \<in> set (uint_text n) \<Longrightarrow> is_digit c"
proof -
  have "list_all is_digit (uint_text n)"
    by (simp add: uint_text_def uint_digits_are_digits) (simp add: is_digit_def)
  then show "c \<in> set (uint_text n) \<Longrightarrow> is_digit c"
    by (simp add: list_all_iff)
qed

lemma digit_not:
  assumes "is_digit c"
  shows "\<not> isspace c" and "c \<noteq> CHR ''-''" and "c \<noteq> CHR ''+''" and "c \<noteq> CHR '':''"
  using assms by (auto simp: is_digit_def isspace_def)

lemma foldl_digits_int:
  "(\<And>c. c \<in> set s \<Longrightarrow> is_digit c) \<Longrightarrow>
     foldl (\<lambda>v c. v * 10 + (of_char c - 48)) (int v) s = int (foldl (\<lambda>v c. v * 10 + (of_char c - 48)) v s)"
proof (induction s arbitrary: v)
  case (Cons c s)
  have "48 \<le> (of_char c :: nat)"
    using Cons.prems [of c] by (simp add: is_digit_def)
  then have "int v * 10 + (of_char c - 48) = int (v * 10 + (of_char c - 48))"
    by (simp add: of_nat_diff of_nat_of_char)
  then show ?case
    using Cons.IH [of "v * 10 + (of_char c - 48)"] Cons.prems by (simp only: foldl_Cons list.set_intros)
qed simp

lemma stoi_uint_text:
  assumes "n < 2 ^ 31"
  shows "stoi (uint_text n) = Some (int n)"
proof -
  let ?t = "uint_text n"
  obtain c t where t: "?t = c # t"
    using uint_text_nonempty [of n] by (cases ?t) auto
  have c: "is_digit c"
    using uint_text_is_digits [of c n] t by simp
  have "dropWhile isspace ?t = ?t" and "takeWhile is_digit ?t = ?t"
    using t digit_not(1) [OF c] uint_text_is_digits [of _ n] by (auto simp: takeWhile_eq_all_conv)
  moreover have "foldl (\<lambda>v c. v * 10 + (of_char c - 48)) 0 ?t = int n"
    using foldl_digits_int [of ?t 0] uint_text_is_digits [of _ n] uint_text_value [of n]
    by (simp add: digits_value_def)
  moreover have "?t ! 0 \<noteq> CHR ''-''" "?t ! 0 \<noteq> CHR ''+''"
    using t digit_not(2,3) [OF c] by auto
  ultimately show ?thesis
    using assms t by (simp add: stoi_def Let_def)
qed

text \<open>Writing an upstream address as host, colon and decimal port and reading it back gives the
  address, for every port and also for a host with colons in it.
\<close>

theorem upstream_address_roundtrip:
  "parse_addr (ua_host a @ '':'' @ uint_text (unat (ua_port a))) = Some a"
proof -
  have "CHR '':'' \<notin> set (uint_text (unat (ua_port a)))"
    using uint_text_is_digits digit_not(4) by blast
  then have "rfind (CHR '':'') (ua_host a @ CHR '':'' # uint_text (unat (ua_port a))) = Some (length (ua_host a))"
    by (rule rfind_last)
  moreover have "unat (ua_port a) < 2 ^ 31"
    using unsigned_less [of "ua_port a", where 'a = nat] by simp
  ultimately show ?thesis
    by (simp add: parse_addr_def stoi_uint_text)
qed

text \<open>A port that does not fit 16 bits is not rejected: it is reduced, and validation sees only the rest.\<close>

lemma port_is_truncated: "parse_addr ''backend:65616'' = Some \<lparr> ua_host = ''backend'', ua_port = 80 \<rparr>"
  by code_simp

section \<open>An exception in the middle of the file\<close>

text \<open>A small YAML tree, to run the code on.\<close>

datatype ynode = YNone | YText string | YSeq "ynode list" | YMap "(string \<times> ynode) list"

fun ynode_get :: "ynode \<Rightarrow> string \<Rightarrow> ynode option" where
  "ynode_get (YMap m) k = Some (case map_of m k of None \<Rightarrow> YNone | Some n \<Rightarrow> n)"
| "ynode_get YNone k = Some YNone"
| "ynode_get _ k = None"

fun ynode_text :: "ynode \<Rightarrow> string option" where
  "ynode_text (YText s) = Some s"
| "ynode_text _ = None"

fun ynode_items :: "ynode \<Rightarrow> ynode list option" where
  "ynode_items (YSeq ns) = Some ns"
| "ynode_items _ = None"

definition ynode_int :: "ynode \<Rightarrow> int option" where
  "ynode_int n = Option.bind (ynode_text n) stoi"

definition ynode_lib :: "ynode yaml" where
  "ynode_lib =
     \<lparr> y_get = ynode_get, y_defined = (\<lambda>n. n \<noteq> YNone), y_items = ynode_items, y_string = ynode_text,
       y_u16 = map_option word_of_int \<circ> ynode_int, y_int = ynode_int,
       y_bool = map_option (\<lambda>s. s = ''true'') \<circ> ynode_text,
       y_u64 = map_option word_of_int \<circ> ynode_int, y_u32 = map_option word_of_int \<circ> ynode_int \<rparr>"

definition sample_file :: "string \<Rightarrow> ynode" where
  "sample_file threads = YMap
     [(''server'', YMap [(''host'', YText ''127.0.0.1''), (''port'', YText ''8443''), (''threads'', YText threads),
                         (''tls'', YMap [(''cert'', YText ''c.pem''), (''key'', YText ''k.pem'')])]),
      (''proxy'', YSeq [YMap [(''prefix'', YText ''/api/''), (''upstreams'', YSeq [YText ''b1:9000'', YText ''b2'']) ]]),
      (''redirect'', YSeq [YMap [(''from'', YText ''/old''), (''to'', YText ''/new''), (''code'', YText ''301'')]])]"

lemma sample_loaded:
  "LoadConfig ynode_lib (Some (sample_file ''2'')) False = Some (default_config
     \<lparr> cfg_host := ''127.0.0.1'', cfg_port := 8443, cfg_threads := 2, cfg_tls_cert := ''c.pem'', cfg_tls_key := ''k.pem'',
       cfg_proxy_routes := [\<lparr> pr_prefix = ''/api/'', pr_upstreams =
          [\<lparr> ua_host = ''b1'', ua_port = 9000 \<rparr>, \<lparr> ua_host = ''b2'', ua_port = 80 \<rparr>] \<rparr>],
       cfg_redirect_rules := [\<lparr> rr_from = ''/old'', rr_to = ''/new'', rr_code = 301 \<rparr>] \<rparr>)"
  by code_simp

theorem dry_run_predicts_start_witness:
  "\<exists>cfg r h. LoadConfig ynode_lib (Some (sample_file ''2'')) False = Some cfg
     \<and> config_ok (\<lambda>_. True) cfg \<and> cfg_threads cfg = 2
     \<and> SetupFromConfig (cfg_proxy_routes cfg) (cfg_redirect_rules cfg) new_router = Some r
     \<and> MatchMethod r ''GET'' ''/api/users'' = Some (Some h, [])"
proof -
  have "main_check ynode_lib (\<lambda>_. Some (sample_file ''2'')) (\<lambda>_. True) ''config.yaml'' = 0"
    by code_simp
  from dry_run_predicts_start [OF this, of "''GET''" "''/api/users''"] show ?thesis
    by (simp add: sample_loaded static_path_def)
qed

text \<open>The message says that the default configuration is used when a file cannot be read; but after
  an exception in the middle the server runs with a mixture: what came before is kept, what came
  after (TLS files, routes) is missing.
\<close>

theorem lenient_load_is_partial:
  "LoadConfig ynode_lib (Some (sample_file ''many'')) False =
     Some (default_config\<lparr> cfg_host := ''127.0.0.1'', cfg_port := 8443 \<rparr>)
   \<and> LoadConfig ynode_lib (Some (sample_file ''many'')) True = None"
proof
  show "LoadConfig ynode_lib (Some (sample_file ''many'')) False =
     Some (default_config\<lparr> cfg_host := ''127.0.0.1'', cfg_port := 8443 \<rparr>)"
    by code_simp
  show "LoadConfig ynode_lib (Some (sample_file ''many'')) True = None"
    by code_simp
qed

end
