(* ===== verification/Server.thy ===== *)
theory Server
  imports Pools Config
begin

text \<open>
  The server (\<^verbatim>\<open>net/multi_server.hpp\<close>, \<^verbatim>\<open>multi_server.cpp\<close>, \<^verbatim>\<open>server_base.hpp\<close>), the pool of HTTP/1.1
  sessions (\<^verbatim>\<open>http/http1.1/session_pool.cpp\<close>) and the protocol choice of \<^verbatim>\<open>ssl/tls_context.cpp\<close>. Every worker has an
  event loop of its own, with an accepting coroutine, a metrics timer and the coroutines of its
  connections; the first one also waits for the signals and drains. The program is a state and one
  function for everything that can happen next, so that a history is a list of events.
\<close>

section \<open>Sessions and their pool\<close>

record session =
  s_id :: nat
  s_max_body :: u64
  s_ws_idle :: u32
  s_worker :: int

definition fresh_session :: "nat \<Rightarrow> session" where
  "fresh_session sid = \<lparr> s_id = sid, s_max_body = 0, s_ws_idle = 0, s_worker = - 1 \<rparr>"

definition configure :: "Config \<Rightarrow> nat \<Rightarrow> session \<Rightarrow> session" where
  "configure cfg i s =
     s\<lparr> s_max_body := cfg_max_body_size cfg, s_ws_idle := cfg_ws_idle_timeout cfg, s_worker := int i \<rparr>"

type_synonym session_pool = "session list"

definition TryAcquireSession :: "session_pool \<Rightarrow> session option \<times> session_pool" where
  "TryAcquireSession idle = (if idle = [] then (None, idle) else (Some (last idle), butlast idle))"

definition ReleaseSession :: "session \<Rightarrow> session_pool \<Rightarrow> session_pool" where
  "ReleaseSession s idle = idle @ [s]"

definition IdleSessions :: "session_pool \<Rightarrow> nat" where
  "IdleSessions idle = length idle"

section \<open>The state\<close>

datatype conn = Handshaking | H2_conn session | H11_conn session

record worker =
  w_id :: nat
  w_acceptor_open :: bool
  w_listening :: bool
  w_flushing :: bool
  w_conns :: "(nat \<times> conn) list"
  w_accepted :: nat
  w_idle :: session_pool
  w_flushes :: nat
  w_exited :: bool

definition new_worker :: "nat \<Rightarrow> worker" where
  "new_worker wid =
     \<lparr> w_id = wid, w_acceptor_open = True, w_listening = True, w_flushing = True, w_conns = [], w_accepted = 0,
       w_idle = [], w_flushes = 0, w_exited = False \<rparr>"

text \<open>
  What the first worker does for the shutdown: wait for a signal, close the acceptors one by one,
  wait for the drain timer, and be done.
\<close>

datatype drain = Waiting | Closing nat | Draining | Drained

record server =
  sv_cfg :: Config
  sv_workers :: "worker list"
  sv_shutdown :: bool
  sv_drain :: drain
  sv_next_sid :: nat

datatype start_error = Length_error | Out_of_range

text \<open>
  The number the accepting coroutine of a worker (given by its position) gives itself, when
  \<open>n\<close> workers have been stored in the vector.
\<close>

definition listen_id :: "nat \<Rightarrow> nat \<Rightarrow> nat" where
  "listen_id n i = (if i < n then i else 0)"

text \<open>
  \<open>Start\<close> up to the point where it waits for the threads: a negative number of threads makes
  \<^verbatim>\<open>reserve\<close> throw, none at all makes \<^verbatim>\<open>workers_[0]\<close> an access out of bounds. \<open>pushed i\<close> is the
  number of workers in the vector when the coroutine of worker \<open>i\<close> starts, on its own thread.
\<close>

definition endpoint_port :: "Config \<Rightarrow> u16" where
  "endpoint_port cfg = (if 0 < cfg_tls_port cfg then cfg_tls_port cfg else cfg_port cfg)"

definition StartServer :: "Config \<Rightarrow> (nat \<Rightarrow> nat) \<Rightarrow> start_error + server" where
  "StartServer cfg pushed =
     (if cfg_threads cfg < 0 then Inl Length_error
      else if cfg_threads cfg = 0 then Inl Out_of_range
      else Inr \<lparr> sv_cfg = cfg, sv_workers = map (\<lambda>i. new_worker (listen_id (pushed i) i)) [0..<nat (cfg_threads cfg)],
                 sv_shutdown = False, sv_drain = Waiting, sv_next_sid = 0 \<rparr>)"

section \<open>ALPN\<close>

text \<open>\<open>ret\<close> is the result of \<^verbatim>\<open>SSL_select_next_proto\<close>: 1 for a match, 2 for none.\<close>

datatype alpn_result = Alpn_ok | Alpn_alert_fatal

definition alpn_select_cb :: "int \<Rightarrow> alpn_result" where
  "alpn_select_cb ret = (if 0 \<le> ret then Alpn_ok else Alpn_alert_fatal)"

definition IsHttp2 :: "string option \<Rightarrow> bool" where
  "IsHttp2 alpn = (case alpn of None \<Rightarrow> False | Some p \<Rightarrow> length p = 2 \<and> p = ''h2'')"

section \<open>What can happen\<close>

datatype event =
    Accepted nat
  | Accept_failed nat
  | Handshake_failed nat nat
  | Handshake_done nat nat "string option"
  | Session_done nat nat
  | Session_threw nat nat
  | Flush_timer nat
  | Signal_caught
  | Close_acceptor
  | Drain_expired
  | Run_returned nat

definition at_worker :: "nat \<Rightarrow> (worker \<Rightarrow> worker option) \<Rightarrow> server \<Rightarrow> server option" where
  "at_worker i f s =
     (if i < length (sv_workers s) \<and> \<not> w_exited (sv_workers s ! i) then
        map_option (\<lambda>w. s\<lparr> sv_workers := (sv_workers s)[i := w] \<rparr>) (f (sv_workers s ! i))
      else None)"

text \<open>The rounds of \<open>Listen\<close>: after each the loop looks at the shutdown flag.\<close>

definition accepted :: "bool \<Rightarrow> worker \<Rightarrow> worker option" where
  "accepted shutdown w =
     (if w_listening w \<and> w_acceptor_open w then
        Some (w\<lparr> w_conns := w_conns w @ [(w_accepted w, Handshaking)], w_accepted := w_accepted w + 1,
                w_listening := \<not> shutdown \<rparr>)
      else None)"

definition accept_failed :: "bool \<Rightarrow> worker \<Rightarrow> worker option" where
  "accept_failed shutdown w =
     (if w_listening w then Some (w\<lparr> w_listening := \<not> shutdown \<rparr>) else None)"

definition end_conn :: "nat \<Rightarrow> worker \<Rightarrow> worker" where
  "end_conn c w = w\<lparr> w_conns := filter (\<lambda>(k, _). k \<noteq> c) (w_conns w) \<rparr>"

definition set_conn :: "nat \<Rightarrow> conn \<Rightarrow> worker \<Rightarrow> worker" where
  "set_conn c v w = w\<lparr> w_conns := map (\<lambda>(k, x). if k = c then (k, v) else (k, x)) (w_conns w) \<rparr>"

definition handshake_failed :: "nat \<Rightarrow> worker \<Rightarrow> worker option" where
  "handshake_failed c w = (if map_of (w_conns w) c = Some Handshaking then Some (end_conn c w) else None)"

definition handshake_done :: "Config \<Rightarrow> nat \<Rightarrow> nat \<Rightarrow> string option \<Rightarrow> worker \<Rightarrow> worker option" where
  "handshake_done cfg sid c alpn w =
     (if map_of (w_conns w) c \<noteq> Some Handshaking then None
      else if IsHttp2 alpn then Some (set_conn c (H2_conn (configure cfg (w_id w) (fresh_session sid))) w)
      else (case TryAcquireSession (w_idle w) of
              (Some s, idle) \<Rightarrow> Some (set_conn c (H11_conn (configure cfg (w_id w) s)) (w\<lparr> w_idle := idle \<rparr>))
            | (None, idle) \<Rightarrow> Some (set_conn c (H11_conn (configure cfg (w_id w) (fresh_session sid))) w)))"

definition session_done :: "nat \<Rightarrow> worker \<Rightarrow> worker option" where
  "session_done c w =
     (case map_of (w_conns w) c of
        Some (H2_conn s) \<Rightarrow> Some (end_conn c w)
      | Some (H11_conn s) \<Rightarrow> Some (end_conn c (w\<lparr> w_idle := ReleaseSession s (w_idle w) \<rparr>))
      | _ \<Rightarrow> None)"

definition session_threw :: "nat \<Rightarrow> worker \<Rightarrow> worker option" where
  "session_threw c w = (if map_of (w_conns w) c \<noteq> None then Some (end_conn c w) else None)"

definition flush_timer :: "bool \<Rightarrow> worker \<Rightarrow> worker option" where
  "flush_timer shutdown w =
     (if \<not> w_flushing w then None
      else if shutdown then Some (w\<lparr> w_flushing := False \<rparr>)
      else Some (w\<lparr> w_flushes := w_flushes w + 1 \<rparr>))"

text \<open>The event loop of a worker returns when it was stopped or has nothing left to wait for.\<close>

definition has_work :: "drain \<Rightarrow> nat \<Rightarrow> worker \<Rightarrow> bool" where
  "has_work d i w \<longleftrightarrow> w_listening w \<or> w_flushing w \<or> w_conns w \<noteq> [] \<or> (i = 0 \<and> d \<noteq> Drained)"

definition run_returned :: "drain \<Rightarrow> nat \<Rightarrow> worker \<Rightarrow> worker option" where
  "run_returned d i w = (if d = Drained \<or> \<not> has_work d i w then Some (w\<lparr> w_exited := True \<rparr>) else None)"

definition close_acceptor :: "worker \<Rightarrow> worker" where
  "close_acceptor w = w\<lparr> w_acceptor_open := False \<rparr>"

fun server_step :: "event \<Rightarrow> server \<Rightarrow> server option" where
  "server_step (Accepted i) s = at_worker i (accepted (sv_shutdown s)) s"
| "server_step (Accept_failed i) s = at_worker i (accept_failed (sv_shutdown s)) s"
| "server_step (Handshake_failed i c) s = at_worker i (handshake_failed c) s"
| "server_step (Handshake_done i c alpn) s =
     map_option (\<lambda>s. s\<lparr> sv_next_sid := sv_next_sid s + 1 \<rparr>)
       (at_worker i (handshake_done (sv_cfg s) (sv_next_sid s) c alpn) s)"
| "server_step (Session_done i c) s = at_worker i (session_done c) s"
| "server_step (Session_threw i c) s = at_worker i (session_threw c) s"
| "server_step (Flush_timer i) s = at_worker i (flush_timer (sv_shutdown s)) s"
| "server_step Signal_caught s =
     (if sv_drain s = Waiting \<and> \<not> sv_shutdown s
      then Some (s\<lparr> sv_shutdown := True, sv_drain := Closing 0 \<rparr>) else None)"
| "server_step Close_acceptor s =
     (case sv_drain s of
        Closing k \<Rightarrow>
          if k < length (sv_workers s)
          then Some (s\<lparr> sv_workers := (sv_workers s)[k := close_acceptor (sv_workers s ! k)],
                       sv_drain := Closing (k + 1) \<rparr>)
          else Some (s\<lparr> sv_drain := Draining \<rparr>)
      | _ \<Rightarrow> None)"
| "server_step Drain_expired s = (if sv_drain s = Draining then Some (s\<lparr> sv_drain := Drained \<rparr>) else None)"
| "server_step (Run_returned i) s = at_worker i (run_returned (sv_drain s) i) s"

definition server_run :: "event list \<Rightarrow> server \<Rightarrow> server option" where
  "server_run = run_ops server_step"

text \<open>\<open>Start\<close> returns when all threads have ended.\<close>

definition start_returned :: "server \<Rightarrow> bool" where
  "start_returned s \<longleftrightarrow> list_all w_exited (sv_workers s)"

definition RequestShutdown :: "server \<Rightarrow> server" where
  "RequestShutdown s = s\<lparr> sv_shutdown := True \<rparr>"

section \<open>Invariants of a history\<close>

text \<open>What every event keeps holds after every history.\<close>

locale step_invariant =
  fixes step :: "'a \<Rightarrow> 's \<Rightarrow> 's option" and inv :: "'s \<Rightarrow> bool"
  assumes step_inv: "inv s \<Longrightarrow> step a s = Some s' \<Longrightarrow> inv s'"
begin

lemma run_inv: "run_ops step as s = Some s' \<Longrightarrow> inv s \<Longrightarrow> inv s'"
  by (induction as arbitrary: s) (auto simp: Option.bind_eq_Some_conv intro: step_inv)

end

lemma at_worker_Some:
  "at_worker i f s = Some s' \<longleftrightarrow>
     i < length (sv_workers s) \<and> \<not> w_exited (sv_workers s ! i) \<and>
     (\<exists>w. f (sv_workers s ! i) = Some w \<and> s' = s\<lparr> sv_workers := (sv_workers s)[i := w] \<rparr>)"
  by (auto simp: at_worker_def)

lemmas worker_step_defs = accepted_def accept_failed_def handshake_failed_def handshake_done_def
  session_done_def session_threw_def flush_timer_def run_returned_def

lemmas conn_updates = end_conn_def set_conn_def close_acceptor_def

text \<open>What one worker can do, and the cases of an event: it changes one worker, or the shutdown.\<close>

inductive worker_step :: "Config \<Rightarrow> drain \<Rightarrow> bool \<Rightarrow> nat \<Rightarrow> nat \<Rightarrow> worker \<Rightarrow> worker \<Rightarrow> nat \<Rightarrow> bool"
  for cfg d b i sid w w' where
  "accepted b w = Some w' \<Longrightarrow> worker_step cfg d b i sid w w' sid"
| "accept_failed b w = Some w' \<Longrightarrow> worker_step cfg d b i sid w w' sid"
| "handshake_failed c w = Some w' \<Longrightarrow> worker_step cfg d b i sid w w' sid"
| "handshake_done cfg sid c alpn w = Some w' \<Longrightarrow> worker_step cfg d b i sid w w' (Suc sid)"
| "session_done c w = Some w' \<Longrightarrow> worker_step cfg d b i sid w w' sid"
| "session_threw c w = Some w' \<Longrightarrow> worker_step cfg d b i sid w w' sid"
| "flush_timer b w = Some w' \<Longrightarrow> worker_step cfg d b i sid w w' sid"
| "run_returned d i w = Some w' \<Longrightarrow> worker_step cfg d b i sid w w' sid"

lemma server_step_cases:
  assumes "server_step e s = Some s'"
  obtains (worker) i w where "i < length (sv_workers s)" "\<not> w_exited (sv_workers s ! i)"
      "sv_workers s' = (sv_workers s)[i := w]" "sv_drain s' = sv_drain s" "sv_shutdown s' = sv_shutdown s"
      "sv_cfg s' = sv_cfg s"
      "worker_step (sv_cfg s) (sv_drain s) (sv_shutdown s) i (sv_next_sid s) (sv_workers s ! i) w (sv_next_sid s')"
  | (signal) "s' = s\<lparr> sv_shutdown := True, sv_drain := Closing 0 \<rparr>" "sv_drain s = Waiting"
  | (close) k where "sv_drain s = Closing k" "k < length (sv_workers s)"
      "s' = s\<lparr> sv_workers := (sv_workers s)[k := close_acceptor (sv_workers s ! k)], sv_drain := Closing (k + 1) \<rparr>"
  | (closed) k where "sv_drain s = Closing k" "\<not> k < length (sv_workers s)" "s' = s\<lparr> sv_drain := Draining \<rparr>"
  | (drained) "sv_drain s = Draining" "s' = s\<lparr> sv_drain := Drained \<rparr>"
proof (cases e)
  case Signal_caught
  then show thesis using assms signal by (auto split: if_splits)
next
  case Close_acceptor
  then show thesis using assms close closed by (auto split: if_splits drain.splits)
next
  case Drain_expired
  then show thesis using assms drained by (auto split: if_splits)
qed (use assms in \<open>auto simp: at_worker_Some intro!: worker intro: worker_step.intros\<close>)


section \<open>Connections after the signal\<close>

text \<open>What a worker has accepted, and whether it can still accept.\<close>

definition accept_room :: "worker \<Rightarrow> nat" where
  "accept_room w = w_accepted w + (if w_listening w \<and> w_acceptor_open w then 1 else 0)"

lemma worker_step_room: "worker_step cfg d True i sid w w' sid' \<Longrightarrow> accept_room w' \<le> accept_room w"
  by (erule worker_step.cases)
     (auto simp: accept_room_def worker_step_defs conn_updates split: if_splits option.splits conn.splits prod.splits)

lemma server_step_room:
  assumes "server_step e s = Some s'" and "sv_shutdown s"
  shows "sv_shutdown s' \<and> length (sv_workers s') = length (sv_workers s)
    \<and> (\<forall>j < length (sv_workers s). accept_room (sv_workers s' ! j) \<le> accept_room (sv_workers s ! j))"
  using assms(1)
proof (cases rule: server_step_cases)
  case (worker i w)
  then show ?thesis
    using assms(2) worker_step_room by (auto simp: nth_list_update)
next
  case (close k)
  then show ?thesis
    using assms(2) by (auto simp: nth_list_update accept_room_def close_acceptor_def)
qed (use assms(2) in auto)

lemma server_run_room:
  "server_run es s = Some s' \<Longrightarrow> sv_shutdown s \<Longrightarrow> i < length (sv_workers s) \<Longrightarrow>
     accept_room (sv_workers s' ! i) \<le> accept_room (sv_workers s ! i)"
  unfolding server_run_def
proof (induction es arbitrary: s)
  case (Cons e es)
  then obtain s1 where s1: "server_step e s = Some s1" "run_ops server_step es s1 = Some s'"
    by (auto simp: Option.bind_eq_Some_conv)
  then have "accept_room (sv_workers s' ! i) \<le> accept_room (sv_workers s1 ! i)"
    using Cons server_step_room [OF s1(1)] by simp
  also have "\<dots> \<le> accept_room (sv_workers s ! i)"
    using Cons.prems server_step_room [OF s1(1)] by simp
  finally show ?case .
qed simp

text \<open>C34. Once the shutdown has begun, every worker accepts at most one more connection (the one that
  was already being waited for), and none at all when its acceptor is closed.\<close>

theorem at_most_one_accept_after_signal:
  assumes "server_run es s = Some s'" and "sv_shutdown s" and "i < length (sv_workers s)"
  shows "w_accepted (sv_workers s' ! i)
    \<le> w_accepted (sv_workers s ! i) + (if w_acceptor_open (sv_workers s ! i) then 1 else 0)"
  using server_run_room [OF assms] by (auto simp: accept_room_def split: if_splits)

section \<open>Sessions\<close>

interpretation h11: lending_pool "\<lambda>_. TryAcquireSession" "\<lambda>_. ReleaseSession" "map s_id" s_id "\<lambda>_. True"
proof
  fix s :: session_pool and s' r
  show "TryAcquireSession s = (Some r, s') \<Longrightarrow> True \<and> add_mset (s_id r) (mset (map s_id s')) \<subseteq># mset (map s_id s)"
    by (cases s rule: rev_cases) (auto simp: TryAcquireSession_def)
qed (auto simp: TryAcquireSession_def ReleaseSession_def split: if_splits)

fun conn_sessions :: "conn \<Rightarrow> session list" where
  "conn_sessions Handshaking = []"
| "conn_sessions (H2_conn s) = [s]"
| "conn_sessions (H11_conn s) = [s]"

definition running :: "worker \<Rightarrow> session list" where
  "running w = concat (map (\<lambda>a. conn_sessions (snd a)) (w_conns w))"

definition worker_sids :: "worker \<Rightarrow> nat list" where
  "worker_sids w = map s_id (w_idle w) @ map s_id (running w)"

definition configured :: "Config \<Rightarrow> nat \<Rightarrow> session \<Rightarrow> bool" where
  "configured cfg i s \<longleftrightarrow> s_max_body s = cfg_max_body_size cfg \<and> s_ws_idle s = cfg_ws_idle_timeout cfg
     \<and> s_worker s = int i"

definition worker_ok :: "Config \<Rightarrow> worker \<Rightarrow> bool" where
  "worker_ok cfg w \<longleftrightarrow> distinct (map fst (w_conns w)) \<and> (\<forall>(k, _) \<in> set (w_conns w). k < w_accepted w)
     \<and> (\<forall>s \<in> set (running w). configured cfg (w_id w) s)"

definition ids :: "session list \<Rightarrow> nat multiset" where
  "ids ss = mset (map s_id ss)"

lemma filter_conn_ids:
  fixes cs :: "(nat \<times> conn) list"
  shows "map_of cs c = Some v \<Longrightarrow>
     ids (concat (map (\<lambda>a. conn_sessions (snd a)) (filter (\<lambda>(k, _). k \<noteq> c) cs))) + ids (conn_sessions v)
       \<subseteq># ids (concat (map (\<lambda>a. conn_sessions (snd a)) cs))"
proof (induction cs)
  case (Cons x cs)
  show ?case
  proof (cases "fst x = c")
    case True
    have "ids (concat (map (\<lambda>a. conn_sessions (snd a)) (filter (\<lambda>(k, _). k \<noteq> c) cs)))
      \<subseteq># ids (concat (map (\<lambda>a. conn_sessions (snd a)) cs))" for cs :: "(nat \<times> conn) list"
      by (induction cs) (auto simp: ids_def intro: subset_mset.add_mono subset_mset.add_increasing)
    then show ?thesis
      using True Cons.prems by (auto simp: ids_def split: prod.splits)
  next
    case False
    then show ?thesis
      using Cons by (auto simp: ids_def split: prod.splits)
  qed
qed simp

lemma set_conn_ids:
  "map_of cs c = Some Handshaking \<Longrightarrow> distinct (map fst cs) \<Longrightarrow>
     ids (concat (map (\<lambda>a. conn_sessions (snd a)) (map (\<lambda>(k, x). if k = c then (k, v) else (k, x)) cs))) =
     ids (concat (map (\<lambda>a. conn_sessions (snd a)) cs)) + ids (conn_sessions v)"
proof (induction cs)
  case (Cons x cs)
  show ?case
  proof (cases "fst x = c")
    case True
    then have "map (\<lambda>(k, x). if k = c then (k, v) else (k, x)) cs = cs"
      using Cons.prems by (intro map_idI) (force simp: image_iff split: prod.splits)
    then show ?thesis
      using True Cons.prems by (auto simp: ids_def split: prod.splits)
  qed (use Cons in \<open>auto simp: ids_def split: prod.splits\<close>)
qed simp


lemma worker_sids_alt: "mset (worker_sids w) = ids (w_idle w) + ids (running w)"
  by (simp add: worker_sids_def ids_def)

lemma ids_configure [simp]: "ids [configure cfg i s] = {#s_id s#}" "ids [fresh_session k] = {#k#}" "ids [] = {#}"
  by (simp_all add: ids_def configure_def fresh_session_def)

lemma running_end_conn: "map_of (w_conns w) c = Some v \<Longrightarrow> ids (running (end_conn c w)) + ids (conn_sessions v) \<subseteq># ids (running w)"
  using filter_conn_ids [of "w_conns w" c v] by (simp add: running_def end_conn_def)

lemma running_set_conn:
  "map_of (w_conns w) c = Some Handshaking \<Longrightarrow> distinct (map fst (w_conns w)) \<Longrightarrow>
     ids (running (set_conn c v w)) = ids (running w) + ids (conn_sessions v)"
  using set_conn_ids [of "w_conns w" c v] by (simp add: running_def set_conn_def)

lemma idle_conn_updates [simp]: "w_idle (end_conn c w) = w_idle w" "w_idle (set_conn c v w) = w_idle w"
  by (simp_all add: conn_updates)

lemma running_idle [simp]: "running (w\<lparr> w_idle := x \<rparr>) = running w" "running (w\<lparr> w_exited := b \<rparr>) = running w"
  "running (w\<lparr> w_flushing := b \<rparr>) = running w" "running (w\<lparr> w_flushes := n \<rparr>) = running w"
  "running (w\<lparr> w_listening := b \<rparr>) = running w" "running (w\<lparr> w_acceptor_open := b \<rparr>) = running w"
  by (simp_all add: running_def)

lemma handshake_done_sids:
  assumes "handshake_done cfg sid c alpn w = Some w'" and "distinct (map fst (w_conns w))"
  shows "mset (worker_sids w') \<subseteq># mset (worker_sids w) + {#sid#}"
proof (cases "IsHttp2 alpn")
  case True
  then show ?thesis
    using assms running_set_conn [of w c]
    by (auto simp: handshake_done_def worker_sids_alt fresh_session_def configure_def ids_def split: if_splits)
next
  case False
  obtain r idle where acq: "TryAcquireSession (w_idle w) = (r, idle)"
    by fastforce
  show ?thesis
  proof (cases r)
    case None
    then show ?thesis
      using assms False acq running_set_conn [of w c]
      by (auto simp: handshake_done_def worker_sids_alt fresh_session_def configure_def ids_def split: if_splits)
  next
    case (Some s)
    have "add_mset (s_id s) (ids idle) \<subseteq># ids (w_idle w)"
      using h11.acquire_some [of "w_idle w" s idle] acq Some by (simp add: ids_def)
    moreover have "mset (worker_sids w') = add_mset (s_id s) (ids idle) + ids (running w)"
      using assms False acq Some running_set_conn [of "w\<lparr> w_idle := idle \<rparr>" c "H11_conn (configure cfg (w_id w) s)"]
      by (auto simp: handshake_done_def worker_sids_alt ac_simps split: if_splits)
    ultimately have "mset (worker_sids w') \<subseteq># mset (worker_sids w)"
      by (simp add: worker_sids_alt)
    then show ?thesis
      by (meson mset_subset_eq_add_left subset_mset.order_trans)
  qed
qed

lemma mset_move:
  assumes "A \<subseteq># add_mset x I" and "add_mset x R' \<subseteq># R"
  shows "A + R' \<subseteq># I + R"
proof -
  have "A + R' \<subseteq># I + add_mset x R'"
    using assms(1) by simp
  also have "\<dots> \<subseteq># I + R"
    using assms(2) by simp
  finally show ?thesis .
qed

lemma session_done_sids:
  assumes "session_done c w = Some w'"
  shows "mset (worker_sids w') \<subseteq># mset (worker_sids w)"
proof (cases "map_of (w_conns w) c")
  case (Some v)
  show ?thesis
  proof (cases v)
    case (H11_conn s)
    then have "w' = end_conn c (w\<lparr> w_idle := ReleaseSession s (w_idle w) \<rparr>)"
      using assms Some by (simp add: session_done_def)
    moreover have "ids (ReleaseSession s (w_idle w)) \<subseteq># ids (w_idle w) + {#s_id s#}"
      using h11.release_idle [where s = "w_idle w" and r = s] by (simp add: ids_def)
    moreover have "ids (running (end_conn c (w\<lparr> w_idle := ReleaseSession s (w_idle w) \<rparr>))) + {#s_id s#}
        \<subseteq># ids (running w)"
      using running_end_conn [of "w\<lparr> w_idle := ReleaseSession s (w_idle w) \<rparr>" c v] Some H11_conn
      by (simp add: ids_def)
    ultimately show ?thesis
      using mset_move by (simp add: worker_sids_alt)
  qed (use assms Some running_end_conn [of w c v] in \<open>auto simp: session_done_def worker_sids_alt
      intro: subset_mset.order_trans [OF mset_subset_eq_add_left]\<close>)
qed (use assms in \<open>simp add: session_done_def\<close>)

lemma end_conn_sids:
  "map_of (w_conns w) c = Some v \<Longrightarrow> mset (worker_sids (end_conn c w)) \<subseteq># mset (worker_sids w)"
  using running_end_conn [of w c v]
  by (auto simp: worker_sids_alt intro: subset_mset.order_trans [OF mset_subset_eq_add_left])

lemma worker_step_sids:
  assumes "worker_step cfg d b i sid w w' sid'" and "worker_ok cfg w"
  shows "sid' = sid \<and> mset (worker_sids w') \<subseteq># mset (worker_sids w)
    \<or> sid' = Suc sid \<and> mset (worker_sids w') \<subseteq># mset (worker_sids w) + {#sid#}"
  using assms(1)
proof cases
  case (4 c alpn)
  then show ?thesis
    using handshake_done_sids assms(2) by (auto simp: worker_ok_def)
qed (auto simp: accepted_def accept_failed_def handshake_failed_def session_threw_def flush_timer_def
      run_returned_def worker_sids_alt running_def ids_def split: if_splits dest: session_done_sids end_conn_sids)

lemma map_fst_set_conn: "map fst (map (\<lambda>(k, x). if k = c then (k, v) else (k, x)) cs) = map fst cs"
  by (induction cs) auto

lemma running_filter: "set (running (end_conn c w)) \<subseteq> set (running w)"
  by (auto simp: running_def end_conn_def)

lemma end_conn_ok: "worker_ok cfg w \<Longrightarrow> worker_ok cfg (end_conn c w)"
  using running_filter [of c w] by (auto simp: worker_ok_def end_conn_def distinct_map_filter)

lemma set_conn_ok:
  assumes "worker_ok cfg w" and "list_all (configured cfg (w_id w)) (conn_sessions v)"
  shows "worker_ok cfg (set_conn c v w)"
proof -
  have "set (running (set_conn c v w)) \<subseteq> set (running w) \<union> set (conn_sessions v)"
    by (force simp: running_def set_conn_def split: if_splits)
  moreover have "\<forall>(k, _) \<in> set (w_conns (set_conn c v w)). k < w_accepted (set_conn c v w)"
    using assms(1) by (auto simp: worker_ok_def set_conn_def split: if_splits)
  moreover have "map fst (w_conns (set_conn c v w)) = map fst (w_conns w)"
    using map_fst_set_conn [of c v "w_conns w"] by (simp add: set_conn_def del: map_map)
  moreover have "w_id (set_conn c v w) = w_id w"
    by (simp add: set_conn_def)
  ultimately show ?thesis
    using assms by (auto simp: worker_ok_def list_all_iff)
qed

lemma worker_ok_fields [simp]: "worker_ok cfg (w\<lparr> w_idle := x \<rparr>) = worker_ok cfg w"
  "worker_ok cfg (w\<lparr> w_listening := b \<rparr>) = worker_ok cfg w"
  "worker_ok cfg (w\<lparr> w_flushing := b \<rparr>) = worker_ok cfg w"
  "worker_ok cfg (w\<lparr> w_flushes := n \<rparr>) = worker_ok cfg w"
  "worker_ok cfg (w\<lparr> w_exited := b \<rparr>) = worker_ok cfg w"
  by (simp_all add: worker_ok_def)

lemma configured_configure [simp]: "configured cfg i (configure cfg i s)"
  by (simp add: configured_def configure_def)

lemma accepted_ok: "accepted b w = Some w' \<Longrightarrow> worker_ok cfg w \<Longrightarrow> worker_ok cfg w'"
  by (force simp: accepted_def worker_ok_def running_def split: if_splits)

lemma worker_step_ok:
  assumes "worker_step cfg d b i sid w w' sid'" and "worker_ok cfg w"
  shows "worker_ok cfg w'"
  using assms(1)
proof cases
  case 1
  then show ?thesis
    using accepted_ok assms(2) by blast
next
  case (4 c alpn)
  then show ?thesis
    using assms(2) by (auto simp: handshake_done_def intro!: set_conn_ok split: if_splits option.splits prod.splits)
qed (use assms(2) in \<open>auto simp: worker_step_defs intro!: end_conn_ok
      split: if_splits option.splits conn.splits\<close>)

text \<open>All session objects of the server: idle and in use, of all workers.\<close>

definition all_sids :: "worker list \<Rightarrow> nat list" where
  "all_sids ws = concat (map worker_sids ws)"

lemma all_sids_update:
  assumes "i < length ws"
  shows "mset (all_sids (ws[i := w])) + mset (worker_sids (ws ! i)) = mset (all_sids ws) + mset (worker_sids w)"
proof -
  have "mset (all_sids ws) = mset (all_sids (take i ws @ ws ! i # drop (Suc i) ws))"
    using assms by (simp add: id_take_nth_drop [symmetric])
  then show ?thesis
    using assms by (simp add: all_sids_def upd_conv_take_nth_drop)
qed

lemma all_sids_sub:
  assumes "i < length ws" and "mset (worker_sids w) \<subseteq># mset (worker_sids (ws ! i)) + X"
  shows "mset (all_sids (ws[i := w])) \<subseteq># mset (all_sids ws) + X"
proof -
  have "mset (all_sids (ws[i := w])) + mset (worker_sids (ws ! i))
      \<subseteq># mset (all_sids ws) + X + mset (worker_sids (ws ! i))"
    unfolding all_sids_update [OF assms(1)] using assms(2) by (simp add: ac_simps)
  then show ?thesis
    by simp
qed

definition sids_ok :: "server \<Rightarrow> bool" where
  "sids_ok s \<longleftrightarrow> distinct (all_sids (sv_workers s)) \<and> (\<forall>x \<in> set (all_sids (sv_workers s)). x < sv_next_sid s)"

lemma sids_ok_step:
  assumes "sids_ok s"
    and "mset (all_sids (sv_workers s')) \<subseteq># mset (all_sids (sv_workers s)) \<and> sv_next_sid s' = sv_next_sid s
      \<or> mset (all_sids (sv_workers s')) \<subseteq># mset (all_sids (sv_workers s)) + {#sv_next_sid s#}
         \<and> sv_next_sid s' = Suc (sv_next_sid s)"
  shows "sids_ok s'"
  using assms(2)
proof
  assume "mset (all_sids (sv_workers s')) \<subseteq># mset (all_sids (sv_workers s)) \<and> sv_next_sid s' = sv_next_sid s"
  then show ?thesis
    using assms(1) distinct_sub [of "all_sids (sv_workers s')" "all_sids (sv_workers s)"]
    by (auto simp: sids_ok_def dest!: set_mset_mono)
next
  assume new: "mset (all_sids (sv_workers s')) \<subseteq># mset (all_sids (sv_workers s)) + {#sv_next_sid s#}
      \<and> sv_next_sid s' = Suc (sv_next_sid s)"
  have "distinct (all_sids (sv_workers s) @ [sv_next_sid s])"
    using assms(1) by (auto simp: sids_ok_def)
  then have "distinct (all_sids (sv_workers s'))"
    using new distinct_sub [of "all_sids (sv_workers s')" "all_sids (sv_workers s) @ [sv_next_sid s]"] by simp
  moreover have "\<forall>x \<in> set (all_sids (sv_workers s')). x < Suc (sv_next_sid s)"
    using new assms(1) set_mset_mono [OF conjunct1 [OF new]] by (auto simp: sids_ok_def less_Suc_eq)
  ultimately show ?thesis
    using new by (simp add: sids_ok_def)
qed

definition server_inv :: "Config \<Rightarrow> server \<Rightarrow> bool" where
  "server_inv cfg s \<longleftrightarrow> sv_cfg s = cfg \<and> sids_ok s
     \<and> (\<forall>i < length (sv_workers s). worker_ok cfg (sv_workers s ! i))"

lemma close_acceptor_same:
  "worker_ok cfg (close_acceptor w) = worker_ok cfg w" "worker_sids (close_acceptor w) = worker_sids w"
  by (simp_all add: worker_ok_def close_acceptor_def worker_sids_def)

lemma server_step_inv:
  assumes "server_inv cfg s" and "server_step e s = Some s'"
  shows "server_inv cfg s'"
  using assms(2)
proof (cases rule: server_step_cases)
  case (worker i w)
  note ok = assms(1) [unfolded server_inv_def]
  have w: "worker_ok cfg w"
    using worker ok worker_step_ok [of cfg] by auto
  have "sids_ok s'"
  proof (rule sids_ok_step)
    have "worker_ok (sv_cfg s) (sv_workers s ! i)"
      using worker(1) ok by simp
    from worker_step_sids [OF worker(7) this]
    show "mset (all_sids (sv_workers s')) \<subseteq># mset (all_sids (sv_workers s)) \<and> sv_next_sid s' = sv_next_sid s
      \<or> mset (all_sids (sv_workers s')) \<subseteq># mset (all_sids (sv_workers s)) + {#sv_next_sid s#}
         \<and> sv_next_sid s' = Suc (sv_next_sid s)"
      using all_sids_sub [OF worker(1), of w "{#}"] all_sids_sub [OF worker(1), of w "{#sv_next_sid s#}"]
      unfolding worker(3) add_0_right by blast
  qed (use ok in blast)
  then show ?thesis
    using w worker ok by (auto simp: server_inv_def nth_list_update)
next
  case (close k)
  have "mset (all_sids (sv_workers s')) = mset (all_sids (sv_workers s))"
    using close all_sids_update [of k "sv_workers s" "close_acceptor (sv_workers s ! k)"]
    by (simp add: close_acceptor_same)
  then show ?thesis
    using assms(1) close sids_ok_step [of s s']
    by (auto simp: server_inv_def nth_list_update close_acceptor_same)
qed (use assms(1) in \<open>auto simp: server_inv_def sids_ok_def\<close>)

interpretation srv: step_invariant server_step "server_inv cfg"
  by unfold_locales (rule server_step_inv)

lemma start_inv:
  assumes "StartServer cfg pushed = Inr s"
  shows "server_inv cfg s"
proof -
  have "worker_sids (new_worker n) = []" for n
    by (simp add: worker_sids_def running_def new_worker_def)
  then have "all_sids (map (\<lambda>i. new_worker (f i)) xs) = []" for f and xs :: "nat list"
    by (simp add: all_sids_def)
  then show ?thesis
    using assms by (auto simp: StartServer_def server_inv_def sids_ok_def worker_ok_def running_def new_worker_def
        split: if_splits)
qed


section \<open>Shutting down\<close>

definition drain_inv :: "server \<Rightarrow> bool" where
  "drain_inv s \<longleftrightarrow> sv_workers s \<noteq> [] \<and> (w_exited (sv_workers s ! 0) \<longrightarrow> sv_drain s = Drained)
     \<and> (sv_drain s = Waiting \<longrightarrow> \<not> sv_shutdown s) \<and> (\<forall>k. sv_drain s = Closing k \<longrightarrow> k \<le> length (sv_workers s))"

lemma worker_step_exited:
  "worker_step cfg d b i sid w w' sid' \<Longrightarrow> w_exited w' \<Longrightarrow> w_exited w \<or> d = Drained \<or> \<not> has_work d i w"
  by (erule worker_step.cases)
     (auto simp: worker_step_defs conn_updates split: if_splits option.splits conn.splits prod.splits)

interpretation dr: step_invariant server_step drain_inv
proof
  fix s e s'
  assume inv: "drain_inv s" and step: "server_step e s = Some s'"
  from step show "drain_inv s'"
  proof (cases rule: server_step_cases)
    case (worker i w)
    have "w_exited (sv_workers s' ! 0) \<longrightarrow> sv_drain s = Drained"
      using worker inv worker_step_exited [OF worker(7)]
      by (cases i) (auto simp: drain_inv_def has_work_def)
    then show ?thesis
      using worker inv by (auto simp: drain_inv_def)
  next
    case (close k)
    then show ?thesis
      using inv by (cases k) (auto simp: drain_inv_def close_acceptor_def Suc_le_eq)
  qed (use inv in \<open>auto simp: drain_inv_def\<close>)
qed

lemma start_drain_inv: "StartServer cfg pushed = Inr s \<Longrightarrow> drain_inv s"
  by (auto simp: StartServer_def drain_inv_def new_worker_def split: if_splits)

text \<open>The server returns only after the whole drain time: even when all connections ended long
  ago, the timer keeps the first worker running until it expires.\<close>

theorem start_returns_after_drain:
  assumes "StartServer cfg pushed = Inr s0" and "server_run es s0 = Some s" and "start_returned s"
  shows "sv_drain s = Drained"
proof -
  have "drain_inv s"
    using dr.run_inv [OF assms(2) [unfolded server_run_def] start_drain_inv [OF assms(1)]] .
  then show ?thesis
    using assms(3) by (auto simp: drain_inv_def start_returned_def list_all_length)
qed

lemma run_append:
  "server_run es s = Some s1 \<Longrightarrow> server_run es' s1 = Some s2 \<Longrightarrow> server_run (es @ es') s = Some s2"
  unfolding server_run_def by (induction es arbitrary: s) (auto simp: Option.bind_eq_Some_conv)

text \<open>Ways to go on: the acceptors can all be closed, and after the drain all loops can return.\<close>

definition same_accepted :: "server \<Rightarrow> server \<Rightarrow> bool" where
  "same_accepted s s' \<longleftrightarrow> map w_accepted (sv_workers s') = map w_accepted (sv_workers s)"

lemma same_accepted_update:
  "i < length ws \<Longrightarrow> w_accepted w = w_accepted (ws ! i) \<Longrightarrow> map w_accepted (ws[i := w]) = map w_accepted ws"
  by (simp add: map_update list_update_same_conv)

lemma close_all:
  "sv_drain s = Closing k \<Longrightarrow> \<exists>es s'. server_run es s = Some s' \<and> sv_drain s' = Draining \<and> same_accepted s s'"
proof (induction "length (sv_workers s) - k" arbitrary: s k)
  case 0
  then show ?case
    by (intro exI [of _ "[Close_acceptor]"]) (simp add: server_run_def same_accepted_def)
next
  case (Suc n)
  let ?s = "s\<lparr> sv_workers := (sv_workers s)[k := close_acceptor (sv_workers s ! k)], sv_drain := Closing (k + 1) \<rparr>"
  have step: "server_step Close_acceptor s = Some ?s" and n: "n = length (sv_workers s) - Suc k"
    using Suc.hyps(2) Suc.prems by simp_all
  obtain es s' where "server_run es ?s = Some s'" "sv_drain s' = Draining" "same_accepted ?s s'"
    using Suc.hyps(1) [of ?s "k + 1"] n by auto
  moreover from Suc.hyps(2) have "same_accepted s ?s"
    by (simp add: same_accepted_def same_accepted_update close_acceptor_def)
  ultimately show ?case
    using step by (intro exI [of _ "Close_acceptor # es"] exI [of _ s']) (simp add: server_run_def same_accepted_def)
qed

lemma all_return:
  "sv_drain s = Drained \<Longrightarrow> n \<le> length (sv_workers s) \<Longrightarrow>
     \<exists>es s'. server_run es s = Some s' \<and> sv_drain s' = Drained \<and> same_accepted s s'
       \<and> (\<forall>i < n. w_exited (sv_workers s' ! i))"
proof (induction n)
  case 0
  then show ?case
    by (intro exI [of _ "[]"]) (simp add: server_run_def same_accepted_def)
next
  case (Suc n)
  then obtain es s1 where s1: "server_run es s = Some s1" "sv_drain s1 = Drained" "same_accepted s s1"
    "\<forall>i < n. w_exited (sv_workers s1 ! i)"
    by auto
  have len: "n < length (sv_workers s1)"
    using Suc.prems(2) s1(3) by (metis Suc_le_lessD length_map same_accepted_def)
  show ?case
  proof (cases "w_exited (sv_workers s1 ! n)")
    case True
    then show ?thesis
      using s1 by (auto simp: less_Suc_eq)
  next
    case False
    let ?s = "s1\<lparr> sv_workers := (sv_workers s1)[n := (sv_workers s1 ! n)\<lparr> w_exited := True \<rparr>] \<rparr>"
    have "server_run [Run_returned n] s1 = Some ?s"
      using False len s1(2) by (simp add: server_run_def at_worker_def run_returned_def)
    then have "server_run (es @ [Run_returned n]) s = Some ?s"
      using run_append s1(1) by blast
    moreover have "same_accepted s ?s"
      using s1(3) len by (simp add: same_accepted_def same_accepted_update)
    ultimately show ?thesis
      using s1(2,4) len by (intro exI [of _ "es @ [Run_returned n]"] exI [of _ ?s]) (auto simp: less_Suc_eq)
  qed
qed

lemma can_drain:
  assumes "drain_inv s"
  shows "\<exists>es s'. server_run es s = Some s' \<and> sv_drain s' = Drained \<and> same_accepted s s'"
proof -
  have expire: "\<exists>es s'. server_run es t = Some s' \<and> sv_drain s' = Drained \<and> same_accepted t s'"
    if "sv_drain t = Draining" for t
    using that by (intro exI [of _ "[Drain_expired]"]) (simp add: server_run_def same_accepted_def)
  have closing: "\<exists>es s'. server_run es t = Some s' \<and> sv_drain s' = Drained \<and> same_accepted t s'"
    if "sv_drain t = Closing k" for t k
  proof -
    obtain es t1 where t1: "server_run es t = Some t1" "sv_drain t1 = Draining" "same_accepted t t1"
      using close_all [OF \<open>sv_drain t = Closing k\<close>] by blast
    obtain es' s' where "server_run es' t1 = Some s'" "sv_drain s' = Drained" "same_accepted t1 s'"
      using expire [OF t1(2)] by blast
    then show ?thesis
      using run_append [OF t1(1)] t1(3) by (metis same_accepted_def)
  qed
  show ?thesis
  proof (cases "sv_drain s")
    case Waiting
    let ?t = "s\<lparr> sv_shutdown := True, sv_drain := Closing 0 \<rparr>"
    have "server_run [Signal_caught] s = Some ?t"
      using assms Waiting by (simp add: server_run_def drain_inv_def)
    moreover obtain es s' where "server_run es ?t = Some s'" "sv_drain s' = Drained" "same_accepted ?t s'"
      using closing [of ?t 0] by auto
    ultimately show ?thesis
      using run_append [of "[Signal_caught]" s ?t es s']
      by (intro exI [of _ "[Signal_caught] @ es"] exI [of _ s']) (simp add: same_accepted_def)
  next
    case Drained
    then show ?thesis
      by (intro exI [of _ "[]"]) (simp add: server_run_def same_accepted_def)
  qed (use closing expire in auto)
qed


section \<open>A history\<close>

definition two_threads :: Config where
  "two_threads = default_config\<lparr> cfg_threads := 2, cfg_max_body_size := 1000 \<rparr>"

definition started :: server where
  "started = projr (StartServer two_threads Suc)"

text \<open>Two HTTP/1.1 connections one after the other (the session is reused), an HTTP/2 one on the
  other worker, and a signal.\<close>

definition some_events :: "event list" where
  "some_events =
     [Accepted 0, Handshake_done 0 0 (Some ''http/1.1''), Session_done 0 0, Accepted 0, Handshake_done 0 1 None,
      Accepted 1, Handshake_done 1 0 (Some ''h2''), Flush_timer 0, Signal_caught, Accepted 1, Close_acceptor]"

definition draining :: server where
  "draining = the (server_run some_events started)"

lemma started_ok: "StartServer two_threads Suc = Inr started"
  by (simp add: started_def StartServer_def two_threads_def default_config_def)

lemma draining_run: "server_run some_events started = Some draining"
proof -
  have "server_run some_events started \<noteq> None"
    by code_simp
  then show ?thesis
    by (simp add: draining_def)
qed


theorem at_most_one_accept_after_signal_witness:
  "\<exists>s'. server_run [Accept_failed 0, Close_acceptor, Close_acceptor] draining = Some s'
     \<and> w_accepted (sv_workers s' ! 1) \<le> w_accepted (sv_workers draining ! 1) + 1
     \<and> w_accepted (sv_workers s' ! 0) \<le> w_accepted (sv_workers draining ! 0)"
proof -
  let ?es = "[Accept_failed 0, Close_acceptor, Close_acceptor]"
  have "server_run ?es draining \<noteq> None" and b: "sv_shutdown draining"
    "length (sv_workers draining) = 2" "\<not> w_acceptor_open (sv_workers draining ! 0)"
    "w_acceptor_open (sv_workers draining ! 1)"
    by code_simp+
  then obtain s' where "server_run ?es draining = Some s'"
    by blast
  then show ?thesis
    using at_most_one_accept_after_signal [of ?es draining s' 0]
      at_most_one_accept_after_signal [of ?es draining s' 1] b by simp
qed


definition ending :: "event list" where
  "ending = [Accept_failed 0, Close_acceptor, Close_acceptor, Session_done 0 1, Session_done 1 0,
     Handshake_failed 1 1, Flush_timer 0, Flush_timer 1, Run_returned 1, Drain_expired, Run_returned 0]"

theorem start_returns_after_drain_witness:
  "sv_drain (the (server_run (some_events @ ending) started)) = Drained
   \<and> server_run (some_events @ take 9 ending @ [Run_returned 0]) started = None"
proof -
  have "server_run (some_events @ ending) started \<noteq> None"
    "start_returned (the (server_run (some_events @ ending) started))"
    by code_simp+
  moreover have "server_run (some_events @ take 9 ending @ [Run_returned 0]) started = None"
    by code_simp
  ultimately show ?thesis
    using start_returns_after_drain [OF started_ok] by auto
qed

section \<open>Deviations\<close>

text \<open>\<open>RequestShutdown\<close> is documented as starting a graceful shutdown. It only sets the flag: no
  acceptor is closed and no drain begins, and a signal that comes later is ignored.\<close>

lemma request_shutdown_ignores_signals:
  "server_step Signal_caught (RequestShutdown s) = None \<and> sv_workers (RequestShutdown s) = sv_workers s
   \<and> sv_drain (RequestShutdown s) = sv_drain s"
  by (simp add: RequestShutdown_def)

text \<open>The validated number of threads starts; the others do not, and nothing checks it at the start.\<close>

lemma start_needs_threads:
  "isl (StartServer cfg pushed) \<longleftrightarrow> cfg_threads cfg < 1"
  by (simp add: StartServer_def)

text \<open>A worker whose coroutine runs before \<open>Start\<close> has stored the worker takes itself for the first one.\<close>

lemma listen_id_race:
  assumes "StartServer cfg pushed = Inr s" and "i < length (sv_workers s)"
  shows "w_id (sv_workers s ! i) = (if i < pushed i then i else 0)"
  using assms by (auto simp: StartServer_def listen_id_def new_worker_def split: if_splits)

text \<open>\<^verbatim>\<open>SSL_select_next_proto\<close> returns 1 or 2, never a negative number: the callback accepts a client
  without a common protocol, and the connection is served as HTTP/1.1.\<close>

lemma alpn_never_rejects: "ret \<in> {1, 2} \<Longrightarrow> alpn_select_cb ret = Alpn_ok"
  by (auto simp: alpn_select_cb_def)

end
