(* ===== verification/Database.thy ===== *)
theory Database
  imports Web_Prelude
begin

text \<open>
  The SQLite connection (\<^verbatim>\<open>db/database.cpp\<close>, \<^verbatim>\<open>database.hpp\<close>, \<^verbatim>\<open>db_interface.hpp\<close>). The SQLite library
  is a record of the functions that are called, over its own state: a step of a statement gives a row
  (a column may be \<open>NULL\<close>), the end, or an error. Moving to the thread pool and back does not change the state.
\<close>

datatype 't step_result = Sqlite_row "string option list" 't | Sqlite_done | Sqlite_error

record ('d, 't) sqlite =
  sq_open :: "string \<Rightarrow> 'd option"
  sq_exec :: "string \<Rightarrow> 'd \<Rightarrow> bool \<times> 'd"
  sq_prepare :: "string \<Rightarrow> 'd \<Rightarrow> 't option"
  sq_step :: "'t \<Rightarrow> 't step_result"
  sq_last_rowid :: "'d \<Rightarrow> int"

type_synonym row = "string list"

text \<open>The connection: \<open>None\<close> when \<open>db_\<close> is null.\<close>

type_synonym 'd database = "'d option"

definition new_database :: "('d, 't) sqlite \<Rightarrow> string \<Rightarrow> 'd database" where
  "new_database L path =
     (case sq_open L path of
        None \<Rightarrow> None
      | Some d \<Rightarrow> Some (snd (sq_exec L ''PRAGMA journal_mode=WAL;'' d)))"

definition IsOpen :: "'d database \<Rightarrow> bool" where
  "IsOpen db \<longleftrightarrow> db \<noteq> None"

definition DbExecute :: "('d, 't) sqlite \<Rightarrow> string \<Rightarrow> 'd database \<Rightarrow> 'd database" where
  "DbExecute L sql db = map_option (\<lambda>d. snd (sq_exec L sql d)) db"

definition column_text :: "string option \<Rightarrow> string" where
  "column_text c = (case c of None \<Rightarrow> [] | Some s \<Rightarrow> s)"

text \<open>A statement may have rows without end; then the loop does not return, \<open>None\<close>.\<close>

partial_function (option) fetch_rows :: "('t \<Rightarrow> 't step_result) \<Rightarrow> 't \<Rightarrow> row list \<Rightarrow> row list option" where
  [code]: "fetch_rows step st result =
     (case step st of
        Sqlite_row cols st' \<Rightarrow> fetch_rows step st' (result @ [map column_text cols])
      | _ \<Rightarrow> Some result)"

definition DbQuery :: "('d, 't) sqlite \<Rightarrow> string \<Rightarrow> 'd database \<Rightarrow> row list option" where
  "DbQuery L sql db =
     (case db of
        None \<Rightarrow> Some []
      | Some d \<Rightarrow>
          (case sq_prepare L sql d of None \<Rightarrow> Some [] | Some st \<Rightarrow> fetch_rows (sq_step L) st []))"

definition LastInsertRowId :: "('d, 't) sqlite \<Rightarrow> 'd database \<Rightarrow> int" where
  "LastInsertRowId L db = (case db of None \<Rightarrow> 0 | Some d \<Rightarrow> sq_last_rowid L d)"

section \<open>Properties\<close>

text \<open>The rows a statement gives, and how it ends.\<close>

inductive gives_rows :: "('t \<Rightarrow> 't step_result) \<Rightarrow> 't \<Rightarrow> string option list list \<Rightarrow> 't step_result \<Rightarrow> bool"
  for step where
  "step st = e \<Longrightarrow> e \<in> {Sqlite_done, Sqlite_error} \<Longrightarrow> gives_rows step st [] e"
| "step st = Sqlite_row cols st' \<Longrightarrow> gives_rows step st' rows e \<Longrightarrow> gives_rows step st (cols # rows) e"

lemma fetch_rows_complete:
  "gives_rows step st rows e \<Longrightarrow> fetch_rows step st acc = Some (acc @ map (map column_text) rows)"
  by (induction arbitrary: acc rule: gives_rows.induct) (auto simp: fetch_rows.simps)

text \<open>A query on an open database returns, and gives all rows of the statement in order, with
  empty text for \<open>NULL\<close>. It gives them in the same way when the statement ends in an error: the
  caller cannot tell a complete answer from one that was cut off.\<close>

theorem query_returns_all_rows:
  assumes "sq_prepare L sql d = Some st" and "gives_rows (sq_step L) st rows e"
  shows "DbQuery L sql (Some d) = Some (map (map column_text) rows)"
  using assms fetch_rows_complete [OF assms(2), of "[]"] by (simp add: DbQuery_def)

text \<open>A small engine: a statement is the list of the rows it still has to give, and \<open>broken\<close> says whether it
  ends in an error.\<close>

definition table_engine :: "bool \<Rightarrow> (nat, string option list list) sqlite" where
  "table_engine broken =
     \<lparr> sq_open = (\<lambda>_. Some 0), sq_exec = (\<lambda>_ d. (True, d)),
       sq_prepare = (\<lambda>sql _. if sql = ''SELECT'' then Some [[Some ''1'', None], [Some ''2'', Some ''b'']] else None),
       sq_step = (\<lambda>rows. case rows of [] \<Rightarrow> if broken then Sqlite_error else Sqlite_done
                                   | r # rs \<Rightarrow> Sqlite_row r rs),
       sq_last_rowid = int \<rparr>"

lemma table_engine_rows:
  "gives_rows (sq_step (table_engine b)) rows rows (if b then Sqlite_error else Sqlite_done)"
proof (induction rows)
  case Nil
  show ?case
    by (rule gives_rows.intros(1)) (simp_all add: table_engine_def)
next
  case (Cons r rows)
  then show ?case
    by (intro gives_rows.intros(2) [where st' = rows]) (simp_all add: table_engine_def)
qed

theorem query_returns_all_rows_witness:
  "DbQuery (table_engine True) ''SELECT'' (new_database (table_engine True) ''server.db'') =
     Some [[''1'', ''''], [''2'', ''b'']]"
proof -
  have db: "new_database (table_engine True) ''server.db'' = Some 0"
    by (simp add: new_database_def table_engine_def)
  show ?thesis
    unfolding db
    using query_returns_all_rows [of "table_engine True" "''SELECT''" 0 "[[Some ''1'', None], [Some ''2'', Some ''b'']]"
        "[[Some ''1'', None], [Some ''2'', Some ''b'']]" Sqlite_error] table_engine_rows [of True]
    by (simp add: table_engine_def column_text_def)
qed

text \<open>A database that could not be opened accepts every call and does nothing.\<close>

lemma closed_database:
  "\<not> IsOpen db \<Longrightarrow> DbExecute L sql db = db \<and> DbQuery L sql db = Some [] \<and> LastInsertRowId L db = 0"
  by (simp add: IsOpen_def DbExecute_def DbQuery_def LastInsertRowId_def)

end
