(* ===== verification/Health.thy ===== *)
theory Health
  imports Static_Files
begin

text \<open>
  The health check (\<^verbatim>\<open>handler/health.cpp\<close>). \<open>now\<close> is the current time and \<open>start_time\<close> the time of the
  first check, both in seconds; without a region the answer is fixed.
\<close>

definition health_json :: "int \<Rightarrow> int \<Rightarrow> string" where
  \<open>health_json start_time now =
     ''{"status":"ok","uptime":'' @ uint_text (unat (word_of_int (now - start_time) :: u64)) @ ''}''\<close>

definition HandleHealth ::
  "int \<Rightarrow> int \<Rightarrow> string \<Rightarrow> HandlerCtx \<Rightarrow> region_state \<Rightarrow> response_state" where
  "HandleHealth start_time now date ctx st =
     (let json = health_json start_time now;
          (st1, r1) = EndHeaders date (add_extra ctx (ResponseHeader ''Cache-Control'' ''no-cache''
             (ResponseHeaderUint ''Content-Length'' (length json)
               (ResponseHeader ''Content-Type'' ''application/json'' (new_response 200 st)))))
      in (WriteRegion json st1, r1))"

definition HandleHealthNoPool :: Response where
  \<open>HandleHealthNoPool = RawResponse 200 ''{"status":"ok"}''\<close>

text \<open>The fields of the answer.\<close>

definition health_fields :: "int \<Rightarrow> int \<Rightarrow> HandlerCtx \<Rightarrow> (string \<times> string) list" where
  "health_fields start_time now ctx =
     [(''Content-Type'', ''application/json''),
      (''Content-Length'', uint_text (length (health_json start_time now))),
      (''Cache-Control'', ''no-cache'')] @ hc_extra ctx"

lemma HandleHealth_build:
  assumes "\<not> sr_structured (snd st)"
  shows "HandleHealth start_time now date ctx st =
    (case EndHeaders date (fold (\<lambda>(k, v). ResponseHeader k v) (health_fields start_time now ctx) (new_response 200 st)) of
       (st1, r1) \<Rightarrow> (WriteRegion (health_json start_time now) st1, r1))"
  using assms by (simp add: HandleHealth_def Let_def add_extra_def health_fields_def ResponseHeaderUint_text)

text \<open>Over HTTP/1.1 the health check answers 200 with its JSON object, the right length, and the
  fields the middlewares injected.\<close>

theorem health_answer_exact:
  assumes "region_inv others st" and "\<not> sr_structured (snd st)"
    and "sr_used (snd st) + length (head_text 200 (health_fields start_time now ctx) date True)
      + length (health_json start_time now) \<le> sr_cap (snd st)"
  shows "HeaderWire (HandleHealth start_time now date ctx st) =
      head_text 200 (health_fields start_time now ctx) date True
    \<and> BodyWire (HandleHealth start_time now date ctx st) = health_json start_time now"
proof -
  obtain st1 r1 where e: "EndHeaders date (fold (\<lambda>(k, v). ResponseHeader k v) (health_fields start_time now ctx)
      (new_response 200 st)) = (st1, r1)"
    by fastforce
  then show ?thesis
    using build_wire [OF assms e] by (simp add: HandleHealth_build [OF assms(2)])
qed

theorem health_answer_exact_witness:
  \<open>BodyWire (HandleHealth 100 142 ''now'' hello_ctx (fst two_sessions, hd (snd two_sessions))) =
     ''{"status":"ok","uptime":42}''\<close>
proof -
  have j: \<open>health_json 100 142 = ''{"status":"ok","uptime":42}''\<close>
    by code_simp
  let ?head = "head_text 200 (health_fields 100 142 hello_ctx) ''now'' True"
  have "length ?head \<le> 1000"
    by code_simp
  then have "sr_used (snd (fst two_sessions, hd (snd two_sessions))) + length ?head + length (health_json 100 142)
      \<le> sr_cap (snd (fst two_sessions, hd (snd two_sessions)))"
    by (simp add: fresh_region_fields j)
  from conjunct2 [OF health_answer_exact [OF fresh_region _ this]] show ?thesis
    by (simp add: fresh_region_fields j)
qed

end
