(* ===== verification/Pooled_Object.thy ===== *)
theory Pooled_Object
  imports Pools
begin

text \<open>
  The handles of the object pool (\<^verbatim>\<open>ObjectPool::PooledObject\<close> in \<^verbatim>\<open>net/object_pool.hpp\<close>): an object is
  reset and returned when its handle is destroyed or assigned to, and moving a handle passes
  the object on. The program's handle variables are a list; \<open>ps_dirty\<close> says which objects have
  been changed since they were created or reset.
\<close>

record pooled_state =
  ps_pool :: ObjectPool
  ps_vars :: "nat option list"
  ps_dirty :: "nat \<Rightarrow> bool"

definition release_obj :: "nat \<Rightarrow> nat option \<Rightarrow> pooled_state \<Rightarrow> pooled_state" where
  "release_obj capacity h s =
     (case h of
        None \<Rightarrow> s
      | Some obj \<Rightarrow>
          s\<lparr> ps_dirty := (ps_dirty s)(obj := False), ps_pool := ReturnObject capacity obj (ps_pool s) \<rparr>)"

text \<open>
  What the program does with its variables: \<open>Fresh i a\<close> is \<^verbatim>\<open>v[i] = pool.Acquire()\<close> with the address
  \<open>a\<close> for a new object, \<open>Move i j\<close> is \<^verbatim>\<open>v[i] = std::move(v[j])\<close>, \<open>Construct j\<close> makes a variable
  from \<^verbatim>\<open>std::move(v[j])\<close>, \<open>Destroy i\<close> ends the life of a variable, \<open>Modify i\<close> works with the object.
\<close>

datatype pooled_op = Fresh nat nat | Move nat nat | Construct nat | Destroy nat | Modify nat

fun pooled_step :: "nat \<Rightarrow> pooled_op \<Rightarrow> pooled_state \<Rightarrow> pooled_state option" where
  "pooled_step capacity (Fresh i a) s =
     (if i < length (ps_vars s) \<and> a \<notin> set (op_stack (ps_pool s)) \<and> Some a \<notin> set (ps_vars s) then
        (case AcquireObject a (ps_pool s) of
           (obj, p) \<Rightarrow>
             let s1 = s\<lparr> ps_pool := p, ps_dirty := (if obj = a then (ps_dirty s)(a := False) else ps_dirty s) \<rparr>;
                 s2 = release_obj capacity (ps_vars s ! i) s1
             in Some (s2\<lparr> ps_vars := (ps_vars s)[i := Some obj] \<rparr>))
      else None)"
| "pooled_step capacity (Move i j) s =
     (if i < length (ps_vars s) \<and> j < length (ps_vars s) then
        if i = j then Some s
        else let s1 = release_obj capacity (ps_vars s ! i) s
             in Some (s1\<lparr> ps_vars := (ps_vars s)[i := ps_vars s ! j, j := None] \<rparr>)
      else None)"
| "pooled_step capacity (Construct j) s =
     (if j < length (ps_vars s)
      then Some (s\<lparr> ps_vars := (ps_vars s)[j := None] @ [ps_vars s ! j] \<rparr>) else None)"
| "pooled_step capacity (Destroy i) s =
     (if i < length (ps_vars s)
      then Some ((release_obj capacity (ps_vars s ! i) s)\<lparr> ps_vars := (ps_vars s)[i := None] \<rparr>) else None)"
| "pooled_step capacity (Modify i) s =
     (if i < length (ps_vars s) then
        (case ps_vars s ! i of
           None \<Rightarrow> None
         | Some obj \<Rightarrow> Some (s\<lparr> ps_dirty := (ps_dirty s)(obj := True) \<rparr>))
      else None)"

definition pooled_start :: "nat \<Rightarrow> pooled_state" where
  "pooled_start n = \<lparr> ps_pool = new_object_pool, ps_vars = replicate n None, ps_dirty = (\<lambda>_. False) \<rparr>"

section \<open>Invariant\<close>

definition var_objs :: "nat option list \<Rightarrow> nat list" where
  "var_objs vs = List.map_filter id vs"

definition pooled_inv :: "nat \<Rightarrow> pooled_state \<Rightarrow> bool" where
  "pooled_inv capacity s \<longleftrightarrow> distinct (op_stack (ps_pool s) @ var_objs (ps_vars s))
     \<and> length (op_stack (ps_pool s)) \<le> capacity \<and> (\<forall>x \<in> set (op_stack (ps_pool s)). \<not> ps_dirty s x)"

lemma var_objs_simps [simp]:
  "var_objs [] = []" "var_objs (None # vs) = var_objs vs" "var_objs (Some x # vs) = x # var_objs vs"
  "var_objs (us @ vs) = var_objs us @ var_objs vs"
  by (simp_all add: var_objs_def List.map_filter_def)

lemma set_var_objs: "set (var_objs vs) = {x. Some x \<in> set vs}"
  by (induction vs rule: list.induct) (auto split: option.splits simp: var_objs_def List.map_filter_def)

definition of_var :: "nat option \<Rightarrow> nat multiset" where
  "of_var h = (case h of None \<Rightarrow> {#} | Some x \<Rightarrow> {#x#})"

lemma of_var_simps [simp]: "of_var None = {#}" "of_var (Some x) = {#x#}"
  by (simp_all add: of_var_def)

lemma mset_var_objs_Cons: "mset (var_objs (h # vs)) = of_var h + mset (var_objs vs)"
  by (cases h) auto

lemma mset_var_update:
  "i < length vs \<Longrightarrow> mset (var_objs (vs[i := h])) + of_var (vs ! i) = mset (var_objs vs) + of_var h"
proof (induction vs arbitrary: i)
  case (Cons v vs)
  then show ?case
    by (cases i) (auto simp: mset_var_objs_Cons ac_simps)
qed simp

text \<open>All objects: the free ones and those of the variables.\<close>

definition objs :: "pooled_state \<Rightarrow> nat multiset" where
  "objs s = mset (op_stack (ps_pool s)) + mset (var_objs (ps_vars s))"

lemma release_obj_pool:
  "mset (op_stack (ps_pool (release_obj c h s))) \<subseteq># mset (op_stack (ps_pool s)) + of_var h"
  "ps_vars (release_obj c h s) = ps_vars s"
  by (simp_all add: release_obj_def ReturnObject_def split: option.splits)

lemma release_obj_clean:
  "\<forall>x \<in> set (op_stack (ps_pool s)). \<not> ps_dirty s x \<Longrightarrow>
     \<forall>x \<in> set (op_stack (ps_pool (release_obj c h s))). \<not> ps_dirty (release_obj c h s) x"
  by (auto simp: release_obj_def ReturnObject_def split: option.splits)

lemma release_obj_bound:
  "length (op_stack (ps_pool s)) \<le> c \<Longrightarrow> length (op_stack (ps_pool (release_obj c h s))) \<le> c"
  by (simp add: release_obj_def ReturnObject_def split: option.splits)

text \<open>Releasing the object of a variable that gets another value.\<close>

lemma release_var:
  assumes "i < length (ps_vars s)" and "ps_vars s' = (ps_vars s)[i := h]"
    and "ps_pool s' = ps_pool (release_obj c (ps_vars s ! i) s)"
  shows "objs s' \<subseteq># objs s + of_var h"
proof -
  have "objs s' \<subseteq># mset (op_stack (ps_pool s)) + of_var (ps_vars s ! i) + mset (var_objs (ps_vars s'))"
    unfolding objs_def assms(3) using release_obj_pool(1) [of c "ps_vars s ! i" s] by (simp add: ac_simps)
  also have "\<dots> = objs s + of_var h"
    using mset_var_update [OF assms(1), of h] by (simp add: objs_def assms(2) ac_simps)
  finally show ?thesis .
qed

lemma distinct_objs:
  assumes "objs s' \<subseteq># objs s + mset new" and "distinct (op_stack (ps_pool s) @ var_objs (ps_vars s) @ new)"
  shows "distinct (op_stack (ps_pool s') @ var_objs (ps_vars s'))"
  using assms distinct_sub [of "op_stack (ps_pool s') @ var_objs (ps_vars s')" "op_stack (ps_pool s) @ var_objs (ps_vars s) @ new"]
  by (simp add: objs_def add.assoc)

text \<open>Assigning to a variable: its object goes back, reset, and the variable gets the value.\<close>

lemma assign_inv:
  assumes "i < length (ps_vars s)" and "objs s + of_var h \<subseteq># objs s0 + mset new"
    and "distinct (op_stack (ps_pool s0) @ var_objs (ps_vars s0) @ new)"
    and "length (op_stack (ps_pool s)) \<le> c" and "\<forall>x \<in> set (op_stack (ps_pool s)). \<not> ps_dirty s x"
  shows "pooled_inv c ((release_obj c (ps_vars s ! i) s)\<lparr> ps_vars := (ps_vars s)[i := h] \<rparr>)"
proof -
  let ?s' = "(release_obj c (ps_vars s ! i) s)\<lparr> ps_vars := (ps_vars s)[i := h] \<rparr>"
  have "objs ?s' \<subseteq># objs s + of_var h"
    using release_var [OF assms(1), of ?s' h c] by simp
  then have "objs ?s' \<subseteq># objs s0 + mset new"
    using assms(2) by (rule subset_mset.order_trans)
  from distinct_objs [OF this assms(3)] show ?thesis
    using release_obj_bound [OF assms(4), of "ps_vars s ! i"] release_obj_clean [OF assms(5), of c "ps_vars s ! i"]
    by (simp add: pooled_inv_def)
qed

lemma fresh_objs:
  assumes "AcquireObject a (ps_pool s) = (obj, p)"
  shows "objs (s\<lparr> ps_pool := p, ps_dirty := d \<rparr>) + of_var (Some obj) \<subseteq># objs s + mset [a]"
    and "set (op_stack p) \<subseteq> set (op_stack (ps_pool s))" and "length (op_stack p) \<le> length (op_stack (ps_pool s))"
  using assms by (auto simp: AcquireObject_def take_free_def objs_def split: list.splits)

lemma pooled_step_inv:
  assumes "pooled_inv c s" and "pooled_step c op s = Some s'"
  shows "pooled_inv c s'"
proof (cases op)
  case (Fresh i a)
  obtain obj p where acq: "AcquireObject a (ps_pool s) = (obj, p)"
    by fastforce
  define s1 where "s1 = s\<lparr> ps_pool := p, ps_dirty := (if obj = a then (ps_dirty s)(a := False) else ps_dirty s) \<rparr>"
  have i: "i < length (ps_vars s)" "a \<notin> set (op_stack (ps_pool s))" "Some a \<notin> set (ps_vars s)"
    and s': "s' = (release_obj c (ps_vars s1 ! i) s1)\<lparr> ps_vars := (ps_vars s1)[i := Some obj] \<rparr>"
    using assms(2) acq by (auto simp: Fresh Let_def s1_def split: if_splits)
  show ?thesis
    unfolding s'
  proof (rule assign_inv)
    show "objs s1 + of_var (Some obj) \<subseteq># objs s + mset [a]"
      using fresh_objs(1) [OF acq] by (simp add: s1_def)
    show "distinct (op_stack (ps_pool s) @ var_objs (ps_vars s) @ [a])"
      using assms(1) i by (auto simp: pooled_inv_def set_var_objs)
    show "\<forall>x \<in> set (op_stack (ps_pool s1)). \<not> ps_dirty s1 x"
      using assms(1) fresh_objs(2) [OF acq] by (auto simp: pooled_inv_def s1_def)
    show "length (op_stack (ps_pool s1)) \<le> c"
      using assms(1) fresh_objs(3) [OF acq] by (simp add: pooled_inv_def s1_def)
  qed (use i in \<open>simp add: s1_def\<close>)
next
  case (Move i j)
  show ?thesis
  proof (cases "i = j")
    case False
    define t where "t = s\<lparr> ps_vars := (ps_vars s)[j := None] \<rparr>"
    have ij: "i < length (ps_vars s)" "j < length (ps_vars s)"
      and s': "s' = (release_obj c (ps_vars t ! i) t)\<lparr> ps_vars := (ps_vars t)[i := ps_vars s ! j] \<rparr>"
      using assms(2) False
      by (auto simp: Move Let_def t_def release_obj_def list_update_swap split: if_splits option.splits)
    show ?thesis
      unfolding s'
    proof (rule assign_inv)
      show "objs t + of_var (ps_vars s ! j) \<subseteq># objs s + mset []"
        using mset_var_update [OF ij(2), of None] by (simp add: objs_def t_def ac_simps)
    qed (use assms(1) ij in \<open>auto simp: pooled_inv_def t_def\<close>)
  qed (use assms Move in \<open>auto split: if_splits\<close>)
next
  case (Construct j)
  then have j: "j < length (ps_vars s)" and s': "s' = s\<lparr> ps_vars := (ps_vars s)[j := None] @ [ps_vars s ! j] \<rparr>"
    using assms(2) by (auto split: if_splits)
  have "mset (var_objs [ps_vars s ! j]) = of_var (ps_vars s ! j)"
    by (cases "ps_vars s ! j") auto
  then have "objs s' \<subseteq># objs s + mset []"
    using mset_var_update [OF j, of None] by (simp add: objs_def s' ac_simps)
  from distinct_objs [OF this] show ?thesis
    using assms(1) by (simp add: pooled_inv_def s')
next
  case (Destroy i)
  then have i: "i < length (ps_vars s)"
    and s': "s' = (release_obj c (ps_vars s ! i) s)\<lparr> ps_vars := (ps_vars s)[i := None] \<rparr>"
    using assms(2) by (auto split: if_splits)
  show ?thesis
    unfolding s' by (rule assign_inv [where new = "[]" and ?s0.0 = s]) (use assms(1) i in \<open>simp_all add: pooled_inv_def\<close>)
next
  case (Modify i)
  then obtain obj where "Some obj \<in> set (ps_vars s)" "s' = s\<lparr> ps_dirty := (ps_dirty s)(obj := True) \<rparr>"
    using assms(2) by (auto split: if_splits option.splits) (metis nth_mem)
  then show ?thesis
    using assms(1) by (auto simp: pooled_inv_def set_var_objs)
qed

text \<open>However handles are acquired, moved, overwritten and destroyed, no object is in two handles or in
  a handle and free, the pool never holds more than its capacity, and every free object has
  been reset.\<close>

theorem pooled_objects_exclusive_and_clean:
  assumes "run_ops (pooled_step capacity) ops (pooled_start n) = Some s"
  shows "distinct (op_stack (ps_pool s) @ var_objs (ps_vars s)) \<and> FreeCount (ps_pool s) \<le> capacity
    \<and> (\<forall>x \<in> set (op_stack (ps_pool s)). \<not> ps_dirty s x)"
proof -
  have "var_objs (replicate n None) = []"
    by (induction n) auto
  then have "pooled_inv capacity (pooled_start n)"
    by (simp add: pooled_inv_def pooled_start_def new_object_pool_def)
  moreover have "run_ops (pooled_step capacity) ops s0 = Some s \<Longrightarrow> pooled_inv capacity s0 \<Longrightarrow> pooled_inv capacity s" for s0
    by (induction ops arbitrary: s0) (auto simp: Option.bind_eq_Some_conv intro: pooled_step_inv)
  ultimately have "pooled_inv capacity s"
    using assms by blast
  then show ?thesis
    by (simp add: pooled_inv_def FreeCount_def)
qed

definition some_ops :: "pooled_op list" where
  "some_ops = [Fresh 0 10, Modify 0, Fresh 1 11, Move 1 0, Construct 1, Modify 2, Destroy 2, Fresh 0 12]"

theorem pooled_objects_exclusive_and_clean_witness:
  "\<exists>s. run_ops (pooled_step 1) some_ops (pooled_start 2) = Some s \<and> ps_vars s = [Some 11, None, None]
     \<and> op_created (ps_pool s) = 2 \<and> FreeCount (ps_pool s) \<le> 1"
proof -
  let ?x = "run_ops (pooled_step 1) some_ops (pooled_start 2)"
  have "?x \<noteq> None" "ps_vars (the ?x) = [Some 11, None, None]" "op_created (ps_pool (the ?x)) = 2"
    by code_simp+
  then show ?thesis
    using pooled_objects_exclusive_and_clean [of 1 some_ops 2 "the ?x"] by (intro exI [of _ "the ?x"]) simp
qed

end
