(* ===== verification/Streaming.thy ===== *)
theory Streaming
  imports H2_Session Response
begin

text \<open>
  Streaming output: the interface \<open>StreamSink\<close> and the default implementations of
  \<open>RequestHandler\<close> (\<^verbatim>\<open>handler/request_handler.hpp\<close>), the sink of an HTTP/1.1 connection
  (\<^verbatim>\<open>http/http1.1/session.hpp\<close>) and that of an HTTP/2 stream (\<^verbatim>\<open>http/http2/session.cpp\<close>). What a handler
  may rely on is the locale \<open>stream_sink\<close>; both sinks meet it, and the handlers that stream
  (theory \<open>Chat\<close>) are verified once against it.
\<close>

section \<open>Server-sent events\<close>

abbreviation lf :: char where
  "lf \<equiv> CHR 0x0A"

definition sse_frame :: "string \<Rightarrow> string" where
  "sse_frame d = ''data: '' @ d @ [lf, lf]"

definition PushSSE :: "(string \<Rightarrow> 's \<Rightarrow> bool \<times> 's) \<Rightarrow> string \<Rightarrow> 's \<Rightarrow> bool \<times> 's" where
  "PushSSE send d = send (sse_frame d)"

text \<open>\<^verbatim>\<open>for (ev : events) if (!co_await sink.PushSSE(ev)) break;\<close>\<close>

fun push_all :: "(string \<Rightarrow> 's \<Rightarrow> bool \<times> 's) \<Rightarrow> string list \<Rightarrow> 's \<Rightarrow> 's" where
  "push_all send [] s = s"
| "push_all send (d # ds) s =
     (case PushSSE send d s of (ok, s') \<Rightarrow> if ok then push_all send ds s' else s')"

text \<open>The default \<open>HandleStream\<close>: the body of the response, then the end.\<close>

definition default_stream :: "(string \<Rightarrow> 's \<Rightarrow> bool \<times> 's) \<Rightarrow> ('s \<Rightarrow> 's) \<Rightarrow> response_state \<Rightarrow> 's \<Rightarrow> 's" where
  "default_stream send finish resp s = finish (snd (send (BodyWire resp) s))"

definition HandleNull :: "string \<Rightarrow> region_state \<Rightarrow> response_state" where
  "HandleNull date st = ErrorResponse date 404 st"

section \<open>The interface\<close>

text \<open>
  \<open>out\<close> is everything the sink has accepted, in the form in which it goes to the client: a chunk
  becomes \<open>frame\<close> of it, the end of the stream \<open>last\<close>.
\<close>

locale stream_sink =
  fixes send :: "string \<Rightarrow> 's \<Rightarrow> bool \<times> 's"
    and finish :: "'s \<Rightarrow> 's"
    and disconnected :: "'s \<Rightarrow> bool"
    and out :: "'s \<Rightarrow> 'o list"
    and frame :: "string \<Rightarrow> 'o list"
    and final :: "'o list"
  assumes write_ok: "send d s = (True, s') \<Longrightarrow>
      \<not> disconnected s \<and> \<not> disconnected s' \<and> out s' = out s @ frame d"
    and write_failed: "send d s = (False, s') \<Longrightarrow> disconnected s'"
    and write_closed: "disconnected s \<Longrightarrow> send d s = (False, s)"
    and finish_open: "\<not> disconnected s \<Longrightarrow> disconnected (finish s) \<and> out (finish s) = out s @ final"
    and finish_closed: "disconnected s \<Longrightarrow> finish s = s"
begin

lemma push_all_complete:
  "\<not> disconnected s \<Longrightarrow> \<not> disconnected (push_all send ds s) \<Longrightarrow>
     out (push_all send ds s) = out s @ concat (map (\<lambda>d. frame (sse_frame d)) ds)"
proof (induction ds arbitrary: s)
  case (Cons d ds)
  obtain ok s' where w: "send (sse_frame d) s = (ok, s')"
    by fastforce
  have ok
    using w write_failed Cons.prems(2) by (cases ok) (auto simp: PushSSE_def)
  with w have "\<not> disconnected s' \<and> out s' = out s @ frame (sse_frame d)"
    using write_ok by simp
  with Cons w \<open>ok\<close> show ?case
    by (simp add: PushSSE_def)
qed simp

lemma push_all_closed: "disconnected s \<Longrightarrow> push_all send ds s = s"
  by (cases ds) (simp_all add: PushSSE_def write_closed)

lemma push_all_append:
  "push_all send (ds @ es) s =
     (let s' = push_all send ds s in if disconnected s' then s' else push_all send es s')"
proof (induction ds arbitrary: s)
  case Nil
  then show ?case
    by (simp add: push_all_closed)
next
  case (Cons d ds)
  obtain ok s' where w: "send (sse_frame d) s = (ok, s')"
    by fastforce
  show ?case
  proof (cases ok)
    case True
    then show ?thesis
      using Cons w by (simp add: PushSSE_def)
  next
    case False
    then show ?thesis
      using w write_failed by (auto simp: PushSSE_def Let_def)
  qed
qed

text \<open>Everything pushed and the end: all of it arrives, unless the client went away.\<close>

lemma pushed_and_ended:
  assumes "\<not> disconnected s"
  shows "disconnected (finish (push_all send ds s))
    \<and> (disconnected (push_all send ds s)
       \<or> out (finish (push_all send ds s)) = out s @ concat (map (\<lambda>d. frame (sse_frame d)) ds) @ final)"
  using finish_open finish_closed push_all_complete [OF assms, of ds]
  by (cases "disconnected (push_all send ds s)") simp_all

end

section \<open>The sink of an HTTP/1.1 connection\<close>

text \<open>
  \<open>h1_io\<close> says what happens to the next writes: \<open>None\<close> is success (also when the list is
  used up), \<open>Some k\<close> an error after \<open>k\<close> bytes.
\<close>

record H1StreamSink =
  h1_written :: string
  h1_io :: "nat option list"
  h1_disconnected :: bool

definition H1SinkWrite :: "string \<Rightarrow> H1StreamSink \<Rightarrow> bool \<times> H1StreamSink" where
  "H1SinkWrite d s =
     (if h1_disconnected s then (False, s)
      else case h1_io s of
             Some k # io \<Rightarrow> (False, s\<lparr> h1_written := h1_written s @ take k d, h1_io := io, h1_disconnected := True \<rparr>)
           | _ \<Rightarrow> (True, s\<lparr> h1_written := h1_written s @ d, h1_io := tl (h1_io s) \<rparr>))"

definition H1SinkEnd :: "H1StreamSink \<Rightarrow> H1StreamSink" where
  "H1SinkEnd s = s\<lparr> h1_disconnected := True \<rparr>"

interpretation h1_sink: stream_sink H1SinkWrite H1SinkEnd h1_disconnected h1_written "\<lambda>d. d" "[]"
  by unfold_locales (auto simp: H1SinkWrite_def H1SinkEnd_def split: if_splits list.splits option.splits)

section \<open>The sink of an HTTP/2 stream\<close>

definition H2SinkWrite :: "int \<Rightarrow> string \<Rightarrow> bool \<times> H2Session \<Rightarrow> bool \<times> (bool \<times> H2Session)" where
  "H2SinkWrite sid d es = (let es' = sink_write sid d es in (\<not> fst es', es'))"

text \<open>What has been sent and what waits to be sent.\<close>

definition h2_out :: "bool \<times> H2Session \<Rightarrow> byte list" where
  "h2_out es = hs_sent (snd es) @ hs_output (snd es)"

definition data_frame_of :: "int \<Rightarrow> bool \<Rightarrow> string \<Rightarrow> byte list" where
  "data_frame_of sid fin d = frame_bytes DATA (if fin then FLAG_END_STREAM else 0) (of_int sid) (bytes d)"

lemma sink_write_ok:
  assumes "\<not> fst (sink_write sid d es)"
  shows "\<not> fst es \<and> h2_out (sink_write sid d es) = h2_out es @ data_frame_of sid False d"
proof -
  obtain s where es: "es = (False, s)"
    using assms by (cases es) (auto simp: sink_write_def split: prod.splits if_splits)
  let ?s = "WriteData sid (bytes d) False s"
  obtain ok s1 where f: "FlushOutput ?s = (ok, s1)"
    by fastforce
  then have ok
    using assms by (simp add: sink_write_def es)
  with f have "hs_sent s1 @ hs_output s1 = hs_sent ?s @ hs_output ?s"
    by (auto simp: FlushOutput_def next_io_def Let_def split: if_splits list.splits prod.splits)
  then show ?thesis
    using f by (simp add: sink_write_def es h2_out_def WriteData_def emit_frame_def data_frame_of_def)
qed

interpretation h2_sink: stream_sink "H2SinkWrite sid" "sink_end sid" fst h2_out "data_frame_of sid False"
  "data_frame_of sid True []" for sid
proof
  fix d es es'
  assume "H2SinkWrite sid d es = (True, es')"
  then show "\<not> fst es \<and> \<not> fst es' \<and> h2_out es' = h2_out es @ data_frame_of sid False d"
    using sink_write_ok [of sid d es] by (auto simp: H2SinkWrite_def Let_def)
qed (auto simp: H2SinkWrite_def Let_def sink_write_def sink_end_def h2_out_def WriteData_def emit_frame_def
      data_frame_of_def bytes_def split: if_splits prod.splits)

section \<open>What the client reads\<close>

text \<open>
  The reference: the lines of an event stream, and the events in them. A blank line ends an
  event; the payloads of several \<^verbatim>\<open>data\<close> lines of one event are joined by line feeds, other lines and
  events without data are ignored. (Line ends are line feeds only.)
\<close>

fun split_lf :: "string \<Rightarrow> string list" where
  "split_lf [] = []"
| "split_lf (c # cs) =
     (if c = lf then [] # split_lf cs
      else case split_lf cs of [] \<Rightarrow> [[c]] | l # ls \<Rightarrow> (c # l) # ls)"

fun sse_lines :: "string option \<Rightarrow> string list \<Rightarrow> string list" where
  "sse_lines buf [] = []"
| "sse_lines buf (l # ls) =
     (if l = [] then (case buf of None \<Rightarrow> sse_lines None ls | Some d \<Rightarrow> d # sse_lines None ls)
      else if take 6 l = ''data: ''
      then sse_lines (Some (case buf of None \<Rightarrow> drop 6 l | Some d \<Rightarrow> d @ [lf] @ drop 6 l)) ls
      else sse_lines buf ls)"

definition sse_events :: "string \<Rightarrow> string list" where
  "sse_events s = sse_lines None (split_lf s)"

lemma split_lf_line: "lf \<notin> set l \<Longrightarrow> split_lf (l @ lf # rest) = l # split_lf rest"
  by (induction l) auto

lemma split_lf_frame: "lf \<notin> set d \<Longrightarrow> split_lf (sse_frame d @ rest) = (''data: '' @ d) # [] # split_lf rest"
  using split_lf_line [of "''data: '' @ d" "lf # rest"] by (simp add: sse_frame_def)

lemma frames_read_back:
  assumes "\<forall>d \<in> set ds. lf \<notin> set d"
  shows "sse_events (concat (map sse_frame ds)) = ds"
  using assms by (induction ds) (simp_all add: sse_events_def split_lf_frame)

text \<open>A client reads exactly the events that were pushed, in order, if none of them contains a line
  feed.\<close>

theorem sse_roundtrip:
  assumes "\<forall>d \<in> set ds. lf \<notin> set d"
  shows "sse_events (concat (map sse_frame ds)) = ds"
  using assms by (rule frames_read_back)

theorem sse_roundtrip_witness:
  "sse_events (concat (map sse_frame [''Hello'', '' world'', ''[DONE]''])) = [''Hello'', '' world'', ''[DONE]'']"
  using sse_roundtrip [of "[''Hello'', '' world'', ''[DONE]'']"] by simp

text \<open>A line feed in a payload is not escaped: the client loses what follows it, and a text with a
  blank line can even forge an event.\<close>

lemma sse_line_feed_lost: "sse_events (sse_frame (''one'' @ [lf] @ ''two'')) = [''one'']"
  by code_simp

lemma sse_event_forged:
  "sse_events (sse_frame (''one'' @ [lf, lf] @ ''data: forged'')) = [''one'', ''forged'']"
  by code_simp

end
