(* ===== verification/Auth.thy ===== *)
theory Auth
  imports Router Response
begin

text \<open>
  The login plugin (\<^verbatim>\<open>examples/cpp_handlers/registerhandler.cpp\<close>) and the token check shared by the other
  plugins (\<^verbatim>\<open>examples/cpp_handlers/auth_util.hpp\<close>): signed tokens of the form header, payload and signature,
  and the handler for registering, logging in and checking a token. OpenSSL, the JSON library and
  MySQL are records of the functions called.
\<close>

section \<open>Libraries\<close>

text \<open>
  \<open>c_decode\<close> is \<^verbatim>\<open>BIO_read\<close> through a base64 filter: the bytes read, empty when nothing was
  read or it failed.
\<close>

record 'k crypto =
  c_encode :: "string \<Rightarrow> string"
  c_decode :: "string \<Rightarrow> string"
  c_sign :: "'k \<Rightarrow> string \<Rightarrow> string option"
  c_verify :: "'k \<Rightarrow> string \<Rightarrow> string \<Rightarrow> bool"

text \<open>A parse and the two kinds of \<^verbatim>\<open>value(key, default)\<close>; \<open>None\<close> when they throw.\<close>

record 'j json_lib =
  j_parse :: "string \<Rightarrow> 'j option"
  j_long :: "'j \<Rightarrow> string \<Rightarrow> int \<Rightarrow> int option"
  j_text :: "'j \<Rightarrow> string \<Rightarrow> string \<Rightarrow> string option"

text \<open>A query gives \<open>None\<close> on an error, else the number of rows if there is a result set.\<close>

record 'd mysql =
  m_query :: "string \<Rightarrow> 'd \<Rightarrow> nat option option \<times> 'd"

section \<open>Base64url\<close>

definition to_url :: "char \<Rightarrow> char" where
  "to_url c = (if c = CHR ''+'' then CHR ''-'' else if c = CHR ''/'' then CHR ''_'' else c)"

definition from_url :: "char \<Rightarrow> char" where
  "from_url c = (if c = CHR ''-'' then CHR ''+'' else if c = CHR ''_'' then CHR ''/'' else c)"

definition base64url :: "'k crypto \<Rightarrow> string \<Rightarrow> string" where
  "base64url C d = takeWhile (\<lambda>c. c \<noteq> CHR ''='') (map to_url (c_encode C d))"

definition padded :: "string \<Rightarrow> string" where
  "padded s = s @ replicate ((4 - length s mod 4) mod 4) (CHR ''='')"

definition unbase64url :: "'k crypto \<Rightarrow> string \<Rightarrow> string" where
  "unbase64url C s = c_decode C (padded (map from_url s))"

section \<open>Signatures and tokens\<close>

definition rsa_sign :: "'k crypto \<Rightarrow> 'k option \<Rightarrow> string \<Rightarrow> string" where
  "rsa_sign C key d =
     (case key of None \<Rightarrow> [] | Some k \<Rightarrow>
        (case c_sign C k d of None \<Rightarrow> [] | Some sig \<Rightarrow> base64url C sig))"

definition rsa_verify :: "'k crypto \<Rightarrow> 'k option \<Rightarrow> string \<Rightarrow> string \<Rightarrow> bool" where
  "rsa_verify C key d signature =
     (case key of None \<Rightarrow> False | Some k \<Rightarrow> c_verify C k d (unbase64url C signature))"

definition long_text :: "int \<Rightarrow> string" where
  "long_text n = (if n < 0 then CHR ''-'' # uint_text (nat (- n)) else uint_text (nat n))"

definition token_header :: string where
  \<open>token_header = ''{"alg":"RS256","typ":"JWT"}''\<close>

definition token_payload :: "int \<Rightarrow> string \<Rightarrow> string" where
  \<open>token_payload now user =
     ''{"user":"'' @ user @ ''","iat":'' @ long_text now @ '',"exp":'' @ long_text (now + 86400) @ ''}''\<close>

definition create_token :: "'k crypto \<Rightarrow> 'k option \<Rightarrow> int \<Rightarrow> string \<Rightarrow> string" where
  "create_token C key now user =
     (let content = base64url C token_header @ ''.'' @ base64url C (token_payload now user);
          sig = rsa_sign C key content
      in if sig = [] then [] else content @ ''.'' @ sig)"

text \<open>\<^verbatim>\<open>find('.')\<close> as a split: what is before the first dot and what is after it.\<close>

definition split_dot :: "string \<Rightarrow> (string \<times> string) option" where
  "split_dot s =
     (if CHR ''.'' \<in> set s
      then let a = takeWhile (\<lambda>c. c \<noteq> CHR ''.'') s in Some (a, drop (length a + 1) s) else None)"

definition check_payload :: "'j json_lib \<Rightarrow> int \<Rightarrow> string \<Rightarrow> string" where
  "check_payload J now p_json =
     (if p_json = [] then []
      else case j_parse J p_json of
             None \<Rightarrow> []
           | Some body \<Rightarrow>
               (case j_long J body ''exp'' 0 of
                  None \<Rightarrow> []
                | Some exp \<Rightarrow>
                    if exp \<le> now then []
                    else (case j_text J body ''user'' [] of None \<Rightarrow> [] | Some user \<Rightarrow> user)))"

definition verify_token :: "'k crypto \<Rightarrow> 'j json_lib \<Rightarrow> 'k option \<Rightarrow> int \<Rightarrow> string \<Rightarrow> string" where
  "verify_token C J key now token =
     (case split_dot token of
        None \<Rightarrow> []
      | Some (header, rest) \<Rightarrow>
          (case split_dot rest of
             None \<Rightarrow> []
           | Some (payload, sig) \<Rightarrow>
               if \<not> rsa_verify C key (header @ ''.'' @ payload) sig then []
               else check_payload J now (unbase64url C payload)))"

text \<open>Loading or generating the key: what is read from the file, and what key generation gives.\<close>

definition rsa_init :: "'k option \<Rightarrow> 'k option \<Rightarrow> 'k option \<Rightarrow> bool \<times> 'k option" where
  "rsa_init g_rsa_key file_key generated =
     (case g_rsa_key of Some k \<Rightarrow> (True, Some k)
      | None \<Rightarrow> (case file_key of Some k \<Rightarrow> (True, Some k)
                 | None \<Rightarrow> (case generated of Some k \<Rightarrow> (True, Some k) | None \<Rightarrow> (False, None))))"

section \<open>The handler\<close>

datatype auth_route = LOGIN | REGISTER | VERIFY | LOGOUT

definition json_resp :: "string \<Rightarrow> nat \<times> string \<Rightarrow> region_state \<Rightarrow> response_state" where
  "json_resp date answer st =
     (case answer of (code, body) \<Rightarrow>
        let (st1, r1) = EndHeaders date (ResponseHeaderUint ''Content-Length'' (length body)
                          (ResponseHeader ''Content-Type'' ''application/json'' (new_response code st)))
        in (WriteRegion body st1, r1))"

text \<open>\<open>None\<close> when \<^verbatim>\<open>value\<close> throws on a member of another type; \<open>Some None\<close> is the result false.\<close>

definition parse_json :: "'j json_lib \<Rightarrow> string \<Rightarrow> (string \<times> string) option option" where
  "parse_json J body =
     (case j_parse J body of
        None \<Rightarrow> Some None
      | Some b \<Rightarrow>
          (case (j_text J b ''id'' [], j_text J b ''password'' []) of
             (Some uid, Some password) \<Rightarrow> Some (if uid \<noteq> [] \<and> password \<noteq> [] then Some (uid, password) else None)
           | _ \<Rightarrow> None))"

definition mysql_has_row :: "'d mysql \<Rightarrow> string \<Rightarrow> 'd \<Rightarrow> bool \<times> 'd" where
  "mysql_has_row M sql d =
     (case m_query M sql d of (r, d') \<Rightarrow>
        ((case r of Some (Some n) \<Rightarrow> 0 < n | _ \<Rightarrow> False), d'))"

definition mysql_exec :: "'d mysql \<Rightarrow> string \<Rightarrow> 'd \<Rightarrow> bool \<times> 'd" where
  "mysql_exec M sql d = (case m_query M sql d of (r, d') \<Rightarrow> (r \<noteq> None, d'))"

definition extract_bearer :: "string \<Rightarrow> string" where
  "extract_bearer auth =
     (if auth = [] then [] else if take 7 auth = ''Bearer '' then drop 7 auth else auth)"

definition login_sql :: "string \<Rightarrow> string \<Rightarrow> string" where
  "login_sql uid password =
     ''SELECT id FROM users WHERE id = '' @ [CHR 0x27] @ uid @ [CHR 0x27] @ '' AND password = ''
     @ [CHR 0x27] @ password @ [CHR 0x27]"

definition exists_sql :: "string \<Rightarrow> string" where
  "exists_sql uid = ''SELECT id FROM users WHERE id = '' @ [CHR 0x27] @ uid @ [CHR 0x27]"

definition insert_sql :: "string \<Rightarrow> string \<Rightarrow> string" where
  "insert_sql uid password =
     ''INSERT INTO users (id, password) VALUES ('' @ [CHR 0x27] @ uid @ [CHR 0x27] @ '',''
     @ [CHR 0x27] @ password @ [CHR 0x27] @ '')''"

definition auth_error :: "string \<Rightarrow> string" where
  \<open>auth_error msg = ''{"error":"'' @ msg @ ''"}''\<close>

definition token_body :: "string \<Rightarrow> string \<Rightarrow> string \<Rightarrow> string" where
  \<open>token_body status user token =
     ''{"status":"'' @ status @ ''","user":"'' @ user @ ''","token":"'' @ token @ ''"}''\<close>

text \<open>The handlers give the answer, the business log entries and the state of the database.\<close>

type_synonym 'd auth_result = "(nat \<times> string) \<times> string list \<times> 'd"

definition do_login :: "'k crypto \<Rightarrow> 'd mysql \<Rightarrow> 'k option \<Rightarrow> int \<Rightarrow> string \<Rightarrow> string \<Rightarrow> 'd \<Rightarrow> 'd auth_result" where
  "do_login C M key now uid password d =
     (case mysql_has_row M (login_sql uid password) d of (found, d') \<Rightarrow>
        if \<not> found then ((404, auth_error ''user not found or password mismatch''), [], d')
        else let token = create_token C key now uid
             in if token = [] then ((500, auth_error ''token generation failed''), [], d')
                else ((200, token_body ''ok'' uid token), [''login user='' @ uid], d'))"

definition do_register :: "'k crypto \<Rightarrow> 'd mysql \<Rightarrow> 'k option \<Rightarrow> int \<Rightarrow> string \<Rightarrow> string \<Rightarrow> 'd \<Rightarrow> 'd auth_result" where
  "do_register C M key now uid password d =
     (case mysql_has_row M (exists_sql uid) d of (found, d1) \<Rightarrow>
        if found then ((409, auth_error ''user already exists''), [], d1)
        else (case mysql_exec M (insert_sql uid password) d1 of (ok, d2) \<Rightarrow>
                if \<not> ok then ((500, auth_error ''create user failed''), [], d2)
                else ((200, token_body ''created'' uid (create_token C key now uid)), [''register user='' @ uid], d2)))"

definition do_verify :: "'k crypto \<Rightarrow> 'j json_lib \<Rightarrow> 'k option \<Rightarrow> int \<Rightarrow> string \<Rightarrow> nat \<times> string" where
  \<open>do_verify C J key now auth =
     (let token = extract_bearer auth
      in if token = [] then (401, auth_error ''missing authorization'')
         else let user = verify_token C J key now token
              in if user = [] then (401, auth_error ''invalid or expired token'')
                 else (200, ''{"status":"ok","user":"'' @ user @ ''"}''))\<close>

definition do_logout :: "nat \<times> string" where
  \<open>do_logout = (200, ''{"status":"ok"}'')\<close>

text \<open>\<open>Handle\<close> with a region; \<open>None\<close> is the exception of a member of the wrong type.\<close>

definition AuthHandle ::
  "'k crypto \<Rightarrow> 'j json_lib \<Rightarrow> 'd mysql \<Rightarrow> 'k option \<Rightarrow> int \<Rightarrow> auth_route \<Rightarrow> string \<Rightarrow> string \<Rightarrow> 'd
    \<Rightarrow> 'd auth_result option" where
  "AuthHandle C J M key now route body auth d =
     (case route of
        LOGIN \<Rightarrow> (case parse_json J body of
                    None \<Rightarrow> None
                  | Some None \<Rightarrow> Some ((400, auth_error ''invalid input''), [], d)
                  | Some (Some (uid, password)) \<Rightarrow> Some (do_login C M key now uid password d))
      | REGISTER \<Rightarrow> (case parse_json J body of
                    None \<Rightarrow> None
                  | Some None \<Rightarrow> Some ((400, auth_error ''invalid input''), [], d)
                  | Some (Some (uid, password)) \<Rightarrow> Some (do_register C M key now uid password d))
      | VERIFY \<Rightarrow> Some (do_verify C J key now auth, [], d)
      | LOGOUT \<Rightarrow> Some (do_logout, [], d))"

text \<open>The routes of the plugin, when the key and the database connection are there.\<close>

definition auth_routes :: "bool \<Rightarrow> bool \<Rightarrow> auth_route registration list" where
  "auth_routes rsa_ok connected =
     (if \<not> rsa_ok \<or> \<not> connected then []
      else [On ''POST'' ''/api/login'' LOGIN, On ''POST'' ''/api/register'' REGISTER,
            On ''POST'' ''/api/verify'' VERIFY, On ''POST'' ''/api/logout'' LOGOUT])"

section \<open>The check used by other plugins\<close>

text \<open>
  The public key is read once, at the first use, and never again: \<open>Some key\<close> is the result of
  that one attempt. \<open>file_key\<close> is what the file holds now. \<open>auth_init_verify\<close> and \<open>auth_rsa_verify\<close> each have
  a key of their own.
\<close>

definition load_once :: "'k option option \<Rightarrow> 'k option \<Rightarrow> 'k option option" where
  "load_once cell file_key = (case cell of None \<Rightarrow> Some file_key | Some k \<Rightarrow> Some k)"

definition auth_init_verify :: "'k option option \<Rightarrow> 'k option \<Rightarrow> bool \<times> 'k option option" where
  "auth_init_verify cell file_key = (let cell' = load_once cell file_key in (the cell' \<noteq> None, cell'))"

definition auth_b64_decode :: "'k crypto \<Rightarrow> string \<Rightarrow> string" where
  "auth_b64_decode C s = c_decode C (padded (map from_url s))"

definition auth_rsa_verify ::
  "'k crypto \<Rightarrow> 'k option \<Rightarrow> string \<Rightarrow> string \<Rightarrow> 'k option option \<Rightarrow> bool \<times> 'k option option" where
  "auth_rsa_verify C file_key d signature cell =
     (let cell' = load_once cell file_key
      in (case the cell' of None \<Rightarrow> False | Some k \<Rightarrow> c_verify C k d (auth_b64_decode C signature), cell'))"

definition auth_verify_token ::
  "'k crypto \<Rightarrow> 'j json_lib \<Rightarrow> 'k option \<Rightarrow> int \<Rightarrow> string \<Rightarrow> 'k option option \<Rightarrow> string \<times> 'k option option" where
  "auth_verify_token C J file_key now token cell =
     (case split_dot token of
        None \<Rightarrow> ([], cell)
      | Some (header, rest) \<Rightarrow>
          (case split_dot rest of
             None \<Rightarrow> ([], cell)
           | Some (payload, sig) \<Rightarrow>
               (case auth_rsa_verify C file_key (header @ ''.'' @ payload) sig cell of (ok, cell') \<Rightarrow>
                  (if ok then check_payload J now (auth_b64_decode C payload) else [], cell'))))"

text \<open>Both checks accept the same tokens when they have the same key.\<close>

lemma auth_verify_token_eq:
  "fst (auth_verify_token C J file_key now token cell) = verify_token C J (the (load_once cell file_key)) now token"
  by (auto simp: auth_verify_token_def verify_token_def auth_rsa_verify_def rsa_verify_def auth_b64_decode_def
      unbase64url_def Let_def split: option.splits prod.splits)

text \<open>A check that comes before the key file exists makes all later ones fail.\<close>

lemma early_check_disables_all:
  "fst (auth_verify_token C J file_key now token (snd (auth_rsa_verify C None d signature None))) = []"
  by (simp add: auth_verify_token_eq auth_rsa_verify_def load_once_def verify_token_def rsa_verify_def Let_def
      split: option.splits prod.splits)

section \<open>Tokens that are issued are accepted\<close>

text \<open>The documented behaviour of base64: an alphabet of 64 characters, padding to a multiple of four, and
  decoding gives the data back.\<close>

definition base64_alphabet :: string where
  "base64_alphabet = ''ABCDEFGHIJKLMNOPQRSTUVWXYZabcdefghijklmnopqrstuvwxyz0123456789+/''"

definition base64_ok :: "'k crypto \<Rightarrow> bool" where
  "base64_ok C \<longleftrightarrow> (\<forall>d. c_decode C (c_encode C d) = d \<and>
     (\<exists>body k. c_encode C d = body @ replicate k (CHR ''='') \<and> k \<le> 2 \<and> (length body + k) mod 4 = 0
        \<and> set body \<subseteq> set base64_alphabet))"

definition signs_ok :: "'k crypto \<Rightarrow> 'k \<Rightarrow> bool" where
  "signs_ok C k \<longleftrightarrow> (\<forall>d sig. c_sign C k d = Some sig \<longrightarrow> c_verify C k d sig)"

definition reads_payload :: "'j json_lib \<Rightarrow> int \<Rightarrow> string \<Rightarrow> bool" where
  "reads_payload J now user \<longleftrightarrow> (\<exists>b. j_parse J (token_payload now user) = Some b
     \<and> j_long J b ''exp'' 0 = Some (now + 86400) \<and> j_text J b ''user'' [] = Some user)"

lemma alphabet_url:
  assumes "c \<in> set base64_alphabet"
  shows "to_url c \<noteq> CHR ''=''" and "to_url c \<noteq> CHR ''.''" and "from_url (to_url c) = c"
proof -
  have "list_all (\<lambda>c. to_url c \<noteq> CHR ''='' \<and> to_url c \<noteq> CHR ''.'' \<and> from_url (to_url c) = c) base64_alphabet"
    by code_simp
  then show "to_url c \<noteq> CHR ''=''" and "to_url c \<noteq> CHR ''.''" and "from_url (to_url c) = c"
    using assms by (auto simp: list_all_iff)
qed

lemma base64url_body:
  assumes "c_encode C d = body @ replicate k (CHR ''='')" and "set body \<subseteq> set base64_alphabet"
  shows "base64url C d = map to_url body"
proof -
  have "takeWhile (\<lambda>c. c \<noteq> CHR ''='') (map to_url body @ replicate k (CHR ''='')) =
      map to_url body @ takeWhile (\<lambda>c. c \<noteq> CHR ''='') (replicate k (CHR ''=''))"
    using assms(2) alphabet_url(1) by (subst takeWhile_append2) auto
  moreover have "takeWhile (\<lambda>c. c \<noteq> CHR ''='') (replicate k (CHR ''='')) = []"
    by (cases k) simp_all
  moreover have "to_url (CHR ''='') = CHR ''=''"
    by (simp add: to_url_def)
  ultimately show ?thesis
    by (simp add: base64url_def assms(1))
qed

lemma pad_amount:
  assumes "k \<le> 2" and "(n + k) mod 4 = 0"
  shows "(4 - n mod 4) mod 4 = (k :: nat)"
proof -
  define r where "r = n mod 4"
  have "(r + k) mod 4 = 0"
    unfolding r_def using assms(2) by (simp add: mod_add_left_eq)
  moreover have "r = 0 \<or> r = 1 \<or> r = 2 \<or> r = 3" and "k = 0 \<or> k = 1 \<or> k = 2"
    using assms(1) unfolding r_def by auto
  ultimately show ?thesis
    unfolding r_def [symmetric] by (elim disjE) simp_all
qed

lemma unbase64url_base64url:
  assumes "base64_ok C"
  shows "unbase64url C (base64url C d) = d"
proof -
  obtain body k where b: "c_encode C d = body @ replicate k (CHR ''='')" "k \<le> 2" "(length body + k) mod 4 = 0"
    "set body \<subseteq> set base64_alphabet" and dec: "c_decode C (c_encode C d) = d"
    using spec [OF assms [unfolded base64_ok_def], of d] by (elim conjE exE)
  have "map from_url (base64url C d) = body"
    using base64url_body [OF b(1,4)] alphabet_url(3) b(4) by (auto intro!: map_idI)
  then show ?thesis
    using pad_amount [OF b(2,3)] dec b(1) by (simp add: unbase64url_def padded_def)
qed

lemma base64url_no_dot:
  assumes "base64_ok C"
  shows "CHR ''.'' \<notin> set (base64url C d)"
proof -
  obtain body k where "c_encode C d = body @ replicate k (CHR ''='')" "set body \<subseteq> set base64_alphabet"
    using spec [OF assms [unfolded base64_ok_def], of d] by (elim conjE exE)
  then show ?thesis
    using base64url_body [of C d body k] alphabet_url(2) by (auto dest!: subsetD) metis
qed

lemma split_dot_append: "CHR ''.'' \<notin> set a \<Longrightarrow> split_dot (a @ CHR ''.'' # b) = Some (a, b)"
proof -
  assume a: "CHR ''.'' \<notin> set a"
  then have "takeWhile (\<lambda>c. c \<noteq> CHR ''.'') (a @ CHR ''.'' # b) = a"
    by (subst takeWhile_append2) auto
  then show ?thesis
    by (simp add: split_dot_def)
qed

lemma issued_accepted:
  assumes "base64_ok C" and "signs_ok C k" and "reads_payload J now user"
    and "create_token C (Some k) now user \<noteq> []" and "later < now + 86400"
  shows "verify_token C J (Some k) later (create_token C (Some k) now user) = user"
proof -
  let ?h = "base64url C token_header" and ?p = "base64url C (token_payload now user)"
  obtain sig where sig: "c_sign C k (?h @ ''.'' @ ?p) = Some sig"
    and tok: "create_token C (Some k) now user = ?h @ CHR ''.'' # ?p @ CHR ''.'' # base64url C sig"
    using assms(4) by (auto simp: create_token_def rsa_sign_def Let_def split: if_splits option.splits)
  have "rsa_verify C (Some k) (?h @ ''.'' @ ?p) (base64url C sig)"
    using assms(1,2) sig by (simp add: rsa_verify_def unbase64url_base64url signs_ok_def)
  moreover have "check_payload J later (token_payload now user) = user"
    using assms(3,5) by (auto simp: reads_payload_def check_payload_def token_payload_def)
  ultimately show ?thesis
    unfolding tok using base64url_no_dot [OF assms(1)]
    by (simp add: verify_token_def split_dot_append unbase64url_base64url [OF assms(1)])
qed


lemma split_dot_eq:
  assumes "split_dot s = Some (a, b)"
  shows "s = a @ ''.'' @ b"
proof -
  have "CHR ''.'' \<in> set s"
    using assms by (auto simp: split_dot_def split: if_splits)
  then obtain a' r where "s = a' @ CHR ''.'' # r" "CHR ''.'' \<notin> set a'"
    using split_list_first by fastforce
  then show ?thesis
    using assms split_dot_append by simp
qed

lemma accepted_signed:
  assumes "verify_token C J key now token = user" and "user \<noteq> []"
  shows "\<exists>header payload sig k b exp. token = header @ ''.'' @ payload @ ''.'' @ sig \<and> key = Some k
    \<and> c_verify C k (header @ ''.'' @ payload) (unbase64url C sig)
    \<and> j_parse J (unbase64url C payload) = Some b \<and> j_long J b ''exp'' 0 = Some exp \<and> now < exp
    \<and> j_text J b ''user'' [] = Some user"
proof -
  obtain header rest payload sig where s: "split_dot token = Some (header, rest)"
    "split_dot rest = Some (payload, sig)" "rsa_verify C key (header @ ''.'' @ payload) sig"
    and p: "check_payload J now (unbase64url C payload) = user"
    using assms by (auto simp: verify_token_def split: option.splits if_splits)
  have "token = header @ ''.'' @ payload @ ''.'' @ sig"
    using split_dot_eq [OF s(1)] split_dot_eq [OF s(2)] by simp
  moreover obtain k where "key = Some k" "c_verify C k (header @ ''.'' @ payload) (unbase64url C sig)"
    using s(3) by (auto simp: rsa_verify_def split: option.splits)
  moreover obtain b exp where "j_parse J (unbase64url C payload) = Some b" "j_long J b ''exp'' 0 = Some exp"
    "now < exp" "j_text J b ''user'' [] = Some user"
    using p assms(2) by (auto simp: check_payload_def split: if_splits option.splits)
  ultimately show ?thesis
    by blast
qed

text \<open>Nothing else is accepted: a token that gives a user has a signature over its header and payload
  that OpenSSL verifies with the server's key, and a payload that expires later than now.\<close>

theorem accepted_tokens_signed:
  assumes "verify_token C J key now token = user" and "user \<noteq> []"
  shows "\<exists>header payload sig k b exp. token = header @ ''.'' @ payload @ ''.'' @ sig \<and> key = Some k
    \<and> c_verify C k (header @ ''.'' @ payload) (unbase64url C sig)
    \<and> j_parse J (unbase64url C payload) = Some b \<and> j_long J b ''exp'' 0 = Some exp \<and> now < exp
    \<and> j_text J b ''user'' [] = Some user"
  using assms by (rule accepted_signed)

section \<open>A run\<close>

text \<open>Simple stand-ins for the libraries: a code of four letters per character, a signature that is
  the reversed text, and a reader for payloads.\<close>

definition letters_of :: "char \<Rightarrow> string" where
  "letters_of c = [char_of (65 + of_char c div (16 :: nat)), char_of (65 + of_char c mod (16 :: nat)), CHR ''A'', CHR ''A'']"

fun of_letters :: "string \<Rightarrow> string" where
  "of_letters (a # b # _ # _ # r) = char_of ((of_char a - 65) * 16 + (of_char b - 65 :: nat)) # of_letters r"
| "of_letters _ = []"

definition toy_crypto :: "unit crypto" where
  "toy_crypto = \<lparr> c_encode = (\<lambda>d. concat (map letters_of d)), c_decode = of_letters,
     c_sign = (\<lambda>_ d. Some (rev d)), c_verify = (\<lambda>_ d s. s = rev d) \<rparr>"

definition toy_json :: "string json_lib" where
  "toy_json = \<lparr> j_parse = Some,
     j_long = (\<lambda>b _ d. Some (if b = token_payload 100 ''bob'' then 86500 else d)),
     j_text = (\<lambda>b _ d. Some (if b = token_payload 100 ''bob'' then ''bob'' else d)) \<rparr>"

lemma letters_decoded: "of_letters (letters_of c @ r) = c # of_letters r"
proof -
  define n :: nat where "n = of_char c"
  have n: "n < 256"
    by (simp add: n_def)
  then have "of_char (char_of (65 + n div 16) :: char) = 65 + n div 16" "of_char (char_of (65 + n mod 16) :: char) = 65 + n mod 16"
    by (simp_all add: take_bit_nat_eq_self_iff less_mult_imp_div_less less_le_trans [of _ 16])
  then have "of_letters (letters_of c @ r) = char_of ((n div 16) * 16 + n mod 16) # of_letters r"
    by (simp add: letters_of_def n_def [symmetric])
  then show ?thesis
    by (simp add: n_def)
qed

lemma letters_alphabet: "set (letters_of c) \<subseteq> set base64_alphabet"
proof -
  have "list_all (\<lambda>n. char_of (65 + n) \<in> set base64_alphabet) [0..<16 :: nat]"
    by code_simp
  then have "n < 16 \<Longrightarrow> char_of (65 + n :: nat) \<in> set base64_alphabet" for n
    by (simp add: list_all_iff)
  moreover have "of_char c div (16 :: nat) < 16"
    by (simp add: less_mult_imp_div_less)
  moreover have "CHR ''A'' \<in> set base64_alphabet"
    by (simp add: base64_alphabet_def)
  ultimately show ?thesis
    by (simp add: letters_of_def)
qed

lemma toy_base64: "base64_ok toy_crypto"
  unfolding base64_ok_def
proof (intro allI conjI)
  fix d
  show "c_decode toy_crypto (c_encode toy_crypto d) = d"
    by (induction d) (simp_all add: toy_crypto_def letters_decoded)
  have "length (concat (map letters_of d)) mod 4 = 0"
    by (induction d) (simp_all add: letters_of_def)
  then show "\<exists>body k. c_encode toy_crypto d = body @ replicate k (CHR ''='') \<and> k \<le> 2 \<and> (length body + k) mod 4 = 0
      \<and> set body \<subseteq> set base64_alphabet"
    using letters_alphabet by (intro exI [of _ "concat (map letters_of d)"] exI [of _ 0]) (auto simp: toy_crypto_def)
qed

lemma toy_base64url: "base64url toy_crypto d = map to_url (concat (map letters_of d))"
  using letters_alphabet by (intro base64url_body [where k = 0]) (auto simp: toy_crypto_def)

lemma toy_token: "create_token toy_crypto (Some ()) 100 ''bob'' \<noteq> []"
proof -
  have "base64url toy_crypto d \<noteq> []" if "d \<noteq> []" for d
    using that by (cases d) (simp_all add: toy_base64url letters_of_def)
  moreover have "c_sign toy_crypto () d = Some (rev d)" for d
    by (simp add: toy_crypto_def)
  ultimately show ?thesis
    by (simp add: create_token_def rsa_sign_def Let_def)
qed

lemma toy_signs: "signs_ok toy_crypto ()"
  by (simp add: signs_ok_def toy_crypto_def)

lemma toy_reads: "reads_payload toy_json 100 ''bob''"
  by (simp add: reads_payload_def toy_json_def)


theorem accepted_tokens_signed_witness:
  "\<exists>header payload sig. create_token toy_crypto (Some ()) 100 ''bob'' = header @ ''.'' @ payload @ ''.'' @ sig
     \<and> c_verify toy_crypto () (header @ ''.'' @ payload) (unbase64url toy_crypto sig)"
proof -
  have "verify_token toy_crypto toy_json (Some ()) 200 (create_token toy_crypto (Some ()) 100 ''bob'') = ''bob''"
    by (rule issued_accepted [OF toy_base64 toy_signs toy_reads toy_token]) simp
  from accepted_tokens_signed [OF this] show ?thesis
    by auto
qed

section \<open>What the handler does\<close>

lemma login_succeeds:
  "fst (fst (do_login C M key now uid password d)) = 200 \<longleftrightarrow>
     fst (mysql_has_row M (login_sql uid password) d) \<and> create_token C key now uid \<noteq> []"
  by (auto simp: do_login_def Let_def split: prod.splits if_splits)

lemma verify_answers:
  "fst (do_verify C J key now auth) = 200 \<longleftrightarrow> verify_token C J key now (extract_bearer auth) \<noteq> []"
  by (auto simp: do_verify_def Let_def verify_token_def split_dot_def)

text \<open>After registering, the routes find the handler.\<close>

lemma auth_routes_found:
  "map_option (\<lambda>r. MatchMethod r ''POST'' ''/api/verify'') (register_all (Any ''/'' LOGOUT # auth_routes True True) new_router)
   = Some (Some (Some VERIFY, []))"
  by code_simp

text \<open>User and password go into the SQL text unchanged: a quote ends the literal, and a comment removes the
  comparison of the password.\<close>

lemma login_sql_injection:
  "\<exists>rest. login_sql (''admin'' @ [CHR 0x27] @ '' -- '') password =
     exists_sql ''admin'' @ '' -- '' @ rest"
  by (simp add: login_sql_def exists_sql_def)

text \<open>The user also goes into the payload unchanged: it can add members of its own, signed by the server.\<close>

lemma token_payload_injection:
  \<open>token_payload now ''x","user":"admin'' =
     ''{"user":"x","user":"admin","iat":'' @ long_text now @ '',"exp":'' @ long_text (now + 86400) @ ''}''\<close>
  by (simp add: token_payload_def)

text \<open>Registering answers 200 with an empty token when no token can be made; logging in answers 500.\<close>

lemma register_with_empty_token:
  assumes "\<not> fst (mysql_has_row M (exists_sql uid) d)"
    and "fst (mysql_exec M (insert_sql uid password) (snd (mysql_has_row M (exists_sql uid) d)))"
  shows "fst (do_register C M None now uid password d) = (200, token_body ''created'' uid [])"
  using assms by (auto simp: do_register_def create_token_def rsa_sign_def Let_def split: prod.splits)

end
