(* ===== verification/Chat.thy ===== *)
theory Chat
  imports Streaming Auth Static_Files
begin

text \<open>
  The streaming plugins: chat (\<^verbatim>\<open>examples/cpp_handlers/chat_handler.cpp\<close>) and shopping
  (\<^verbatim>\<open>examples/cpp_handlers/shopping_handler.cpp\<close>). They are clients of the sink interface: the sink's
  operations are arguments, and the theorems are proved from its laws. The JSON library and the remote
  calls are arguments too; a remote call gives the messages read until the stream ends. A result
  says whether the handler ran to its end (and not into an exception), which remote calls it made,
  and the state of the sink.
\<close>

section \<open>Chat\<close>

datatype json_field = Absent | Text string | Other_type

record ('j, 'c) chat_json =
  cj_parse :: "string \<Rightarrow> string + 'j"
  cj_field :: "'j \<Rightarrow> string \<Rightarrow> json_field"
  cj_config :: "'j \<Rightarrow> 'c option"

text \<open>\<^verbatim>\<open>contains\<close> and \<^verbatim>\<open>get_ref\<close>; \<open>None\<close> is the exception for a member of another type.\<close>

definition text_field :: "('j, 'c) chat_json \<Rightarrow> 'j \<Rightarrow> string \<Rightarrow> string \<Rightarrow> string option" where
  "text_field J b key dflt =
     (case cj_field J b key of Absent \<Rightarrow> Some dflt | Text s \<Rightarrow> Some s | Other_type \<Rightarrow> None)"

record 'c chat_request =
  rq_session :: string
  rq_message :: string
  rq_model :: string
  rq_config :: 'c

datatype chat_reply = Token string | Finished | Chat_error string | No_event

fun collect_chat :: "chat_reply list \<Rightarrow> string list \<times> string \<Rightarrow> string list \<times> string" where
  "collect_chat [] acc = acc"
| "collect_chat (r # rs) (tokens, err) =
     collect_chat rs
       (case r of Token t \<Rightarrow> (tokens @ [t], err)
        | Finished \<Rightarrow> (tokens @ [''[DONE]''], err)
        | Chat_error e \<Rightarrow> (tokens, e)
        | No_event \<Rightarrow> (tokens, err))"

fun push_chat :: "(string \<Rightarrow> 's \<Rightarrow> bool \<times> 's) \<Rightarrow> string list \<Rightarrow> 's \<Rightarrow> 's" where
  "push_chat send [] s = s"
| "push_chat send (t # ts) s =
     (case PushSSE send t s of (ok, s') \<Rightarrow> if t = ''[DONE]'' \<or> \<not> ok then s' else push_chat send ts s')"

definition push_error :: "(string \<Rightarrow> 's \<Rightarrow> bool \<times> 's) \<Rightarrow> ('s \<Rightarrow> 's) \<Rightarrow> string \<Rightarrow> 's \<Rightarrow> 's" where
  "push_error send finish msg s = finish (snd (PushSSE send msg s))"

definition bearer_token :: "string \<Rightarrow> string" where
  "bearer_token auth = (if take 7 auth = ''Bearer '' then drop 7 auth else [])"

definition chat_output :: "(string \<Rightarrow> 's \<Rightarrow> bool \<times> 's) \<Rightarrow> chat_reply list option \<Rightarrow> 's \<Rightarrow> 's" where
  "chat_output send replies s =
     (let (tokens, err) = (case replies of None \<Rightarrow> ([], ''rpc write failed'') | Some rs \<Rightarrow> collect_chat rs ([], []))
      in if err \<noteq> [] then snd (PushSSE send (''[ERROR: '' @ err @ '']'') s) else push_chat send tokens s)"

text \<open>
  \<open>verify\<close> is the token check; \<open>channel\<close> says whether a channel to the service can be had;
  \<open>rpc\<close> is the call, \<open>None\<close> when the request cannot be written.
\<close>

definition ChatHandleStream ::
  "('j, 'c) chat_json \<Rightarrow> (string \<Rightarrow> string) \<Rightarrow> bool \<Rightarrow> ('c chat_request \<Rightarrow> chat_reply list option)
    \<Rightarrow> (string \<Rightarrow> 's \<Rightarrow> bool \<times> 's) \<Rightarrow> ('s \<Rightarrow> 's) \<Rightarrow> string \<Rightarrow> string \<Rightarrow> 's
    \<Rightarrow> bool \<times> 'c chat_request list \<times> 's" where
  \<open>ChatHandleStream J verify channel rpc send finish body auth s =
     (case cj_parse J body of
        Inl msg \<Rightarrow> (True, [], push_error send finish (''{"error":"invalid json: '' @ msg @ ''"}'') s)
      | Inr b \<Rightarrow>
          (case (text_field J b ''id'' ''default'', text_field J b ''message'' [], text_field J b ''model'' ''qwen'',
                 cj_config J b) of
             (Some sid, Some message, Some model, Some config) \<Rightarrow>
               if message = [] then (True, [], push_error send finish ''{"error":"message is required"}'' s)
               else
                 let token = bearer_token auth;
                     user = (if token = [] then [] else verify token)
                 in if user = [] then (True, [], push_error send finish ''{"error":"unauthorized","code":401}'' s)
                    else if \<not> channel
                    then (True, [], push_error send finish ''{"error":"cannot get channel to ai-chat:50051"}'' s)
                    else
                      let req = \<lparr> rq_session = sid, rq_message = message, rq_model = model, rq_config = config \<rparr>
                      in (True, [req], finish (chat_output send (rpc req) s))
           | _ \<Rightarrow> (False, [], s)))\<close>

definition chat_routes :: "unit registration list" where
  "chat_routes = [On ''POST'' ''/v1/chat'' ()]"

section \<open>Shopping\<close>

text \<open>The JSON values that are built; the library's \<open>dump\<close> is an argument.\<close>

datatype 'n jval = JStr string | JBool bool | JNum 'n | JArr "'n jval list" | JObj "(string \<times> 'n jval) list"

record 'n candidate =
  cd_name :: string
  cd_price :: 'n
  cd_rating :: 'n

datatype 'n shop_event =
    Meta string bool
  | Shop_token string
  | Shop_done string string bool "'n candidate list"
  | Shop_error string
  | Shop_other

definition candidate_json :: "'n candidate \<Rightarrow> 'n jval" where
  "candidate_json c = JObj [(''name'', JStr (cd_name c)), (''price'', JNum (cd_price c)), (''rating'', JNum (cd_rating c))]"

fun collect_shop :: "('n jval \<Rightarrow> string) \<Rightarrow> 'n shop_event list \<Rightarrow> string list \<times> string \<Rightarrow> string list \<times> string" where
  "collect_shop dump [] acc = acc"
| "collect_shop dump (e # es) (evs, err) =
     collect_shop dump es
       (case e of
          Meta sid ready \<Rightarrow> (evs @ [dump (JObj [(''session_id'', JStr sid), (''ready'', JBool ready)])], err)
        | Shop_token t \<Rightarrow> (evs @ [dump (JObj [(''token'', JStr t)])], err)
        | Shop_done full stage ready cands \<Rightarrow>
            (evs @ [dump (JObj ([(''done'', JBool True), (''full_text'', JStr full), (''stage'', JStr stage),
                                 (''ready'', JBool ready)]
                                @ (if cands \<noteq> [] then [(''candidates'', JArr (map candidate_json cands))] else [])))], err)
        | Shop_error m \<Rightarrow> (evs, m)
        | Shop_other \<Rightarrow> (evs, err))"

record shop_request =
  sq_session :: string
  sq_message :: string
  sq_user :: string

text \<open>The call gives its events and, when its status is not ok, the message.\<close>

definition shop_output ::
  "('n jval \<Rightarrow> string) \<Rightarrow> (string \<Rightarrow> 's \<Rightarrow> bool \<times> 's) \<Rightarrow> 'n shop_event list \<times> string option \<Rightarrow> 's \<Rightarrow> 's" where
  "shop_output dump send reply s =
     (let (evs, err0) = collect_shop dump (fst reply) ([], []);
          err = (case snd reply of Some m \<Rightarrow> if err0 = [] then m else err0 | None \<Rightarrow> err0)
      in if err \<noteq> [] then snd (PushSSE send (dump (JObj [(''error'', JStr err)])) s) else push_all send evs s)"

definition ShoppingHandleStream ::
  "('j, 'c) chat_json \<Rightarrow> ('n jval \<Rightarrow> string) \<Rightarrow> bool \<Rightarrow> (shop_request \<Rightarrow> 'n shop_event list \<times> string option)
    \<Rightarrow> (string \<Rightarrow> 's \<Rightarrow> bool \<times> 's) \<Rightarrow> ('s \<Rightarrow> 's) \<Rightarrow> string \<Rightarrow> 's \<Rightarrow> bool \<times> shop_request list \<times> 's" where
  \<open>ShoppingHandleStream J dump channel rpc send finish body s =
     (case cj_parse J body of
        Inl msg \<Rightarrow> (True, [], push_error send finish (''{"error":"invalid json: '' @ msg @ ''"}'') s)
      | Inr b \<Rightarrow>
          (case (text_field J b ''session_id'' [], text_field J b ''message'' [], text_field J b ''user_id'' []) of
             (Some sid, Some message, Some uid) \<Rightarrow>
               if message = [] then (True, [], push_error send finish ''{"error":"message is required"}'' s)
               else if \<not> channel
               then (True, [], push_error send finish ''{"error":"cannot get channel to shopping-agent:50054"}'' s)
               else
                 let req = \<lparr> sq_session = sid, sq_message = message, sq_user = uid \<rparr>
                 in (True, [req], finish (shop_output dump send (rpc req) s))
           | _ \<Rightarrow> (False, [], s)))\<close>

text \<open>\<open>ResetHandler\<close>: \<open>sid\<close> is \<^verbatim>\<open>body.value("session_id", "")\<close>, the call gives its status and \<open>ok\<close>.\<close>

definition HandleReset ::
  "('j, 'c) chat_json \<Rightarrow> ('n jval \<Rightarrow> string) \<Rightarrow> bool \<Rightarrow> (string \<Rightarrow> bool \<times> bool) \<Rightarrow> string \<Rightarrow> string \<Rightarrow> region_state
    \<Rightarrow> response_state option" where
  \<open>HandleReset J dump channel rpc date body st =
     (case cj_parse J body of
        Inl _ \<Rightarrow> Some (EndHeaders date (on_response (ResponseBody ''{"error":"invalid json"}'') (new_response 400 st)))
      | Inr b \<Rightarrow>
          if \<not> channel
          then Some (EndHeaders date (on_response (ResponseBody ''{"error":"cannot get channel"}'') (new_response 500 st)))
          else (case text_field J b ''session_id'' [] of
                  None \<Rightarrow> None
                | Some sid \<Rightarrow>
                    (case rpc sid of (status_ok, ok) \<Rightarrow>
                       Some (EndHeaders date (on_response (ResponseBody (dump (JObj [(''ok'', JBool ok)])))
                         (ResponseHeader ''Access-Control-Allow-Origin'' ''*''
                           (ResponseHeader ''Content-Type'' ''application/json; charset=utf-8''
                             (new_response (if status_ok then 200 else 500) st)))))))) \<close>

definition shopping_routes :: "string registration list" where
  "shopping_routes = [On ''POST'' ''/shopping/api/chat'' ''chat'', On ''POST'' ''/shopping/api/reset'' ''reset'']"

section \<open>What is streamed\<close>

definition chat_text :: "chat_reply \<Rightarrow> string list" where
  "chat_text r = (case r of Token t \<Rightarrow> [t] | Finished \<Rightarrow> [''[DONE]''] | _ \<Rightarrow> [])"

definition no_error :: "chat_reply \<Rightarrow> bool" where
  "no_error r \<longleftrightarrow> (case r of Chat_error _ \<Rightarrow> False | _ \<Rightarrow> True)"

lemma collect_chat_texts:
  "list_all no_error rs \<Longrightarrow> collect_chat rs (ts, e) = (ts @ concat (map chat_text rs), e)"
  by (induction rs arbitrary: ts) (auto simp: chat_text_def no_error_def split: chat_reply.splits)

fun upto_done :: "string list \<Rightarrow> string list" where
  "upto_done [] = []"
| "upto_done (t # ts) = t # (if t = ''[DONE]'' then [] else upto_done ts)"

lemma push_chat_upto: "push_chat send ts s = push_all send (upto_done ts) s"
  by (induction ts arbitrary: s) (auto split: prod.splits)

lemma upto_done_append: "''[DONE]'' \<notin> set ts \<Longrightarrow> upto_done (ts @ [''[DONE]'']) = ts @ [''[DONE]'']"
  by (induction ts) auto

lemma chat_output_tokens:
  assumes "''[DONE]'' \<notin> set ts"
  shows "chat_output send (Some (map Token ts @ [Finished])) s = push_all send (ts @ [''[DONE]'']) s"
proof -
  have "concat (map chat_text (map Token ts @ [Finished])) = ts @ [''[DONE]'']"
    by (induction ts) (simp_all add: chat_text_def)
  moreover have "list_all no_error (map Token ts @ [Finished])"
    by (simp add: no_error_def list_all_iff)
  ultimately show ?thesis
    using collect_chat_texts [of "map Token ts @ [Finished]" "[]" "[]"] assms
    by (simp add: chat_output_def push_chat_upto upto_done_append)
qed

text \<open>On a connection whose writes succeed nothing is lost.\<close>

lemma h1_push_all_open:
  "\<not> h1_disconnected s \<Longrightarrow> list_all (\<lambda>x. x = None) (h1_io s) \<Longrightarrow> \<not> h1_disconnected (push_all H1SinkWrite ds s)"
proof (induction ds arbitrary: s)
  case (Cons d ds)
  let ?s = "s\<lparr> h1_written := h1_written s @ sse_frame d, h1_io := tl (h1_io s) \<rparr>"
  have "H1SinkWrite (sse_frame d) s = (True, ?s)"
    using Cons.prems by (auto simp: H1SinkWrite_def split: list.splits)
  moreover have "list_all (\<lambda>x. x = None) (tl (h1_io s))"
    using Cons.prems(2) by (cases "h1_io s") simp_all
  ultimately show ?case
    using Cons.IH [of ?s] Cons.prems(1) by (simp add: PushSSE_def)
qed simp

lemma h1_stream_read:
  assumes "\<not> h1_disconnected s" and "h1_written s = []" and "list_all (\<lambda>x. x = None) (h1_io s)"
    and "\<forall>d \<in> set ds. lf \<notin> set d"
  shows "sse_events (h1_written (H1SinkEnd (push_all H1SinkWrite ds s))) = ds"
proof -
  have "h1_written (H1SinkEnd (push_all H1SinkWrite ds s)) = concat (map sse_frame ds)"
    using h1_sink.pushed_and_ended [OF assms(1), of ds] h1_push_all_open [OF assms(1,3)] assms(2) by simp
  then show ?thesis
    using frames_read_back [OF assms(4)] by simp
qed


definition sample_json :: "(nat, unit) chat_json" where
  "sample_json = \<lparr> cj_parse = (\<lambda>s. if s = [] then Inl ''empty'' else Inr (length s)),
     cj_field = (\<lambda>_ k. if k = ''message'' then Text ''hi'' else Absent), cj_config = Some \<circ> (\<lambda>_. ()) \<rparr>"

definition idle_sink :: H1StreamSink where
  "idle_sink = \<lparr> h1_written = [], h1_io = [None, None], h1_disconnected = False \<rparr>"


section \<open>Who may chat\<close>

lemma chat_calls_authorised:
  assumes "ChatHandleStream J verify channel rpc send finish body auth s = (ok, req # calls, s')"
  shows "take 7 auth = ''Bearer '' \<and> verify (drop 7 auth) \<noteq> [] \<and> calls = []"
  using assms
  by (auto simp: ChatHandleStream_def bearer_token_def Let_def split: sum.splits option.splits if_splits)

text \<open>C38. The chat service is called only for a request that carries a token signed with the server's
  key and not expired, whatever the client sends and whatever sink is used.\<close>

theorem chat_only_with_signed_token:
  assumes "ChatHandleStream J (\<lambda>t. fst (auth_verify_token C JL file_key now t cell)) channel rpc send finish body auth s
      = (ok, req # calls, s')"
  shows "\<exists>header payload sig k b exp. auth = ''Bearer '' @ header @ ''.'' @ payload @ ''.'' @ sig
    \<and> the (load_once cell file_key) = Some k \<and> c_verify C k (header @ ''.'' @ payload) (unbase64url C sig)
    \<and> j_parse JL (unbase64url C payload) = Some b \<and> j_long JL b ''exp'' 0 = Some exp \<and> now < exp"
proof -
  have auth: "auth = ''Bearer '' @ drop 7 auth"
    and user: "verify_token C JL (the (load_once cell file_key)) now (drop 7 auth) \<noteq> []"
    using chat_calls_authorised [OF assms] append_take_drop_id [of 7 auth] by (auto simp: auth_verify_token_eq)
  obtain header payload sig k b exp where "drop 7 auth = header @ ''.'' @ payload @ ''.'' @ sig"
    "the (load_once cell file_key) = Some k" "c_verify C k (header @ ''.'' @ payload) (unbase64url C sig)"
    "j_parse JL (unbase64url C payload) = Some b" "j_long JL b ''exp'' 0 = Some exp" "now < exp"
    using accepted_signed [OF refl user] by (elim exE conjE)
  with auth show ?thesis
    by metis
qed

definition bob_auth :: string where
  "bob_auth = ''Bearer '' @ create_token toy_crypto (Some ()) 100 ''bob''"

theorem chat_only_with_signed_token_witness:
  "\<exists>header payload sig. bob_auth = ''Bearer '' @ header @ ''.'' @ payload @ ''.'' @ sig
     \<and> c_verify toy_crypto () (header @ ''.'' @ payload) (unbase64url toy_crypto sig)"
proof -
  let ?verify = "\<lambda>t. fst (auth_verify_token toy_crypto toy_json (Some ()) 200 t None)"
  have "verify_token toy_crypto toy_json (Some ()) 200 (create_token toy_crypto (Some ()) 100 ''bob'') = ''bob''"
    by (rule issued_accepted [OF toy_base64 toy_signs toy_reads toy_token]) simp
  then have "ChatHandleStream sample_json ?verify True (\<lambda>_. None) H1SinkWrite H1SinkEnd ''{}'' bob_auth idle_sink =
      (True, [\<lparr> rq_session = ''default'', rq_message = ''hi'', rq_model = ''qwen'', rq_config = () \<rparr>],
       H1SinkEnd (chat_output H1SinkWrite None idle_sink))"
    using toy_token
    by (simp add: ChatHandleStream_def sample_json_def text_field_def bearer_token_def bob_auth_def
        auth_verify_token_eq load_once_def)
  from chat_only_with_signed_token [OF this] show ?thesis
    by auto
qed

section \<open>Every stream ends\<close>

context stream_sink
begin

lemma finish_ends: "disconnected (finish s)"
  using finish_open finish_closed by (cases "disconnected s") simp_all

lemma chat_ends: "ChatHandleStream J verify channel rpc send finish body auth s = (True, calls, s') \<Longrightarrow> disconnected s'"
  by (auto simp: ChatHandleStream_def push_error_def finish_ends Let_def split: sum.splits option.splits if_splits)

lemma shopping_ends: "ShoppingHandleStream J dump channel rpc send finish body s = (True, calls, s') \<Longrightarrow> disconnected s'"
  by (auto simp: ShoppingHandleStream_def push_error_def finish_ends Let_def split: sum.splits option.splits if_splits)

end

text \<open>The events of a shopping conversation without an error.\<close>

definition shop_texts :: "('n jval \<Rightarrow> string) \<Rightarrow> 'n shop_event list \<Rightarrow> string list" where
  "shop_texts dump es = fst (collect_shop dump es ([], []))"

definition shop_ok :: "'n shop_event \<Rightarrow> bool" where
  "shop_ok e \<longleftrightarrow> (case e of Shop_error _ \<Rightarrow> False | _ \<Rightarrow> True)"

lemma collect_shop_ok: "list_all shop_ok es \<Longrightarrow> snd (collect_shop dump es (evs, [])) = []"
  by (induction es arbitrary: evs) (auto simp: shop_ok_def split: shop_event.splits)

lemma shop_output_ok:
  "list_all shop_ok es \<Longrightarrow> shop_output dump send (es, None) s = push_all send (shop_texts dump es) s"
  using collect_shop_ok [of es dump "[]"] by (auto simp: shop_output_def shop_texts_def split: prod.splits)

text \<open>A shopping request over HTTP/2 whose remote call succeeds puts one DATA frame per event on
  its stream, in order, and ends the stream, unless the connection breaks; in every case the
  stream is closed afterwards.\<close>

theorem shopping_streams_events:
  assumes "cj_parse J body = Inr b" and "text_field J b ''session_id'' [] = Some sess"
    and "text_field J b ''message'' [] = Some message" and "text_field J b ''user_id'' [] = Some uid"
    and "message \<noteq> []" and "rpc \<lparr> sq_session = sess, sq_message = message, sq_user = uid \<rparr> = (es, None)"
    and "list_all shop_ok es"
  shows "\<exists>s'. ShoppingHandleStream J dump True rpc (H2SinkWrite sid) (sink_end sid) body (False, s) =
      (True, [\<lparr> sq_session = sess, sq_message = message, sq_user = uid \<rparr>], (True, s'))
    \<and> (fst (push_all (H2SinkWrite sid) (shop_texts dump es) (False, s))
       \<or> hs_sent s' @ hs_output s' = hs_sent s @ hs_output s
           @ concat (map (\<lambda>d. data_frame_of sid False (sse_frame d)) (shop_texts dump es)) @ data_frame_of sid True [])"
proof -
  obtain ended s' where s': "sink_end sid (push_all (H2SinkWrite sid) (shop_texts dump es) (False, s)) = (ended, s')"
    by fastforce
  then have "ShoppingHandleStream J dump True rpc (H2SinkWrite sid) (sink_end sid) body (False, s) =
      (True, [\<lparr> sq_session = sess, sq_message = message, sq_user = uid \<rparr>], (ended, s'))"
    using assms by (simp add: ShoppingHandleStream_def shop_output_ok)
  then show ?thesis
    using h2_sink.pushed_and_ended [of "(False, s)" sid "shop_texts dump es"] s' by (simp add: h2_out_def)
qed

definition sample_dump :: "nat jval \<Rightarrow> string" where
  "sample_dump v = (case v of JObj ((k, JStr s) # _) \<Rightarrow> k @ ''='' @ s | _ \<Rightarrow> ''?'')"

theorem shopping_streams_events_witness:
  "\<exists>s'. ShoppingHandleStream sample_json sample_dump True (\<lambda>_. ([Shop_token ''a'', Shop_token ''b''], None))
      (H2SinkWrite 1) (sink_end 1) ''{}'' (False, sample_session) =
        (True, [\<lparr> sq_session = [], sq_message = ''hi'', sq_user = [] \<rparr>], (True, s'))"
proof -
  have "list_all shop_ok [Shop_token ''a'' :: nat shop_event, Shop_token ''b'']"
    by (simp add: shop_ok_def)
  then show ?thesis
    using shopping_streams_events [of sample_json "''{}''" 2 "[]" "''hi''" "[]"
        "\<lambda>_. ([Shop_token ''a'', Shop_token ''b''], None)" "[Shop_token ''a'', Shop_token ''b'']" sample_dump 1 sample_session]
    by (auto simp: sample_json_def text_field_def)
qed

text \<open>The answers of \<open>ResetHandler\<close> have no \<^verbatim>\<open>Content-Length\<close>: on a connection that stays open the client cannot
  see where the body ends.\<close>

lemma reset_answer_without_length:
  assumes "region_inv others st" and "\<not> sr_structured (snd st)"
    and "cj_parse J body = Inl msg"
    and "sr_used (snd st) + length (head_text 400 [] date True) \<le> sr_cap (snd st)"
  shows "map_option HeaderWire (HandleReset J dump channel rpc date body st) = Some (head_text 400 [] date True)"
proof -
  have "EndHeaders date (on_response (ResponseBody x) (new_response 400 st)) =
      on_response (ResponseBody x) (EndHeaders date (new_response 400 st))" for x
    by (simp add: EndHeaders_def on_response_def ResponseBody_def Let_def new_response_def NoneResponse_def)
  then show ?thesis
    using body_wire [OF assms(1,2), of 400 "[]" date] assms(3,4) by (simp add: HandleReset_def)
qed

end
