(* ===== verification/Program.thy ===== *)
theory Program
  imports Plugins Rpc Server
begin

text \<open>
  The program as \<^verbatim>\<open>main.cpp\<close> puts it together: configuration, remote calls, routes, plugins, TLS and
  the server, up to the point where the server runs; and what a running server dispatches to while
  the hot reloader goes on changing its routes.
\<close>

section \<open>The router owns what it finds\<close>

text \<open>
  The nodes of the tree hold raw pointers to handlers; the router's list \<^verbatim>\<open>handlers_\<close> owns them.
\<close>

definition data_handlers :: "'h node_data \<Rightarrow> 'h set" where
  "data_handlers d =
     set_option (handler_get d) \<union> set_option (handler_post d) \<union> set_option (handler_put d)
     \<union> set_option (handler_delete d) \<union> set_option (handler_head d) \<union> set_option (handler_any d)
     \<union> snd ` set (handler_extra d)"

primrec tree_handlers :: "'h node \<Rightarrow> 'h set" where
  "tree_handlers (Node d cs) = data_handlers d \<union> \<Union> (set (map tree_handlers cs))"

definition owned :: "'h router \<Rightarrow> bool" where
  "owned r \<longleftrightarrow> tree_handlers (root r) \<subseteq> set (handlers r)"

lemma tree_handlers_node: "tree_handlers n = data_handlers (ndata n) \<union> \<Union> (tree_handlers ` set (nchildren n))"
  by (cases n) simp

lemma data_handlers_simps [simp]:
  "data_handlers new_data = {}"
  "data_handlers (d\<lparr> nd_path := p \<rparr>) = data_handlers d"
  "data_handlers (d\<lparr> nd_indices := p \<rparr>) = data_handlers d"
  "data_handlers (d\<lparr> nd_param := q \<rparr>) = data_handlers d"
  "data_handlers (d\<lparr> nd_catch := q \<rparr>) = data_handlers d"
  "data_handlers (d\<lparr> nd_type := t \<rparr>) = data_handlers d"
  "data_handlers (d\<lparr> nd_pname := p \<rparr>) = data_handlers d"
  "data_handlers (d\<lparr> nd_prefix := b \<rparr>) = data_handlers d"
  by (simp_all add: data_handlers_def new_data_def)

lemma data_handlers_any: "data_handlers (d\<lparr> handler_any := Some h \<rparr>) \<subseteq> insert h (data_handlers d)"
  by (auto simp: data_handlers_def)

lemma data_handlers_set: "data_handlers (SetHandler m h d) \<subseteq> insert h (data_handlers d)"
proof -
  have "snd ` set (filter (\<lambda>(k, _). k \<noteq> m) (handler_extra d)) \<subseteq> snd ` set (handler_extra d)"
    by auto
  then show ?thesis
    unfolding SetHandler_def by (simp add: data_handlers_def) blast
qed

lemma data_handlers_put: "data_handlers (put_handler m h d) \<subseteq> insert h (data_handlers d)"
  using data_handlers_any [of h d] data_handlers_set [of m h d] by (simp add: put_handler_def)

lemma tree_handlers_add:
  "tree_handlers (AddStaticChild c x n) = tree_handlers n \<union> tree_handlers c"
  "tree_handlers (AddParamChild c n) = tree_handlers n \<union> tree_handlers c"
  "tree_handlers (AddCatchAllChild c n) = tree_handlers n \<union> tree_handlers c"
  by (auto simp: AddStaticChild_def AddParamChild_def AddCatchAllChild_def tree_handlers_node [of n])

lemma InsertChild_handlers: "tree_handlers (InsertChild path h m n) \<subseteq> insert h (tree_handlers n)"
proof (induction path h m n rule: InsertChild.induct)
  case (1 path h m n)
  show ?case
  proof (cases "FindWildcard path")
    case None
    then show ?thesis
      using data_handlers_put [of m h] tree_handlers_node [of n]
      by (subst InsertChild.simps) fastforce
  next
    case (Some w)
    obtain pos wildcard where w: "w = (pos, wildcard)" by fastforce
    let ?n1 = "if 0 < pos then Node ((ndata n)\<lparr> nd_path := take pos path \<rparr>) (nchildren n) else n"
    have n1: "tree_handlers ?n1 = tree_handlers n"
      by (simp add: tree_handlers_node [of n])
    have new: "tree_handlers (new_node :: 'a node) = {}"
      by (simp add: new_node_def)
    have put: "x = h"
      if "x \<in> data_handlers (put_handler m h (new_data\<lparr> nd_type := t, nd_path := p, nd_pname := q \<rparr>))" for x t p q
      using data_handlers_put [of m h "new_data\<lparr> nd_type := t, nd_path := p, nd_pname := q \<rparr>"] that by auto
    show ?thesis
      using "1.IH" [OF Some w [symmetric] refl refl _ refl refl] n1 new
      by (subst InsertChild.simps) (auto simp: Some w Let_def tree_handlers_add dest!: subsetD dest: put)
  qed
qed

lemma split_node_handlers: "tree_handlers (split_node i n) = tree_handlers n"
  by (simp add: split_node_def Let_def tree_handlers_node [of n])

lemma insert_loop_handlers:
  "insert_loop path h m n = Some (n', pos) \<Longrightarrow> tree_handlers n' \<subseteq> insert h (tree_handlers n)"
proof (induction path h m n arbitrary: n' pos rule: insert_loop.induct)
  case (1 path h m n)
  define i where "i = LongestCommonPrefix (nd_path (ndata n)) path"
  define n1 where "n1 = (if i < length (nd_path (ndata n)) then split_node i n else n)"
  note ins = "1.prems" [unfolded insert_loop.simps [of path h m n] Let_def, folded i_def, folded n1_def]
  have n1: "tree_handlers n1 = tree_handlers n"
    by (simp add: n1_def split_node_handlers)
  show ?case
  proof (cases "i = length path")
    case True
    then have "n' = Node (put_handler m h (ndata n1)) (nchildren n1)"
      using ins by simp
    then show ?thesis
      using data_handlers_put [of m h "ndata n1"] n1 tree_handlers_node [of n1] by auto
  next
    case False
    show ?thesis
    proof (cases "index_of (hd (drop i path)) (nd_indices (ndata n1))")
      case None
      then show ?thesis
        using ins False InsertChild_handlers [of "drop i path" h m new_node] n1
        by (auto simp: tree_handlers_add new_node_def)
    next
      case (Some j)
      then obtain child pos' where j: "j < length (nchildren n1)"
        and child: "insert_loop (drop i path) h m (nchildren n1 ! j) = Some (child, pos')"
        and n': "n' = Node (ndata n1) ((nchildren n1)[j := child])"
        using ins False by (auto split: if_splits)
      have "tree_handlers child \<subseteq> insert h (tree_handlers (nchildren n1 ! j))"
        using "1.IH" [OF i_def n1_def False refl Some j child] .
      moreover have "set ((nchildren n1)[j := child]) \<subseteq> insert child (set (nchildren n1))"
        by (rule set_update_subset_insert)
      ultimately show ?thesis
        using j n1 nth_mem [OF j] tree_handlers_node [of n1] unfolding n' by fastforce
    qed
  qed
qed

lemma update_at_handlers:
  assumes "\<And>d. data_handlers (f d) \<subseteq> insert h (data_handlers d)"
  shows "tree_handlers (update_at pos f n) \<subseteq> insert h (tree_handlers n)"
proof (induction pos arbitrary: n)
  case Nil
  then show ?case
    using assms [of "ndata n"] by (auto simp: tree_handlers_node [of n])
next
  case (Cons j pos)
  have "set ((nchildren n)[j := c]) \<subseteq> (if j < length (nchildren n) then insert c (set (nchildren n)) else set (nchildren n))" for c
    by (simp add: set_update_subset_insert list_update_beyond)
  then show ?case
    using Cons [of "nchildren n ! j"] nth_mem [of j "nchildren n"]
    by (fastforce simp: tree_handlers_node [of n] split: if_splits)
qed

lemma Insert_handlers: "Insert path h m n = Some (n', pos) \<Longrightarrow> tree_handlers n' \<subseteq> insert h (tree_handlers n)"
  using InsertChild_handlers insert_loop_handlers by (fastforce simp: Insert_def split: if_splits)

lemma register_owned:
  assumes "register g r = Some r'" and "owned r"
  shows "owned r'"
proof (cases g)
  case (Any path h)
  obtain path' p where p: "(if 1 < length path \<and> last path = CHR ''/'' then (butlast path, True)
      else if path = ''/'' then ([], True) else (path, False)) = (path', p)"
    by fastforce
  obtain t pos where ins: "Insert path' h [] (root r) = Some (t, pos)"
    and r': "r' = \<lparr> handlers = handlers r @ [h], root = update_at pos
      (\<lambda>d. (if p then d\<lparr> nd_prefix := True \<rparr> else d)\<lparr> handler_any := Some h \<rparr>) t \<rparr>"
    using assms(1) unfolding Any register.simps Add_def p by (auto split: option.splits)
  have "data_handlers ((if p then d\<lparr> nd_prefix := True \<rparr> else d)\<lparr> handler_any := Some h \<rparr>) \<subseteq> insert h (data_handlers d)" for d
    using data_handlers_any [of h "d\<lparr> nd_prefix := True \<rparr>"] data_handlers_any [of h d] by simp
  then have "tree_handlers (root r') \<subseteq> insert h (tree_handlers t)"
    unfolding r' router.simps by (rule update_at_handlers)
  then show ?thesis
    using Insert_handlers [OF ins] assms(2) r' by (auto simp: owned_def)
next
  case (On m path h)
  then obtain t pos where ins: "Insert path h m (root r) = Some (t, pos)"
    and r': "r' = \<lparr> handlers = handlers r @ [h], root = update_at pos (SetHandler m h) t \<rparr>"
    using assms(1) by (auto simp: AddRoute_def split: option.splits prod.splits)
  then show ?thesis
    using update_at_handlers [of "SetHandler m h" h pos t] data_handlers_set Insert_handlers [OF ins] assms(2)
    by (fastforce simp: owned_def)
qed

lemma register_all_owned: "register_all gs r = Some r' \<Longrightarrow> owned r \<Longrightarrow> owned r'"
  unfolding register_all_def
  by (induction gs arbitrary: r) (auto simp: Option.bind_eq_Some_conv intro: register_owned)

lemma new_router_owned [simp]: "owned new_router"
  by (simp add: owned_def new_router_def new_node_def)

text \<open>What a lookup returns is a node of the tree.\<close>

lemma child_handlers: "j < length cs \<Longrightarrow> tree_handlers (cs ! j) \<subseteq> \<Union> (tree_handlers ` set cs)"
  using nth_mem by blast

lemma check_fallback_handlers:
  assumes "check_fallback d cs path ps fb = Some (Some x, ps')"
    and "\<And>y. fb = Some y \<Longrightarrow> data_handlers y \<subseteq> H" and "\<Union> (tree_handlers ` set cs) \<subseteq> H"
  shows "data_handlers x \<subseteq> H"
proof (cases "nd_catch d")
  case (Some q)
  then have "q < length cs" "x = ndata (cs ! q)"
    using assms(1) by (auto simp: check_fallback_def split: if_splits)
  then show ?thesis
    using assms(3) child_handlers [of q cs] tree_handlers_node [of "cs ! q"] by blast
qed (use assms in \<open>auto simp: check_fallback_def usable_def split: option.splits if_splits\<close>)

lemma lookup_loop_handlers:
  assumes "lookup_loop n path ps fb = Some (Some x, ps')"
    and "\<And>y. fb = Some y \<Longrightarrow> data_handlers y \<subseteq> H" and "tree_handlers n \<subseteq> H"
  shows "data_handlers x \<subseteq> H"
  using assms
proof (induction n path ps fb rule: lookup_loop.induct)
  case (1 d cs path ps fb)
  note IH = "1.IH" and L = "1.prems"(1) [unfolded lookup_loop.simps [of d]] and fb = "1.prems"(2)
  have d: "data_handlers d \<subseteq> H" and cs: "\<Union> (tree_handlers ` set cs) \<subseteq> H"
    using "1.prems"(3) by auto
  note fall = check_fallback_handlers [where H = H]
  define path1 where "path1 = drop (length (nd_path d)) path"
  define fb1 where "fb1 = (if nd_prefix d \<and> HasHandler d then Some d else fb)"
  define seg where "seg = takeWhile (\<lambda>x. x \<noteq> CHR ''/'') path1"
  note L = L [unfolded Let_def, folded path1_def, folded fb1_def seg_def]
  have fb1: "fb1 = Some y \<Longrightarrow> data_handlers y \<subseteq> H" for y
    using fb d by (auto simp: fb1_def split: if_splits)
  show ?case
  proof (cases "\<not> prefix (nd_path d) path \<or> path1 = []")
    case True
    then show ?thesis
      using L d fb fall [OF _ fb cs] by (auto simp: usable_def split: if_splits option.splits)
  next
    case deeper: False
    show ?thesis
    proof (cases "index_of (hd path1) (nd_indices d)")
      case (Some j)
      then have j: "j < length cs" "lookup_loop (cs ! j) path1 ps fb1 = Some (Some x, ps')"
        using L deeper by (auto split: if_splits)
      show ?thesis
        using IH(2) [OF _ path1_def _ fb1_def Some j(1,2) fb1] deeper child_handlers [OF j(1)] cs by blast
    next
      case None
      show ?thesis
      proof (cases "nd_param d = None \<or> seg = []")
        case True
        then show ?thesis
          using L deeper None fall [OF _ fb1 cs] by (auto split: option.splits)
      next
        case False
        then obtain p where p: "nd_param d = Some p" "seg \<noteq> []" "p < length cs"
          using L deeper None by (auto split: if_splits)
        let ?pd = "ndata (cs ! p)" and ?pcs = "nchildren (cs ! p)"
        have pd: "data_handlers ?pd \<subseteq> H" and pcs: "\<Union> (tree_handlers ` set ?pcs) \<subseteq> H"
          using child_handlers [OF p(3)] cs tree_handlers_node [of "cs ! p"] by blast+
        show ?thesis
        proof (cases "length seg = length path1")
          case True
          then show ?thesis
            using L deeper None p pd by auto
        next
          case more: False
          show ?thesis
          proof (cases "index_of (hd (drop (length seg) path1)) (nd_indices ?pd)")
            case (Some j)
            then have j: "j < length ?pcs"
              "lookup_loop (?pcs ! j) (drop (length seg) path1) (ps @ [(nd_pname ?pd, seg)]) fb1 = Some (Some x, ps')"
              using L deeper None p more by (auto split: if_splits)
            show ?thesis
              using IH(1) [OF _ path1_def _ fb1_def None seg_def p(1,2) _ refl refl refl more refl Some j fb1]
                deeper p(3) child_handlers [OF j(1)] pcs by blast
          next
            case leaf: None
            then show ?thesis
              using L deeper None p more pd fall [OF _ fb1 pcs] by (auto split: if_splits)
          qed
        qed
      qed
    qed
  qed
qed

lemma RouterLookup_handlers:
  "RouterLookup n path = Some (Some x, ps) \<Longrightarrow> data_handlers x \<subseteq> tree_handlers n"
  using lookup_loop_handlers [of n _ "[]" None x ps "tree_handlers n"]
  by (auto simp: RouterLookup_def tree_handlers_node [of n] split: if_splits)

lemma method_handler_in: "method_handler m d = Some h \<Longrightarrow> h \<in> data_handlers d"
  by (auto simp: method_handler_def GetHandler_def data_handlers_def split: if_splits option.splits
      dest!: map_of_SomeD intro: rev_image_eqI)

lemma MatchMethod_owned:
  assumes "owned r" and "MatchMethod r m path = Some (Some h, ps)"
  shows "h \<in> set (handlers r)"
proof -
  obtain d where "RouterLookup (root r) path = Some (Some d, ps)" "method_handler m d = Some h"
    using assms(2) by (auto simp: MatchMethod_def Option.bind_eq_Some_conv)
  then show ?thesis
    using assms(1) RouterLookup_handlers method_handler_in by (fastforce simp: owned_def)
qed

section \<open>The start of the program\<close>

text \<open>The handlers of the program itself and those of plugins.\<close>

datatype 'p program_handler = Configured route_handler | WsEchoHandler | Loaded 'p

definition main_regs :: "Config \<Rightarrow> 'p program_handler plug_handler registration list" where
  "main_regs cfg =
     map (map_registration (Pair None \<circ> Configured))
       (Any ''/'' StaticFileHandler # config_regs (cfg_proxy_routes cfg) (cfg_redirect_rules cfg))
     @ [Any ''/echo'' (None, WsEchoHandler)]"

text \<open>The OpenSSL calls of \<^verbatim>\<open>TlsContext::Load\<close>: whether the file is accepted (it throws otherwise).\<close>

record tls_lib =
  use_certificate_chain_file :: "string \<Rightarrow> bool"
  use_private_key_file :: "string \<Rightarrow> bool"
  use_tmp_dh_file :: "string \<Rightarrow> bool"

definition LoadTls :: "tls_lib \<Rightarrow> string \<Rightarrow> string \<Rightarrow> string \<Rightarrow> bool" where
  "LoadTls tls cert_file key_file dh_file \<longleftrightarrow>
     use_certificate_chain_file tls cert_file \<and> use_private_key_file tls key_file
     \<and> (dh_file = [] \<or> use_tmp_dh_file tls dh_file)"

text \<open>
  How \<^verbatim>\<open>main\<close> goes on: it returns a status, it is ended by undefined behaviour or an exception that
  nothing catches, or the server runs with these plugins.
\<close>

datatype 'p run =
    is_exit: Exit (exit_status: nat)
  | Crashed
  | is_serving: Serving (server_of: server) (plugins_of: "'p program_handler plug_state")

definition main_server ::
  "'n yaml \<Rightarrow> (string \<Rightarrow> 'n option) \<Rightarrow> 'p program_handler plug_env \<Rightarrow> tls_lib \<Rightarrow> (nat \<Rightarrow> nat) \<Rightarrow> string \<Rightarrow> 'p run" where
  "main_server Y load e tls pushed path =
     (case LoadConfig Y (load path) False of
        None \<Rightarrow> Exit 1
      | Some cfg \<Rightarrow>
          if \<not> fst (Initialize ''127.0.0.1:8500'' (new_rpc_module :: unit RpcModule)) then Exit 1
          else (case register_all (main_regs cfg) new_router of
            None \<Rightarrow> Crashed
          | Some r \<Rightarrow>
              (case main_loads e (plugins_start r) of
                 Inl _ \<Rightarrow> Crashed
               | Inr s \<Rightarrow>
                   if cfg_tls_cert cfg = [] \<or> cfg_tls_key cfg = [] then Exit 1
                   else if \<not> LoadTls tls (cfg_tls_cert cfg) (cfg_tls_key cfg) [] then Exit 1
                   else (case StartServer cfg pushed of
                     Inl Length_error \<Rightarrow> Exit 1
                   | Inl Out_of_range \<Rightarrow> Crashed
                   | Inr sv \<Rightarrow> Serving sv s))))"

section \<open>What a running server dispatches to\<close>

text \<open>What every registration keeps of the router, the loader and the reloader keep.\<close>

locale router_property =
  fixes good :: "'x plug_handler router \<Rightarrow> bool"
  assumes register_good: "register g r = Some r' \<Longrightarrow> good r \<Longrightarrow> good r'"
begin

lemma register_all_good: "register_all gs r = Some r' \<Longrightarrow> good r \<Longrightarrow> good r'"
  unfolding register_all_def
  by (induction gs arbitrary: r) (auto simp: Option.bind_eq_Some_conv intro: register_good)

lemma call_register_good: "call_register h p r = Some r' \<Longrightarrow> good r \<Longrightarrow> good r'"
  unfolding call_register_def by (rule register_all_good)

lemma load_library_good:
  "load_library e path s = Inr s' \<Longrightarrow> good (plug_router s) \<Longrightarrow> good (plug_router s')"
  by (erule load_library_cases) (auto dest: call_register_good)

lemma Reload_good: "Reload e path s = Inr s' \<Longrightarrow> good (plug_router s) \<Longrightarrow> good (plug_router s')"
  by (erule Reload_cases) (auto dest: call_register_good)

lemma each_good:
  assumes "\<And>a s s'. step a s = Inr s' \<Longrightarrow> good (plug_router s) \<Longrightarrow> good (plug_router s')"
    and "each step as s = Inr s'" and "good (plug_router s)"
  shows "good (plug_router s')"
  using kept_by.each_keeps [of step "\<lambda>_. True" "\<lambda>s. good (plug_router s)" as s s'] assms
  by (simp add: kept_by_def)

lemma LoadAll_good: "LoadAll e dir s = Inr (n, s') \<Longrightarrow> good (plug_router s) \<Longrightarrow> good (plug_router s')"
  by (auto simp: LoadAll_def split: option.splits intro: each_good [of "load_library e"] load_library_good)

lemma main_loads_good: "main_loads e s = Inr s' \<Longrightarrow> good (plug_router s) \<Longrightarrow> good (plug_router s')"
  by (auto simp: main_loads_def ReleaseHandles_def dest: LoadAll_good)

lemma first_scan_good: "first_scan e dir s = Inr s' \<Longrightarrow> good (plug_router s) \<Longrightarrow> good (plug_router s')"
  by (auto simp: first_scan_def first_load_def split: option.splits if_splits prod.splits
      elim!: each_good [of "first_load e", rotated])

lemma check_dir_good: "check_dir e dir s = Inr s' \<Longrightarrow> good (plug_router s) \<Longrightarrow> good (plug_router s')"
  by (auto simp: check_dir_def check_file_def split: option.splits if_splits
      elim!: each_good [of "check_file e", rotated] dest: Reload_good)

lemma event_dirs_good: "event_dirs e ds name s = Inr s' \<Longrightarrow> good (plug_router s) \<Longrightarrow> good (plug_router s')"
  by (induction ds) (auto simp: Let_def split: option.splits if_splits dest: Reload_good)

lemma handle_event_good: "handle_event e ds ev s = Inr s' \<Longrightarrow> good (plug_router s) \<Longrightarrow> good (plug_router s')"
  by (auto simp: handle_event_def Let_def split: if_splits dest: event_dirs_good)

lemma reload_round_good:
  "reload_round ds e ret (n, s) = Inr (go, n', s') \<Longrightarrow> good (plug_router s) \<Longrightarrow> good (plug_router s')"
  by (auto simp: reload_round_def Let_def split: poll_result.splits option.splits if_splits
      intro: each_good [of "check_dir e"] check_dir_good each_good [of "handle_event e ds"] handle_event_good)

lemma reload_rounds_good:
  "reload_rounds ds rs (n, s) = Inr s' \<Longrightarrow> good (plug_router s) \<Longrightarrow> good (plug_router s')"
proof (induction rs arbitrary: n s)
  case (Cons r rs)
  obtain e ret where r: "r = (e, ret)" by fastforce
  with Cons.prems obtain go n1 s1 where s1: "reload_round ds e ret (n, s) = Inr (go, n1, s1)"
    and rest: "(if go then reload_rounds ds rs (n1, s1) else Inr s1) = Inr s'"
    by (auto cong: if_cong)
  then show ?case
    using Cons reload_round_good [OF s1] by (auto split: if_splits)
qed simp

lemma WatchLoop_good:
  assumes "WatchLoop ds ok e rs s = Inr s'" and "good (plug_router s)"
  shows "good (plug_router s')"
proof (cases ok)
  case True
  then obtain s1 where s1: "each (first_scan e) ds s = Inr s1" "reload_rounds ds rs (0, s1) = Inr s'"
    using assms(1) by (auto simp: WatchLoop_def)
  show ?thesis
    using each_good [OF first_scan_good s1(1) assms(2)] by (rule reload_rounds_good [OF s1(2)])
qed (use assms in \<open>simp add: WatchLoop_def\<close>)

end

interpretation owning: router_property owned
  by unfold_locales (rule register_owned)

lemma main_server_Serving:
  assumes "main_server Y load e tls pushed path = Serving sv s"
  obtains cfg r where "LoadConfig Y (load path) False = Some cfg" "register_all (main_regs cfg) new_router = Some r"
    "main_loads e (plugins_start r) = Inr s" "StartServer cfg pushed = Inr sv"
    "LoadTls tls (cfg_tls_cert cfg) (cfg_tls_key cfg) []"
  using assms by (auto simp: main_server_def split: option.splits if_splits sum.splits start_error.splits)

lemma register_all_own_code:
  "register_all gs r = Some r' \<Longrightarrow> list_all (\<lambda>g. fst (case g of Any _ x \<Rightarrow> x | On _ _ x \<Rightarrow> x) = None) gs \<Longrightarrow>
     \<forall>x \<in> set (handlers r). fst x = None \<Longrightarrow> \<forall>x \<in> set (handlers r'). fst x = None"
  unfolding register_all_def
proof (induction gs arbitrary: r)
  case (Cons g gs)
  then obtain r1 where r1: "register g r = Some r1" "run_ops register gs r1 = Some r'"
    by (auto simp: Option.bind_eq_Some_conv)
  have "\<forall>x \<in> set (handlers r1). fst x = None"
    using register_handlers [OF r1(1)] Cons.prems(2,3) by simp
  then show ?case
    using Cons.IH [OF r1(2)] Cons.prems(2) by simp
qed simp

lemma own_reg: "fst (case map_registration (Pair None \<circ> f) g of Any _ x \<Rightarrow> x | On _ _ x \<Rightarrow> x) = None"
  by (cases g) simp_all

lemma main_regs_own_code:
  "list_all (\<lambda>g. fst (case g of Any _ x \<Rightarrow> x | On _ _ x \<Rightarrow> x) = None) (main_regs cfg)"
  by (simp add: main_regs_def list_all_iff own_reg)


section \<open>When the server starts\<close>

text \<open>Plugins that only register routes without wildcards, and throw nothing but standard exceptions.\<close>

definition well_behaved :: "'x plug_env \<Rightarrow> bool" where
  "well_behaved e \<longleftrightarrow>
     (\<forall>h p. register_routes e h = Some p \<longrightarrow>
        list_all static_reg (plug_routes p) \<and> plug_outcome p \<noteq> Threw_other)"

lemma static_reg_map [simp]: "static_reg (map_registration f g) = static_reg g"
  by (cases g) simp_all

lemma call_register_rooted:
  assumes "list_all static_reg (plug_routes p)" and "rooted (root r)"
  shows "\<exists>r'. call_register h p r = Some r' \<and> rooted (root r')"
  using route_tree.run_refines [of r "map (map_registration (Pair (Some h))) (plug_routes p)"] assms
  by (auto simp: call_register_def register_all_def list_all_iff)

lemma load_library_succeeds:
  assumes "well_behaved e" and "rooted (root (plug_router s))"
  shows "\<exists>s'. load_library e path s = Inr s' \<and> rooted (root (plug_router s'))"
proof (cases "dlopen e path (counts s)")
  case (Pair h' l)
  show ?thesis
  proof (cases "h' = None \<or> register_routes e (the h') = None")
    case True
    then show ?thesis
      using Pair assms(2) by (cases h') (auto simp: load_library_def)
  next
    case False
    then obtain h p where h: "h' = Some h" "register_routes e h = Some p"
      by auto
    obtain r where "call_register h p (plug_router s) = Some r" "rooted (root r)"
      using call_register_rooted [of p "plug_router s" h] assms h by (auto simp: well_behaved_def)
    then show ?thesis
      using Pair h assms(1) by (cases "plug_outcome p") (auto simp: load_library_def well_behaved_def)
  qed
qed

lemma each_succeeds:
  assumes "\<And>a s. P s \<Longrightarrow> \<exists>s'. f a s = Inr s' \<and> P s'" and "P s"
  shows "\<exists>s'. each f as s = Inr s' \<and> P s'"
  using assms(2)
proof (induction as arbitrary: s)
  case (Cons a as)
  then obtain s1 where "f a s = Inr s1" "P s1"
    using assms(1) by blast
  then show ?case
    using Cons.IH [of s1] by auto
qed simp

lemma LoadAll_succeeds:
  assumes "well_behaved e" and "rooted (root (plug_router s))"
  shows "\<exists>n s'. LoadAll e dir s = Inr (n, s') \<and> rooted (root (plug_router s'))"
  using each_succeeds [of "\<lambda>s. rooted (root (plug_router s))" "load_library e" s] load_library_succeeds assms
  by (cases "dir_entries e dir") (fastforce simp: LoadAll_def)+

lemma main_loads_succeeds:
  assumes "well_behaved e" and "rooted (root (plug_router s))"
  shows "\<exists>s'. main_loads e s = Inr s' \<and> rooted (root (plug_router s'))"
proof -
  obtain n1 s1 where "LoadAll e ''./build/handlers'' s = Inr (n1, s1)" "rooted (root (plug_router s1))"
    using LoadAll_succeeds [OF assms] by blast
  moreover from this obtain n2 s2 where "LoadAll e ''./handlers'' s1 = Inr (n2, s2)" "rooted (root (plug_router s2))"
    using LoadAll_succeeds [OF assms(1)] by blast
  ultimately show ?thesis
    by (simp add: main_loads_def ReleaseHandles_def)
qed

lemma config_regs_static:
  assumes "list_all (static_path \<circ> pr_prefix) prs" and "list_all (static_path \<circ> rr_from) rrs"
  shows "list_all static_reg (config_regs prs rrs)"
  using assms by (auto simp: config_regs_def list_all_iff proxy_regs_def redirect_regs_def static_path_def split: if_splits)

lemma main_router_rooted:
  assumes "list_all (static_path \<circ> pr_prefix) (cfg_proxy_routes cfg)"
    and "list_all (static_path \<circ> rr_from) (cfg_redirect_rules cfg)"
  shows "\<exists>r :: 'p program_handler plug_handler router. register_all (main_regs cfg) new_router = Some r \<and> rooted (root r)"
proof -
  define h0 :: "'p program_handler plug_handler" where "h0 = (None, Configured StaticFileHandler)"
  define gs :: "'p program_handler plug_handler registration list" where
    "gs = map (map_registration (Pair None \<circ> Configured)) (config_regs (cfg_proxy_routes cfg) (cfg_redirect_rules cfg))
       @ [Any ''/echo'' (None, WsEchoHandler)]"
  have main: "main_regs cfg = Any ''/'' h0 # gs"
    by (simp add: main_regs_def h0_def gs_def)
  obtain r0 where r0: "register (Any ''/'' h0) new_router = Some r0" "rooted (root r0)"
    using register_root [of h0] by (elim exE conjE)
  have "list_all static_reg gs"
    using config_regs_static [OF assms] by (simp add: gs_def list_all_iff static_path_def)
  then obtain r where "run_ops register gs r0 = Some r" "rooted (root r)"
    using route_tree.run_refines [of r0 gs] r0(2) by blast
  then show ?thesis
    unfolding main register_all_def by (simp only: run_ops.simps r0(1) Option.bind.bind_lunit) blast
qed

lemma rooted_match: "rooted (root r) \<Longrightarrow> \<exists>h. MatchMethod r m p = Some (h, [])"
  using RouterLookup_table [of "root r" p] by (auto simp: MatchMethod_def)


section \<open>A program to run\<close>

definition program_env :: "string plug_env \<Rightarrow> string program_handler plug_env" where
  "program_env e =
     \<lparr> dir_entries = dir_entries e, file_mtime = file_mtime e, object_at = object_at e, copy_ok = copy_ok e,
       register_routes = (\<lambda>h. map_option (\<lambda>p. \<lparr> plug_routes = map (map_registration Loaded) (plug_routes p),
          plug_outcome = plug_outcome p \<rparr>) (register_routes e h)),
       watch_ok = watch_ok e \<rparr>"

definition any_files :: tls_lib where
  "any_files = \<lparr> use_certificate_chain_file = (\<lambda>_. True), use_private_key_file = (\<lambda>_. True),
     use_tmp_dh_file = (\<lambda>_. True) \<rparr>"

definition sample_run :: "int \<Rightarrow> string run" where
  "sample_run t = main_server ynode_lib (\<lambda>_. Some (sample_file ''2'')) (program_env (chat_env Returned t)) any_files
     id ''config.yaml''"

definition sample_watched :: "string program_handler plug_state" where
  "sample_watched = projr (WatchLoop handler_dirs True (program_env (chat_env Returned 1))
     (replicate 5 (program_env (chat_env Returned 2), Poll_timeout)) (plugins_of (sample_run 1)))"

lemma sample_serving:
  "main_server ynode_lib (\<lambda>_. Some (sample_file ''2'')) (program_env (chat_env Returned 1)) any_files id ''config.yaml'' =
     Serving (server_of (sample_run 1)) (plugins_of (sample_run 1))"
proof -
  have "is_serving (sample_run 1)"
    by code_simp
  then show ?thesis
    using run.collapse by (simp add: sample_run_def)
qed

lemma sample_watch:
  "WatchLoop handler_dirs True (program_env (chat_env Returned 1))
     (replicate 5 (program_env (chat_env Returned 2), Poll_timeout)) (plugins_of (sample_run 1)) = Inr sample_watched"
proof -
  have "\<not> isl (WatchLoop handler_dirs True (program_env (chat_env Returned 1))
     (replicate 5 (program_env (chat_env Returned 2), Poll_timeout)) (plugins_of (sample_run 1)))"
    by code_simp
  then show ?thesis
    by (simp add: sample_watched_def)
qed

lemma sample_clean: "fails_clean (program_env (chat_env Returned t))" "well_behaved (program_env (chat_env Returned t))"
  by (auto simp: fails_clean_def well_behaved_def program_env_def chat_env_def chat_plugin_def static_path_def
      split: if_splits)



text \<open>A file without certificate and key passes the dry run (the port is set, \<^verbatim>\<open>tls_port\<close> is not), but the
  program started with it gives up.\<close>

definition plain_file :: ynode where
  "plain_file = YMap [(''server'', YMap [(''port'', YText ''8080''), (''threads'', YText ''1'')])]"

lemma dry_run_accepts_without_tls:
  "main_check ynode_lib (\<lambda>_. Some plain_file) (\<lambda>_. True) path = 0
   \<and> main_server ynode_lib (\<lambda>_. Some plain_file) (program_env (chat_env Returned 1)) any_files id path = Exit 1"
proof
  show "main_check ynode_lib (\<lambda>_. Some plain_file) (\<lambda>_. True) path = 0"
    unfolding main_check_def by code_simp
  let ?run = "main_server ynode_lib (\<lambda>_. Some plain_file) (program_env (chat_env Returned 1)) any_files id path"
  have "is_exit ?run" and "exit_status ?run = 1"
    by code_simp+
  then show "?run = Exit 1"
    by (metis run.collapse(1))
qed

end
