(* ===== verification/Spec2Isabelle.thy ===== *)
theory Spec2Isabelle
  imports Huffman Router H1_Session Ws_Handlers Proxy Middleware Rpc Plugins Server Database Health Pooled_Object Chat Program
begin

text \<open>
  Verification of a coroutine HTTP server: HTTP/1.1, HTTP/2 and WebSocket over TLS, written in C++
  with Asio. All file names below are relative to \<^verbatim>\<open>src/\<close>.

  \<^bold>\<open>The program.\<close> \<^verbatim>\<open>main.cpp\<close> reads a configuration, registers routes, loads handler libraries, starts
  a thread that reloads them, and starts \<^verbatim>\<open>MultiServer\<close>: one event loop per worker thread, each
  accepting connections of its own. After the TLS handshake the negotiated protocol decides between
  an HTTP/2 session and a pooled HTTP/1.1 session. A session reads bytes, parses them into requests
  whose text lives in a region of the worker's memory pool, runs the middleware chain, asks the router
  for a handler, and writes the handler's response. Handlers serve static files, forward to upstream
  servers, echo WebSocket messages, stream events, or come from a loaded library. Metrics and log
  writers observe all of it.

  \<^bold>\<open>Theories and sources.\<close>
  \<^item> \<open>Web_Prelude\<close>: types, lemma collections, generic lemmas, and the locales \<open>wire_codec\<close> (a fixed-size wire
    format) and \<open>op_refinement\<close> (operations that refine a specification).
  \<^item> \<open>Frame_Layer\<close>: \<^verbatim>\<open>http/http2/parser/BFL.hpp\<close>. Every frame format is an interpretation of \<open>wire_codec\<close>.
  \<^item> \<open>Stream_Manager\<close>, \<open>Flow_Control\<close>: \<^verbatim>\<open>http/http2/parser/stream_manager.*\<close> and \<^verbatim>\<open>flow_control.*\<close>; the stream
    table with its queue (locale \<open>pending_queue\<close>) and the receive windows on 32-bit words.
  \<^item> \<open>Region\<close>: \<^verbatim>\<open>net/region_pool.*\<close>, \<^verbatim>\<open>net/session_region.*\<close>; the memory pool and bump allocator over an
    explicit byte memory, with the locale \<open>string_store\<close> for what its clients rely on.
  \<^item> \<open>Stream_Context\<close>: \<^verbatim>\<open>http/http2/stream_context.*\<close>; the request of a stream, refining an abstract request.
  \<^item> \<open>Hpack\<close>, \<open>Huffman\<close>: \<^verbatim>\<open>http/http2/parser/HPACK.*\<close>; tables, decoder, encoder, and the correctness of the
    Huffman decoder.
  \<^item> \<open>H2_Session\<close>, \<open>H2_Requests\<close>: \<^verbatim>\<open>http/http2/session.*\<close>; the state and every frame handler, the read loop,
    request handling, writing and flushing; then theorems about whole inputs.
  \<^item> \<open>H1_Parser\<close>, \<open>H1_Session\<close>: \<^verbatim>\<open>http/http1.1/parser.*\<close>, \<^verbatim>\<open>session.*\<close>; the incremental parser and the session loop.
  \<^item> \<open>Ws_Frame\<close>, \<open>Ws_Handlers\<close>: \<^verbatim>\<open>net/ws_frame.hpp\<close>, \<^verbatim>\<open>net/ws_connection.hpp\<close>, \<^verbatim>\<open>net/ws_relay.hpp\<close>,
    \<^verbatim>\<open>http/http2/ws_connection.hpp\<close>, \<^verbatim>\<open>handler/ws_echo.hpp\<close>; locales \<open>message_stream\<close> (frames on a byte stream)
    and \<open>ws_peer\<close> (what the echo handler relies on).
  \<^item> \<open>Response\<close>: \<^verbatim>\<open>net/response.*\<close>. \<open>Router\<close>: \<^verbatim>\<open>handler/router.*\<close>, a radix tree refining a route table.
    \<open>Middleware\<close>: \<^verbatim>\<open>middleware/middleware.*\<close> and the chain of \<^verbatim>\<open>main.cpp\<close>.
  \<^item> \<open>Static_Files\<close>: \<^verbatim>\<open>cache/file_cache.*\<close>, \<^verbatim>\<open>handler/request_handler.cpp\<close>. \<open>Health\<close>: \<^verbatim>\<open>handler/health.*\<close>.
  \<^item> \<open>Pools\<close>, \<open>Pooled_Object\<close>: \<^verbatim>\<open>db/connection_pool.*\<close>, \<^verbatim>\<open>net/object_pool.hpp\<close>; the locale \<open>lending_pool\<close> says that
    no resource is in two hands, and four pools of the program are interpretations of it.
    \<open>Database\<close>: \<^verbatim>\<open>db/database.*\<close>.
  \<^item> \<open>Upstream\<close>, \<open>Proxy\<close>: \<^verbatim>\<open>handler/upstream_pool.*\<close>, \<^verbatim>\<open>upstream_conn_pool.*\<close>, \<^verbatim>\<open>reverse_proxy.*\<close>, \<^verbatim>\<open>proxy_handler.*\<close>.
  \<^item> \<open>Binary64\<close>, \<open>Metrics\<close>: arithmetic on \<^verbatim>\<open>double\<close> (locale \<open>float_rounding\<close>); \<^verbatim>\<open>handler/metrics.*\<close>, \<^verbatim>\<open>net/sse_push.*\<close>.
    \<open>Logger\<close>: \<^verbatim>\<open>log/logger.hpp\<close>, with the interleavings of callers and background threads.
  \<^item> \<open>Rpc\<close>: \<^verbatim>\<open>rpc/\<close>. \<open>Plugins\<close>: \<^verbatim>\<open>handler/loader.*\<close>, \<^verbatim>\<open>handler/reloader.*\<close> (locale \<open>kept_by\<close>).
  \<^item> \<open>Config\<close>: \<^verbatim>\<open>config/config.*\<close> and the dry run of \<^verbatim>\<open>main.cpp\<close>. \<open>Server\<close>: \<^verbatim>\<open>net/multi_server.*\<close>,
    \<^verbatim>\<open>net/server_base.hpp\<close>, \<^verbatim>\<open>http/http1.1/session_pool.*\<close>, and the ALPN parts of \<^verbatim>\<open>ssl/tls_context.cpp\<close>
    (locale \<open>step_invariant\<close>).
  \<^item> \<open>Streaming\<close>: \<^verbatim>\<open>handler/request_handler.hpp\<close>; the locale \<open>stream_sink\<close> with the sinks of both protocols.
    \<open>Auth\<close>, \<open>Chat\<close>: \<^verbatim>\<open>examples/cpp_handlers/\<close>, the handler libraries written against it.
  \<^item> \<open>Program\<close>: \<^verbatim>\<open>main.cpp\<close> and \<^verbatim>\<open>ssl/tls_context.cpp\<close> put together (locale \<open>router_property\<close>).

  \<^bold>\<open>How code becomes definitions.\<close> A class is a record with its fields, a method a function from states to
  states under the method's name (with the class in it where two methods share a name). Pointers into
  tables are indices or get and put pairs, pointers into worker memory are offsets, views are the text
  they denote. Undefined behaviour and reads out of bounds are \<open>None\<close> or a constructor of their own;
  exceptions and error returns are values. Integers are words of their width wherever they can wrap.
  A coroutine is cut at the points where it waits: what it gets there is an argument, and where several
  coroutines or threads share state, each uninterrupted piece is a step and histories are lists
  of steps or rule inductions over them.

  \<^bold>\<open>What is shown.\<close>
  \<^item> Wire formats: frame headers, header compression including Huffman codes, HTTP/1.1 requests, WebSocket
    frames and server-sent events are read back as they were written, however the input is cut.
  \<^item> Protocol state: the stream table, flow control, the dynamic table and the session keep their
    invariants under every input; frames touch one stream and are processed in order; queued
    requests are drained.
  \<^item> Memory and resources: regions never overlap and stay in the mapping; connections, sessions and
    pooled objects are never in two hands; code of registered handlers stays mapped and the handler
    found for a request is always one that the router owns.
  \<^item> Refinement: router and route table, upstream selection and circuit breakers, stream contexts and
    abstract requests, percentiles and their definition.
  \<^item> Handlers and observers: paths stay below the document root, ranges are exact, replies are relayed,
    requests are tagged, tokens are checked, log entries are conserved, counters agree.
  \<^item> Start and stop: an accepted configuration starts; after a signal at most one more connection is
    accepted per worker, and the server can always come to its end.
  \<^item> Lemmas named after what goes wrong state behaviour that differs from the intention, for instance
    \<open>body_after_headers_dropped\<close>, \<open>inotify_never_reloads\<close>, \<open>dry_run_accepts_without_tls\<close>.

  \<^bold>\<open>Bounds and termination.\<close> Loops are functions with a termination measure (bytes left, entries left, size
  of a tree). Input from a socket is the finite list of the pieces that arrive before the connection
  ends, so reading loops end with it; the relay and the reloader run for the rounds given by their inputs, and the
  statements hold for all of them. The loop over the rows of a statement may run for ever if the
  database keeps returning rows: it is a partial function, and it is proved to return all rows when there
  are finitely many. Statements about percentiles assume histograms below \<open>2 ^ 53\<close> requests, where the
  integers are exact in \<^verbatim>\<open>double\<close>.

  \<^bold>\<open>Libraries as arguments.\<close> YAML, JSON, OpenSSL, SQLite, MySQL, gRPC, the dynamic linker, the file system,
  clocks and date formatting are arguments or records of functions. Theorems that need something of them
  say so in their hypotheses, and their witnesses give concrete functions.

  \<^bold>\<open>Not modelled.\<close> Interleaving of several handlers on one HTTP/2 session, write failures on HTTP/1.1 and WebSocket
  connections, the timers of HTTP sessions, socket options and thread affinity; tracing output and the performance log
  thread; the options of the TLS context; \<^verbatim>\<open>net/server.cpp\<close>, which nothing uses; \<^verbatim>\<open>net/ws_frame.cpp\<close> and
  \<^verbatim>\<open>rpc/grpc_bridge.cpp\<close>, which only call OpenSSL and gRPC; \<^verbatim>\<open>http/protocol.*\<close>, which are empty; tests, scripts,
  web pages and the Python services.
\<close>

end
